(* ===== verification/Prelude.thy ===== *)
theory Prelude
  imports Main "HOL-Library.Word"
begin

text \<open>
  Shared vocabulary of the development: machine words, the faults a C execution can run
  into, the error monad in which the component models are written, C strings held in
  buffers, and the parts of the C library's formatting that the sources use.
  \<^item> \<open>fault + 'a\<close> is the outcome of a C function: \<open>Inr\<close> is a return (the C error codes are
    ordinary return values), \<open>Inl\<close> says which undefined behaviour, failed assertion or
    endless wait the execution runs into.
  \<^item> The collection \<open>c_simps\<close> gathers the equations the component proofs rewrite with.
\<close>

unbundle bit_operations_syntax

named_theorems c_simps \<open>equations for the C vocabulary, used as simplification rules\<close>

section \<open>Machine integers\<close>

type_synonym u8 = "8 word"
type_synonym u16 = "16 word"
type_synonym u32 = "32 word"
type_synonym u64 = "64 word"

text \<open>Conversion of a mathematical integer to the C type \<open>int\<close> (two's complement, 32 bits).\<close>

definition c_int :: "int \<Rightarrow> int" where
  "c_int i = signed_take_bit 31 i"

lemma c_int_id: "- (2 ^ 31) \<le> i \<Longrightarrow> i < 2 ^ 31 \<Longrightarrow> c_int i = i"
  unfolding c_int_def by (rule signed_take_bit_int_eq_self) simp_all

lemma c_int_range: "- (2 ^ 31) \<le> c_int i \<and> c_int i < 2 ^ 31"
  unfolding c_int_def
  using signed_take_bit_int_greater_eq_minus_exp [of 31 i] signed_take_bit_int_less_exp [of 31 i]
  by simp

section \<open>Faults and the error monad\<close>

datatype fault =
    NullDeref      \<comment> \<open>a null pointer is read or written through\<close>
  | OutOfBounds    \<comment> \<open>an access outside the object\<close>
  | Uninit         \<comment> \<open>an indeterminate value is used\<close>
  | AssertFail     \<comment> \<open>a failed \<open>assert\<close> or a call of \<open>abort\<close>\<close>
  | Overflow       \<comment> \<open>a signed integer overflows\<close>
  | NoReturn       \<comment> \<open>the call never returns\<close>

type_synonym 'a res = "fault + 'a"

definition rbind :: "'a res \<Rightarrow> ('a \<Rightarrow> 'b res) \<Rightarrow> 'b res" where
  "rbind x f = (case x of Inl e \<Rightarrow> Inl e | Inr a \<Rightarrow> f a)"

lemma rbind_Inl [simp, c_simps]: "rbind (Inl e) f = Inl e"
  by (simp add: rbind_def)

lemma rbind_Inr [simp, c_simps]: "rbind (Inr a) f = f a"
  by (simp add: rbind_def)

lemma rbind_assoc: "rbind (rbind x f) g = rbind x (\<lambda>a. rbind (f a) g)"
  by (cases x) simp_all

lemma rbind_eq_InrE [elim]:
  assumes "rbind x f = Inr b"
  obtains a where "x = Inr a" and "f a = Inr b"
  using assms by (cases x) auto

lemma rbind_eq_Inr_iff: "rbind x f = Inr b \<longleftrightarrow> (\<exists>a. x = Inr a \<and> f a = Inr b)"
  by (cases x) auto

definition guard_res :: "bool \<Rightarrow> fault \<Rightarrow> 'a res \<Rightarrow> 'a res" where
  "guard_res b e k = (if b then k else Inl e)"

lemma guard_res_True [simp, c_simps]: "b \<Longrightarrow> guard_res b e k = k"
  by (simp add: guard_res_def)

lemma guard_res_False [simp, c_simps]: "\<not> b \<Longrightarrow> guard_res b e k = Inl e"
  by (simp add: guard_res_def)

lemma guard_res_eq_Inr_iff: "guard_res b e k = Inr a \<longleftrightarrow> b \<and> k = Inr a"
  by (auto simp: guard_res_def)

section \<open>Characters and C strings\<close>

abbreviation NUL :: char where
  "NUL \<equiv> CHR 0x00"

text \<open>The string a buffer holds: its characters up to the first NUL.\<close>

definition cstr :: "string \<Rightarrow> string" where
  "cstr buf = takeWhile (\<lambda>c. c \<noteq> NUL) buf"

definition no_nul :: "string \<Rightarrow> bool" where
  "no_nul s \<longleftrightarrow> list_all (\<lambda>c. c \<noteq> NUL) s"

lemma cstr_no_nul [simp]: "no_nul (cstr s)"
  by (auto simp: no_nul_def cstr_def list_all_iff dest: set_takeWhileD)

lemma cstr_id [simp]: "no_nul s \<Longrightarrow> cstr s = s"
  unfolding no_nul_def cstr_def by (simp add: list_all_iff)

lemma no_nul_simps [simp, c_simps]:
  "no_nul []"
  "no_nul (c # s) \<longleftrightarrow> c \<noteq> NUL \<and> no_nul s"
  "no_nul (s @ t) \<longleftrightarrow> no_nul s \<and> no_nul t"
  by (simp_all add: no_nul_def)

lemma no_nul_take [simp]: "no_nul s \<Longrightarrow> no_nul (take n s)"
  by (auto simp: no_nul_def list_all_iff dest: in_set_takeD)

lemma no_nul_drop [simp]: "no_nul s \<Longrightarrow> no_nul (drop n s)"
  by (auto simp: no_nul_def list_all_iff dest: in_set_dropD)

lemma cstr_append_NUL [simp]: "cstr (s @ NUL # t) = cstr s"
  by (induction s) (auto simp: cstr_def)

lemma length_cstr_le: "length (cstr s) \<le> length s"
  by (simp add: cstr_def length_takeWhile_le)

text \<open>What \<open>snprintf (buf, n, \<dots>)\<close> leaves in the buffer for an output \<open>s\<close> when \<open>n > 0\<close>.\<close>

definition sn_store :: "nat \<Rightarrow> string \<Rightarrow> string" where
  "sn_store n s = take (n - 1) s"

lemma length_sn_store: "0 < n \<Longrightarrow> length (sn_store n s) < n"
  by (simp add: sn_store_def)

lemma sn_store_fits [simp]: "length s < n \<Longrightarrow> sn_store n s = s"
  by (simp add: sn_store_def)

lemma no_nul_sn_store [simp]: "no_nul s \<Longrightarrow> no_nul (sn_store n s)"
  by (simp add: sn_store_def)

definition char_code :: "char \<Rightarrow> nat" where
  "char_code c = of_char c"

lemma char_code_less [simp]: "char_code c < 256"
  by (simp add: char_code_def)

lemma char_code_inject [simp]: "char_code c = char_code d \<longleftrightarrow> c = d"
  by (simp add: char_code_def)

definition c_isdigit :: "char \<Rightarrow> bool" where
  "c_isdigit c \<longleftrightarrow> 48 \<le> char_code c \<and> char_code c \<le> 57"

definition c_isspace :: "char \<Rightarrow> bool" where
  "c_isspace c \<longleftrightarrow> char_code c = 32 \<or> (9 \<le> char_code c \<and> char_code c \<le> 13)"

definition c_isalnum :: "char \<Rightarrow> bool" where
  "c_isalnum c \<longleftrightarrow> c_isdigit c \<or> (65 \<le> char_code c \<and> char_code c \<le> 90)
     \<or> (97 \<le> char_code c \<and> char_code c \<le> 122)"

definition c_isprint :: "char \<Rightarrow> bool" where
  "c_isprint c \<longleftrightarrow> 32 \<le> char_code c \<and> char_code c \<le> 126"

definition c_tolower :: "char \<Rightarrow> char" where
  "c_tolower c = (if 65 \<le> char_code c \<and> char_code c \<le> 90
                  then char_of (char_code c + 32) else c)"

text \<open>\<open>strstr (s, pat)\<close>: the rest of the string from the first occurrence on.\<close>

fun find_sub :: "string \<Rightarrow> string \<Rightarrow> string option" where
  "find_sub pat s =
     (if take (length pat) s = pat then Some s
      else (case s of [] \<Rightarrow> None | _ # t \<Rightarrow> find_sub pat t))"

declare find_sub.simps [simp del]

section \<open>Decimal numbers\<close>

definition digit_char :: "nat \<Rightarrow> char" where
  "digit_char n = char_of (48 + n)"

definition digit_val :: "char \<Rightarrow> nat" where
  "digit_val c = char_code c - 48"

fun show_nat :: "nat \<Rightarrow> string" where
  "show_nat n = (if n < 10 then [digit_char n]
                 else show_nat (n div 10) @ [digit_char (n mod 10)])"

declare show_nat.simps [simp del]

definition show_int :: "int \<Rightarrow> string" where
  "show_int i = (if i < 0 then CHR ''-'' # show_nat (nat (- i)) else show_nat (nat i))"

lemma digit_chars:
  "digit_char 0 = CHR ''0''" "digit_char (Suc 0) = CHR ''1''" "digit_char 1 = CHR ''1''" "digit_char 2 = CHR ''2''"
  "digit_char 3 = CHR ''3''" "digit_char 4 = CHR ''4''" "digit_char 5 = CHR ''5''"
  "digit_char 6 = CHR ''6''" "digit_char 7 = CHR ''7''" "digit_char 8 = CHR ''8''"
  "digit_char 9 = CHR ''9''"
  by code_simp+

text \<open>The value of a digit string, most significant digit first.\<close>

definition read_nat :: "string \<Rightarrow> nat" where
  "read_nat s = foldl (\<lambda>acc c. 10 * acc + digit_val c) 0 s"

lemma char_code_digit_char [simp]: "n < 10 \<Longrightarrow> char_code (digit_char n) = 48 + n"
  by (simp add: char_code_def digit_char_def)

lemma digit_val_digit_char [simp]: "n < 10 \<Longrightarrow> digit_val (digit_char n) = n"
  by (simp add: digit_val_def)

lemma isdigit_digit_char [simp]: "n < 10 \<Longrightarrow> c_isdigit (digit_char n)"
  by (simp add: c_isdigit_def)

lemma show_nat_digits: "list_all c_isdigit (show_nat n)"
proof (induction n rule: show_nat.induct)
  case (1 n)
  then show ?case by (subst show_nat.simps) simp
qed

lemma show_nat_not_Nil [simp]: "show_nat n \<noteq> []"
  by (subst show_nat.simps) simp

lemma read_nat_snoc: "read_nat (s @ [c]) = 10 * read_nat s + digit_val c"
  by (simp add: read_nat_def)

lemma read_show_nat: "read_nat (show_nat n) = n"
proof (induction n rule: show_nat.induct)
  case (1 n)
  show ?case
  proof (cases "n < 10")
    case True
    then show ?thesis by (subst show_nat.simps) (simp add: read_nat_def)
  next
    case False
    with "1.IH" have "read_nat (show_nat (n div 10)) = n div 10" by simp
    with False show ?thesis by (subst show_nat.simps) (simp add: read_nat_snoc)
  qed
qed

lemma length_show_nat: "0 < k \<Longrightarrow> n < 10 ^ k \<Longrightarrow> length (show_nat n) \<le> k"
proof (induction k arbitrary: n)
  case 0
  then show ?case by simp
next
  case (Suc k)
  show ?case
  proof (cases "n < 10")
    case True
    then show ?thesis by (subst show_nat.simps) simp
  next
    case False
    with Suc.prems have "0 < k" by (cases k) auto
    moreover from Suc.prems have "n div 10 < 10 ^ k" by (simp add: less_mult_imp_div_less)
    ultimately have "length (show_nat (n div 10)) \<le> k" by (rule Suc.IH)
    with False show ?thesis by (subst show_nat.simps) simp
  qed
qed

lemma show_nat_inject [simp]: "show_nat m = show_nat n \<longleftrightarrow> m = n"
  by (metis read_show_nat)

lemma isdigit_no_nul: "list_all c_isdigit s \<Longrightarrow> no_nul s"
  by (induction s) (auto simp: c_isdigit_def char_code_def)

lemma no_nul_show_nat [simp]: "no_nul (show_nat n)"
  by (rule isdigit_no_nul) (rule show_nat_digits)

lemma no_nul_show_int [simp]: "no_nul (show_int i)"
  by (simp add: show_int_def)

end
