(* ===== verification/B64.thy ===== *)
theory B64
  imports Prelude
begin

text \<open>
  The base64 codec of the library: \<open>b64.h\<close> (the table), \<open>encode.c\<close> (\<open>b64_encode\<close>) and
  \<open>decode.c\<close> (\<open>b64_decode_ex\<close>, \<open>b64_decode\<close>).
  The allocator is the parameter \<open>mem\<close>: \<open>mem n\<close> says whether a request for \<open>n\<close> bytes is
  granted; both loops only ever ask for growing sizes.
\<close>

section \<open>The table\<close>

definition b64_table :: string where
  "b64_table = ''ABCDEFGHIJKLMNOPQRSTUVWXYZabcdefghijklmnopqrstuvwxyz0123456789+/''"

definition b64_at :: "u8 \<Rightarrow> char" where
  "b64_at x = b64_table ! unat x"

section \<open>Encoding\<close>

text \<open>The four indices computed from three bytes (\<open>buf\<close> from \<open>tmp\<close>).\<close>

definition enc_quad :: "u8 \<Rightarrow> u8 \<Rightarrow> u8 \<Rightarrow> u8 list" where
  "enc_quad t0 t1 t2 =
     [drop_bit 2 (t0 AND 0xfc),
      push_bit 4 (t0 AND 0x03) + drop_bit 4 (t1 AND 0xf0),
      push_bit 2 (t1 AND 0x0f) + drop_bit 6 (t2 AND 0xc0),
      t2 AND 0x3f]"

text \<open>
  The main loop: \<open>tmp\<close> collects bytes, and every third one emits four characters.
  The result is the bytes left in \<open>tmp\<close> and the text written so far. A failed
  \<open>b64_realloc\<close> is not checked by the code, which then writes through the null pointer.
\<close>

fun enc_loop :: "(nat \<Rightarrow> bool) \<Rightarrow> u8 list \<Rightarrow> u8 list \<Rightarrow> string \<Rightarrow> (u8 list \<times> string) res" where
  "enc_loop mem [] tmp enc = Inr (tmp, enc)"
| "enc_loop mem (c # src) tmp enc =
     (case tmp @ [c] of
        [t0, t1, t2] \<Rightarrow>
          (if mem (length enc + 4)
           then enc_loop mem src [] (enc @ map b64_at (enc_quad t0 t1 t2))
           else Inl NullDeref)
      | tmp' \<Rightarrow> enc_loop mem src tmp' enc)"

text \<open>Characters written one by one, each after its own \<open>b64_realloc\<close>.\<close>

fun enc_put :: "(nat \<Rightarrow> bool) \<Rightarrow> string \<Rightarrow> string \<Rightarrow> string res" where
  "enc_put mem enc [] = Inr enc"
| "enc_put mem enc (c # cs) =
     (if mem (length enc + 1) then enc_put mem (enc @ [c]) cs else Inl NullDeref)"

definition enc_rest :: "(nat \<Rightarrow> bool) \<Rightarrow> u8 list \<Rightarrow> string \<Rightarrow> string res" where
  "enc_rest mem tmp enc =
     (let i = length tmp in
      if i > 0 then
        (let t = tmp @ replicate (3 - i) 0;
             buf = enc_quad (t ! 0) (t ! 1) (t ! 2)
         in rbind (enc_put mem enc (map b64_at (take (i + 1) buf)))
              (\<lambda>enc'. enc_put mem enc' (replicate (3 - i) (CHR ''='')))) 
      else Inr enc)"

text \<open>\<open>None\<close> is the returned null pointer of a failed first allocation.\<close>

definition b64_encode :: "(nat \<Rightarrow> bool) \<Rightarrow> u8 list \<Rightarrow> string option res" where
  "b64_encode mem src =
     (if \<not> mem 1 then Inr None
      else rbind (enc_loop mem src [] []) (\<lambda>(tmp, enc).
           rbind (enc_rest mem tmp enc) (\<lambda>enc'.
           if mem (length enc' + 1) then Inr (Some enc') else Inl NullDeref)))"

section \<open>Decoding\<close>

text \<open>
  Translation of one character of \<open>tmp\<close> by linear search in the table; a byte that is not
  in the table stays as it is.
\<close>

definition b64_index :: "u8 \<Rightarrow> u8" where
  "b64_index t = (case find (\<lambda>l. t = of_char (b64_table ! l)) [0..<64] of
                    Some l \<Rightarrow> of_nat l | None \<Rightarrow> t)"

text \<open>The three bytes computed from four indices (\<open>buf\<close> from \<open>tmp\<close>).\<close>

definition dec_triple :: "u8 \<Rightarrow> u8 \<Rightarrow> u8 \<Rightarrow> u8 \<Rightarrow> u8 list" where
  "dec_triple t0 t1 t2 t3 =
     [push_bit 2 t0 + drop_bit 4 (t1 AND 0x30),
      push_bit 4 (t1 AND 0xf) + drop_bit 2 (t2 AND 0x3c),
      push_bit 6 (t2 AND 0x3) + t3]"

definition b64_accepts :: "char \<Rightarrow> bool" where
  "b64_accepts c \<longleftrightarrow> c \<noteq> CHR ''='' \<and> (c_isalnum c \<or> c = CHR ''+'' \<or> c = CHR ''/'')"

text \<open>
  The main loop over the buffer \<open>src\<close> with \<open>len\<close> characters to go. The inner \<open>option\<close> is
  the early \<open>return NULL\<close> of a failed allocation; running past the buffer is a fault.
\<close>

fun dec_loop :: "(nat \<Rightarrow> bool) \<Rightarrow> nat \<Rightarrow> string \<Rightarrow> u8 list \<Rightarrow> u8 list
                  \<Rightarrow> (u8 list \<times> u8 list) option res" where
  "dec_loop mem 0 src tmp dec = Inr (Some (tmp, dec))"
| "dec_loop mem (Suc len) [] tmp dec = Inl OutOfBounds"
| "dec_loop mem (Suc len) (c # src) tmp dec =
     (if \<not> b64_accepts c then Inr (Some (tmp, dec))
      else case map b64_index (tmp @ [of_char c]) of
             [t0, t1, t2, t3] \<Rightarrow>
               (if mem (length dec + 3)
                then dec_loop mem len src [] (dec @ dec_triple t0 t1 t2 t3)
                else Inr None)
           | _ \<Rightarrow> dec_loop mem len src (tmp @ [of_char c]) dec)"

definition dec_rest :: "(nat \<Rightarrow> bool) \<Rightarrow> u8 list \<Rightarrow> u8 list \<Rightarrow> u8 list option" where
  "dec_rest mem tmp dec =
     (let i = length tmp in
      if i > 0 then
        (let t = map b64_index (tmp @ replicate (4 - i) 0);
             buf = dec_triple (t ! 0) (t ! 1) (t ! 2) (t ! 3)
         in if mem (length dec + (i - 1)) then Some (dec @ take (i - 1) buf) else None)
      else Some dec)"

text \<open>
  The result is the null pointer (\<open>None\<close>) or the decoded bytes; their number is what
  the code stores through \<open>decsize\<close>.
\<close>

definition b64_decode_ex :: "(nat \<Rightarrow> bool) \<Rightarrow> string \<Rightarrow> nat \<Rightarrow> u8 list option res" where
  "b64_decode_ex mem src len =
     (if \<not> mem 1 then Inr None
      else rbind (dec_loop mem len src [] []) (\<lambda>r.
           case r of None \<Rightarrow> Inr None
           | Some (tmp, dec) \<Rightarrow>
               (case dec_rest mem tmp dec of None \<Rightarrow> Inr None
                | Some dec' \<Rightarrow> Inr (if mem (length dec' + 1) then Some dec' else None))))"

definition b64_decode :: "(nat \<Rightarrow> bool) \<Rightarrow> string \<Rightarrow> nat \<Rightarrow> u8 list option res" where
  "b64_decode mem src len = b64_decode_ex mem src len"

section \<open>Reference definition\<close>

text \<open>
  Base64 by its definition: three bytes are one 24-bit number, written with four digits
  in base 64; a final group of one or two bytes is completed with zero bits and padding.
\<close>

definition sextets :: "u8 \<Rightarrow> u8 \<Rightarrow> u8 \<Rightarrow> nat list" where
  "sextets a b c =
     (let n = unat a * 65536 + unat b * 256 + unat c
      in [n div 262144 mod 64, n div 4096 mod 64, n div 64 mod 64, n mod 64])"

fun b64_spec :: "u8 list \<Rightarrow> string" where
  "b64_spec (a # b # c # xs) = map (\<lambda>k. b64_table ! k) (sextets a b c) @ b64_spec xs"
| "b64_spec [a, b] = map (\<lambda>k. b64_table ! k) (take 3 (sextets a b 0)) @ ''=''"
| "b64_spec [a] = map (\<lambda>k. b64_table ! k) (take 2 (sextets a 0 0)) @ ''==''"
| "b64_spec [] = []"

section \<open>Encoding computes the reference\<close>

lemma and_low_mask:
  "(x :: u8) AND 0x3f = take_bit 6 x" "x AND 0x0f = take_bit 4 x" "x AND 0x03 = take_bit 2 x"
  by (simp_all add: take_bit_eq_mask mask_eq_exp_minus_1)

lemma unat_take_bit_u8: "unat (take_bit n (x :: u8)) = unat x mod 2 ^ n"
  unfolding unsigned_take_bit_eq by (rule take_bit_eq_mod)

lemma unat_drop_bit_u8: "unat (drop_bit n (x :: u8)) = unat x div 2 ^ n"
  unfolding unat_drop_bit_eq by (rule drop_bit_eq_div)

lemma unat_push_bit_u8: "unat (push_bit n (x :: u8)) = unat x * 2 ^ n mod 256"
  by (simp only: unsigned_push_bit_eq take_bit_eq_mod push_bit_eq_mult [of n "unat x"]) simp

lemma unat_add_u8: "unat (x + y :: u8) = (unat x + unat y) mod 256"
  unfolding unat_word_ariths by simp

lemmas unat_u8 = unat_take_bit_u8 unat_drop_bit_u8 unat_push_bit_u8 unat_add_u8

lemma unat_u8_less [simp]: "unat (x :: u8) < 256"
  using unsigned_less [of x] by simp

lemma enc_quad_drop:
  "enc_quad a b c =
     [take_bit 6 (drop_bit 2 a),
      push_bit 4 (take_bit 2 a) + take_bit 4 (drop_bit 4 b),
      push_bit 2 (take_bit 4 b) + take_bit 2 (drop_bit 6 c),
      take_bit 6 c]"
  by (simp add: enc_quad_def drop_bit_and and_low_mask)

lemma sextet_arith:
  assumes "(b::nat) < 256" and "c < 256"
  shows "(a * 65536 + b * 256 + c) div 262144 mod 64 = a div 4 mod 64"
    and "(a * 65536 + b * 256 + c) div 4096 mod 64 = a mod 4 * 16 + b div 16 mod 16"
    and "(a * 65536 + b * 256 + c) div 64 mod 64 = b mod 16 * 4 + c div 64 mod 4"
    and "(a * 65536 + b * 256 + c) mod 64 = c mod 64"
proof -
  obtain a1 a0 where a: "a = 4 * a1 + a0" and a0: "a0 < 4"
    by (metis mod_less_divisor mult_div_mod_eq zero_less_numeral)
  obtain b1 b0 where b: "b = 16 * b1 + b0" and b0: "b0 < 16"
    by (metis mod_less_divisor mult_div_mod_eq zero_less_numeral)
  obtain c1 c0 where c: "c = 64 * c1 + c0" and c0: "c0 < 64"
    by (metis mod_less_divisor mult_div_mod_eq zero_less_numeral)
  have b1: "b1 < 16" and c1: "c1 < 4" using assms b c by auto
  have "(a * 65536 + b * 256 + c) div 262144 = a1"
    by (rule div_nat_eqI) (use a b c a0 b0 c0 b1 c1 in auto)
  then show "(a * 65536 + b * 256 + c) div 262144 mod 64 = a div 4 mod 64"
    using a a0 by simp
  have "(a * 65536 + b * 256 + c) div 4096 = a1 * 64 + (a0 * 16 + b1)"
    by (rule div_nat_eqI) (use a b c a0 b0 c0 b1 c1 in auto)
  then show "(a * 65536 + b * 256 + c) div 4096 mod 64 = a mod 4 * 16 + b div 16 mod 16"
    using a a0 b b0 b1 by simp
  have "(a * 65536 + b * 256 + c) div 64 = (a * 16 + b1) * 64 + (b0 * 4 + c1)"
    by (rule div_nat_eqI) (use b c b0 c0 b1 c1 in auto)
  moreover have "((a * 16 + b1) * 64 + (b0 * 4 + c1)) mod 64 = b0 * 4 + c1"
    using b0 c1 by (simp only: mod_mult_self3) simp
  ultimately show "(a * 65536 + b * 256 + c) div 64 mod 64 = b mod 16 * 4 + c div 64 mod 4"
    using b b0 c c0 c1 by simp
  have "a * 65536 + b * 256 + c = (a * 1024 + b * 4) * 64 + c" by simp
  then show "(a * 65536 + b * 256 + c) mod 64 = c mod 64"
    by (simp only: mod_mult_self3)
qed

lemma enc_quad_sextets: "map unat (enc_quad a b c) = sextets a b c"
  unfolding enc_quad_drop sextets_def Let_def by (simp add: unat_u8 sextet_arith)

lemma map_b64_at: "map b64_at xs = map (\<lambda>k. b64_table ! k) (map unat xs)"
  by (simp add: b64_at_def)

lemma enc_put_total:
  assumes "\<And>n. 0 < n \<Longrightarrow> mem n"
  shows "enc_put mem enc cs = Inr (enc @ cs)"
  using assms by (induction cs arbitrary: enc) simp_all

lemma enc_quad_nth:
  "take k (map b64_at (enc_quad a b c)) = map (\<lambda>k. b64_table ! k) (take k (sextets a b c))"
  by (simp only: map_b64_at enc_quad_sextets take_map)

lemma enc_loop_rest:
  assumes mem: "\<And>n. 0 < n \<Longrightarrow> mem n"
  shows "rbind (enc_loop mem xs [] enc) (\<lambda>(tmp, enc). enc_rest mem tmp enc) = Inr (enc @ b64_spec xs)"
proof (induction xs arbitrary: enc rule: b64_spec.induct)
  case (1 a b c xs)
  have "map b64_at (enc_quad a b c) = map (\<lambda>k. b64_table ! k) (sextets a b c)"
    by (simp only: map_b64_at enc_quad_sextets)
  with 1 mem show ?case by simp
next
  case (2 a b)
  show ?case
    using mem enc_quad_nth [of 3 a b 0]
    by (simp add: enc_rest_def enc_put_total numeral_3_eq_3 take_map)
next
  case (3 a)
  show ?case
    using mem enc_quad_nth [of 2 a 0 0]
    by (simp add: enc_rest_def enc_put_total numeral_2_eq_2 take_map)
next
  case 4
  show ?case by (simp add: enc_rest_def)
qed

lemma b64_encode_total:
  assumes "\<And>n. 0 < n \<Longrightarrow> mem n"
  shows "b64_encode mem xs = Inr (Some (b64_spec xs))"
proof -
  have "rbind (enc_loop mem xs [] []) (\<lambda>(tmp, enc). enc_rest mem tmp enc) = Inr (b64_spec xs)"
    using enc_loop_rest [of mem xs "[]"] assms by simp
  then show ?thesis
    using assms by (auto simp: b64_encode_def elim!: rbind_eq_InrE)
qed

section \<open>Shape of the output\<close>

lemma length_sextets [simp]: "length (sextets a b c) = 4"
  by (simp add: sextets_def Let_def)

lemma sextets_less:
  assumes "k \<in> set (sextets a b c)"
  shows "k < 64"
proof -
  from assms have "\<exists>m. k = m mod 64"
    unfolding sextets_def Let_def list.set insert_iff empty_iff
    by (elim disjE FalseE) (erule exI)+
  then obtain m where "k = m mod 64" ..
  then show ?thesis by (simp only: mod_less_divisor zero_less_numeral)
qed

lemma length_b64_table [simp]: "length b64_table = 64"
  by code_simp

lemma length_b64_spec: "length (b64_spec xs) = 4 * ((length xs + 2) div 3)"
proof (induction xs rule: b64_spec.induct)
  case (1 a b c xs)
  have "(length (a # b # c # xs) + 2) div 3 = (length xs + 2 + 3) div 3"
    by (rule arg_cong [where f = "\<lambda>n. n div 3"]) simp
  also have "\<dots> = (length xs + 2) div 3 + 1"
    by (rule div_add_self2) simp
  finally have "(length (a # b # c # xs) + 2) div 3 = (length xs + 2) div 3 + 1" .
  with 1 show ?case
    by (simp only: b64_spec.simps length_append length_map length_sextets
        distrib_left mult_1_right add.commute)
next
  case (2 a b)
  have "length (b64_spec [a, b]) = 4" by simp
  moreover have "(length [a, b] + 2) div 3 = 1" by simp
  ultimately show ?case by (simp only: mult_1_right)
next
  case (3 a)
  have "length (b64_spec [a]) = 4" by simp
  moreover have "(length [a] + 2) div 3 = 1" by simp
  ultimately show ?case by (simp only: mult_1_right)
qed simp

definition b64_alphabet :: "char \<Rightarrow> bool" where
  "b64_alphabet c \<longleftrightarrow> c_isalnum c \<or> c = CHR ''+'' \<or> c = CHR ''/'' \<or> c = CHR ''=''"

lemma b64_table_alphabet: "list_all b64_accepts b64_table"
  by code_simp

lemma b64_table_nth: "k < 64 \<Longrightarrow> b64_accepts (b64_table ! k)"
  using b64_table_alphabet by (simp add: list_all_length)

lemma b64_accepts_alphabet: "b64_accepts c \<Longrightarrow> b64_alphabet c"
  by (auto simp: b64_accepts_def b64_alphabet_def)

lemma sextets_alphabet: "list_all b64_accepts (map (\<lambda>k. b64_table ! k) (take n (sextets a b c)))"
  by (auto simp: list_all_iff dest!: in_set_takeD intro!: b64_table_nth sextets_less)

lemma b64_spec_alphabet: "list_all b64_alphabet (b64_spec xs)"
proof -
  have h: "list_all b64_alphabet (map (\<lambda>k. b64_table ! k) (take n (sextets a b c)))" for n a b c
    using sextets_alphabet [of n a b c] by (auto simp: list_all_iff intro: b64_accepts_alphabet)
  have eq: "b64_alphabet (CHR ''='')" by (simp add: b64_alphabet_def)
  show ?thesis
    by (induction xs rule: b64_spec.induct)
      (use h [of 4] h [of 3] h [of 2] eq in \<open>simp_all\<close>)
qed

section \<open>Decoding inverts encoding\<close>

lemma unat_of_char: "unat (of_char c :: u8) = char_code c"
proof -
  have "(of_char c :: u8) = of_nat (char_code c)"
    unfolding char_code_def by (rule of_nat_of_char [symmetric])
  then show ?thesis by (simp add: unat_of_nat take_bit_nat_eq_self)
qed

lemma of_char_u8_inject: "(of_char c :: u8) = of_char d \<longleftrightarrow> c = d"
  by (metis unat_of_char char_code_inject)

lemma distinct_b64_table: "distinct b64_table"
  by code_simp

lemma b64_index_table:
  assumes "k < 64"
  shows "b64_index (of_char (b64_table ! k)) = of_nat k"
proof -
  have "find (\<lambda>l. (of_char (b64_table ! k) :: u8) = of_char (b64_table ! l)) [0..<64] = Some k"
    using assms distinct_b64_table
    by (auto simp: find_Some_iff of_char_u8_inject distinct_conv_nth intro!: exI [of _ k])
  then show ?thesis by (simp add: b64_index_def)
qed

lemma table_no_NUL: "NUL \<notin> set b64_table"
  by (simp add: b64_table_def)

lemma b64_index_0 [simp]: "b64_index 0 = 0"
proof -
  have "(0 :: u8) = of_char c \<longleftrightarrow> c = NUL" for c
    using of_char_u8_inject [of NUL c] by auto
  then have "find (\<lambda>l. (0 :: u8) = of_char (b64_table ! l)) [0..<64] = None"
    using table_no_NUL by (auto simp: find_None_iff in_set_conv_nth)
  then show ?thesis by (simp add: b64_index_def)
qed

lemma dec_triple_drop:
  "dec_triple t0 t1 t2 t3 =
     [push_bit 2 t0 + take_bit 2 (drop_bit 4 t1),
      push_bit 4 (take_bit 4 t1) + take_bit 4 (drop_bit 2 t2),
      push_bit 6 (take_bit 2 t2) + t3]"
  by (simp add: dec_triple_def drop_bit_and and_low_mask)

lemma dec_arith:
  assumes "(a::nat) < 256" and "b < 256" and "c < 256"
  shows "(a div 4 mod 64 * 4 mod 256 + (a mod 4 * 16 + b div 16 mod 16) div 16 mod 4) mod 256 = a"
    and "((a mod 4 * 16 + b div 16 mod 16) mod 16 * 16 mod 256
          + (b mod 16 * 4 + c div 64 mod 4) div 4 mod 16) mod 256 = b"
    and "((b mod 16 * 4 + c div 64 mod 4) mod 4 * 64 mod 256 + c mod 64) mod 256 = c"
proof -
  obtain a1 a0 where a: "a = 4 * a1 + a0" and a0: "a0 < 4"
    by (metis mod_less_divisor mult_div_mod_eq zero_less_numeral)
  obtain b1 b0 where b: "b = 16 * b1 + b0" and b0: "b0 < 16"
    by (metis mod_less_divisor mult_div_mod_eq zero_less_numeral)
  obtain c1 c0 where c: "c = 64 * c1 + c0" and c0: "c0 < 64"
    by (metis mod_less_divisor mult_div_mod_eq zero_less_numeral)
  have a1: "a1 < 64" and b1: "b1 < 16" and c1: "c1 < 4" using assms a b c by auto
  show "(a div 4 mod 64 * 4 mod 256 + (a mod 4 * 16 + b div 16 mod 16) div 16 mod 4) mod 256 = a"
    using a a0 a1 b b0 b1 by simp
  show "((a mod 4 * 16 + b div 16 mod 16) mod 16 * 16 mod 256
          + (b mod 16 * 4 + c div 64 mod 4) div 4 mod 16) mod 256 = b"
    using b b0 b1 c c0 c1 by simp
  show "((b mod 16 * 4 + c div 64 mod 4) mod 4 * 64 mod 256 + c mod 64) mod 256 = c"
    using c c0 c1 by simp
qed

lemma unat_of_nat_64: "k < 64 \<Longrightarrow> unat (of_nat k :: u8) = k"
  by (simp add: unat_of_nat)

lemma pow2_small: "(2::nat) ^ 2 = 4" "(2::nat) ^ 4 = 16" "(2::nat) ^ 6 = 64"
  by simp_all

lemma dec_triple_unat:
  assumes "k0 < 64" and "k1 < 64" and "k2 < 64" and "k3 < 64"
  shows "map unat (dec_triple (of_nat k0) (of_nat k1) (of_nat k2) (of_nat k3)) =
    [(k0 * 4 mod 256 + k1 div 16 mod 4) mod 256,
     (k1 mod 16 * 16 mod 256 + k2 div 4 mod 16) mod 256,
     (k2 mod 4 * 64 mod 256 + k3) mod 256]"
  unfolding dec_triple_drop using assms
  by (simp only: list.map unat_u8 unat_of_nat_64 pow2_small)

lemma sextets_digits:
  "sextets a b c =
     [unat a div 4 mod 64, unat a mod 4 * 16 + unat b div 16 mod 16,
      unat b mod 16 * 4 + unat c div 64 mod 4, unat c mod 64]"
  unfolding sextets_def Let_def
  by (simp only: sextet_arith [of "unat b" "unat c" "unat a"] unat_u8_less)

lemma map_unat_inject: "map unat xs = map unat ys \<Longrightarrow> xs = ys"
  by (simp add: inj_map_eq_map inj_unsigned)

lemma dec_triple_sextets:
  assumes "sextets a b c = [k0, k1, k2, k3]"
  shows "dec_triple (of_nat k0) (of_nat k1) (of_nat k2) (of_nat k3) = [a, b, c]"
proof -
  have k: "k0 < 64" "k1 < 64" "k2 < 64" "k3 < 64"
    using sextets_less [of _ a b c] by (simp_all add: assms)
  have ks: "k0 = unat a div 4 mod 64" "k1 = unat a mod 4 * 16 + unat b div 16 mod 16"
    "k2 = unat b mod 16 * 4 + unat c div 64 mod 4" "k3 = unat c mod 64"
    using assms unfolding sextets_digits by (simp_all only: list.inject)
  have "map unat (dec_triple (of_nat k0) (of_nat k1) (of_nat k2) (of_nat k3)) = map unat [a, b, c]"
    unfolding dec_triple_unat [OF k] unfolding ks
    by (simp only: dec_arith [of "unat a" "unat b" "unat c"] unat_u8_less list.map)
  then show ?thesis by (rule map_unat_inject)
qed

lemma list4_cases:
  assumes "length xs = 4"
  obtains k0 k1 k2 k3 where "xs = [k0, k1, k2, k3]"
  using assms by (auto simp: numeral_eq_Suc length_Suc_conv)

lemma not_accepts_pad [simp]: "\<not> b64_accepts (CHR ''='')"
  by (simp add: b64_accepts_def)

lemma dec_loop_step4:
  assumes "k0 < 64" and "k1 < 64" and "k2 < 64" and "k3 < 64" and "mem (length dec + 3)"
  shows "dec_loop mem (4 + n)
           (b64_table ! k0 # b64_table ! k1 # b64_table ! k2 # b64_table ! k3 # s) [] dec =
         dec_loop mem n s []
           (dec @ dec_triple (of_nat k0) (of_nat k1) (of_nat k2) (of_nat k3))"
  using assms by (simp add: b64_table_nth b64_index_table numeral_eq_Suc)

lemma dec_loop_spec:
  assumes mem: "\<And>n. 0 < n \<Longrightarrow> mem n"
  shows "\<exists>tmp dec'. dec_loop mem (length (b64_spec xs)) (b64_spec xs) [] dec = Inr (Some (tmp, dec'))
           \<and> dec_rest mem tmp dec' = Some (dec @ xs)"
proof (induction xs arbitrary: dec rule: b64_spec.induct)
  case (1 a b c xs)
  obtain k0 k1 k2 k3 where k: "sextets a b c = [k0, k1, k2, k3]"
    using list4_cases [OF length_sextets] by blast
  then have less: "k0 < 64" "k1 < 64" "k2 < 64" "k3 < 64"
    using sextets_less [of _ a b c] by simp_all
  have s: "b64_spec (a # b # c # xs) =
      b64_table ! k0 # b64_table ! k1 # b64_table ! k2 # b64_table ! k3 # b64_spec xs"
    by (simp only: b64_spec.simps k list.map append.simps)
  have n: "length (b64_spec (a # b # c # xs)) = 4 + length (b64_spec xs)"
    unfolding s by simp
  obtain tmp dec' where "dec_loop mem (length (b64_spec xs)) (b64_spec xs) [] (dec @ [a, b, c])
      = Inr (Some (tmp, dec'))" and "dec_rest mem tmp dec' = Some ((dec @ [a, b, c]) @ xs)"
    using "1.IH" by blast
  moreover have "dec_loop mem (length (b64_spec (a # b # c # xs))) (b64_spec (a # b # c # xs)) [] dec =
      dec_loop mem (length (b64_spec xs)) (b64_spec xs) [] (dec @ [a, b, c])"
    unfolding n unfolding s dec_triple_sextets [OF k, symmetric]
    by (rule dec_loop_step4 [OF less]) (simp add: mem)
  ultimately show ?case by simp
next
  case (2 a b)
  obtain k0 k1 k2 k3 where k: "sextets a b 0 = [k0, k1, k2, k3]"
    using list4_cases [OF length_sextets] by blast
  then have less: "k0 < 64" "k1 < 64" "k2 < 64" "k3 < 64"
    using sextets_less [of _ a b 0] by simp_all
  have t: "dec_triple (of_nat k0) (of_nat k1) (of_nat k2) 0 = [a, b, 0]" if "k3 = 0"
    using dec_triple_sextets [OF k] that by simp
  have k3: "k3 = 0" using k by (simp add: sextets_digits)
  have s: "b64_spec [a, b] = [b64_table ! k0, b64_table ! k1, b64_table ! k2, CHR ''='']"
    by (simp add: k)
  show ?case
    unfolding s using less t [OF k3] mem
    by (simp add: b64_table_nth b64_index_table dec_rest_def numeral_eq_Suc)
next
  case (3 a)
  obtain k0 k1 k2 k3 where k: "sextets a 0 0 = [k0, k1, k2, k3]"
    using list4_cases [OF length_sextets] by blast
  then have less: "k0 < 64" "k1 < 64" "k2 < 64" "k3 < 64"
    using sextets_less [of _ a 0 0] by simp_all
  have k3: "k2 = 0" "k3 = 0" using k by (simp_all add: sextets_digits)
  have t: "dec_triple (of_nat k0) (of_nat k1) 0 0 = [a, 0, 0]"
    using dec_triple_sextets [OF k] by (simp add: k3)
  have s: "b64_spec [a] = [b64_table ! k0, b64_table ! k1, CHR ''='', CHR ''='']"
    by (simp add: k)
  show ?case
    unfolding s using less t mem
    by (simp add: b64_table_nth b64_index_table dec_rest_def numeral_eq_Suc)
next
  case 4
  show ?case by (simp add: dec_rest_def)
qed

lemma b64_decode_spec:
  assumes "\<And>n. 0 < n \<Longrightarrow> mem n"
  shows "b64_decode mem (b64_spec xs) (length (b64_spec xs)) = Inr (Some xs)"
  using dec_loop_spec [of mem xs "[]"] assms
  by (auto simp: b64_decode_def b64_decode_ex_def)

section \<open>The codec interface\<close>

text \<open>
  What the users of base64 in this program rely on: a text over the base64 alphabet, of a
  length fixed by the number of bytes, that decodes to the bytes. Two routines of the
  repository provide it: this one and the one of \<open>mongoose.c\<close>.
\<close>

locale base64_codec =
  fixes encode :: "u8 list \<Rightarrow> string"
    and decode :: "string \<Rightarrow> u8 list option"
  assumes decode_encode: "decode (encode xs) = Some xs"
    and encode_alphabet: "list_all b64_alphabet (encode xs)"
    and length_encode: "length (encode xs) = 4 * ((length xs + 2) div 3)"
begin

lemma encode_inject: "encode xs = encode ys \<longleftrightarrow> xs = ys"
  by (metis decode_encode option.inject)

lemma encode_avoids: "\<not> b64_alphabet c \<Longrightarrow> c \<notin> set (encode xs)"
  using encode_alphabet [of xs] by (auto simp: list_all_iff)

lemma encode_no_nul: "no_nul (encode xs)"
proof -
  have "\<not> b64_alphabet NUL"
    by (simp add: b64_alphabet_def c_isalnum_def c_isdigit_def char_code_def)
  then have "NUL \<notin> set (encode xs)" by (rule encode_avoids)
  then show ?thesis by (auto simp: no_nul_def list_all_iff)
qed

lemma encode_no_quote: "CHR 0x22 \<notin> set (encode xs)"
  by (rule encode_avoids) (simp add: b64_alphabet_def c_isalnum_def c_isdigit_def char_code_def)

end

text \<open>The encoder and the decoder of \<open>encode.c\<close> and \<open>decode.c\<close> when no allocation fails.\<close>

definition b64_text :: "u8 list \<Rightarrow> string" where
  "b64_text xs = (case b64_encode (\<lambda>n. 0 < n) xs of Inr (Some s) \<Rightarrow> s | _ \<Rightarrow> [])"

definition b64_bytes :: "string \<Rightarrow> u8 list option" where
  "b64_bytes s = (case b64_decode (\<lambda>n. 0 < n) s (length s) of Inr r \<Rightarrow> r | Inl _ \<Rightarrow> None)"

lemma b64_text_spec: "b64_text xs = b64_spec xs"
  by (simp add: b64_text_def b64_encode_total)

interpretation b64: base64_codec b64_text b64_bytes
proof unfold_locales
  fix xs :: "u8 list"
  show "b64_bytes (b64_text xs) = Some xs"
    by (simp add: b64_bytes_def b64_text_spec b64_decode_spec)
  show "list_all b64_alphabet (b64_text xs)"
    by (simp add: b64_text_spec b64_spec_alphabet)
  show "length (b64_text xs) = 4 * ((length xs + 2) div 3)"
    by (simp only: b64_text_spec length_b64_spec)
qed

section \<open>Failed allocations\<close>

text \<open>Every block of four characters asks for more memory: a refusal is a null write.\<close>

lemma enc_loop_fault:
  "enc_loop mem xs tmp enc = Inl e \<Longrightarrow> length tmp < 3 \<Longrightarrow> e = NullDeref"
proof (induction mem xs tmp enc rule: enc_loop.induct)
  case (2 mem c src tmp enc)
  consider "tmp = []" | t0 where "tmp = [t0]" | t0 t1 where "tmp = [t0, t1]"
    using "2.prems"(2) by (cases tmp rule: list.exhaust; cases "tl tmp"; cases "tl (tl tmp)") auto
  then show ?case using 2 by cases (auto split: if_splits)
qed simp

lemma enc_put_fault: "enc_put mem enc cs = Inl e \<Longrightarrow> e = NullDeref"
  by (induction mem enc cs rule: enc_put.induct) (auto split: if_splits)

lemma enc_loop_text:
  "enc_loop mem xs tmp enc = Inr (tmp', enc') \<Longrightarrow> length tmp < 3 \<Longrightarrow>
     (\<exists>ys. enc_loop (\<lambda>n. 0 < n) xs tmp enc = Inr (tmp', enc') \<and> length tmp' < 3)"
proof (induction mem xs tmp enc rule: enc_loop.induct)
  case (2 mem c src tmp enc)
  consider "tmp = []" | t0 where "tmp = [t0]" | t0 t1 where "tmp = [t0, t1]"
    using "2.prems"(2) by (cases tmp rule: list.exhaust; cases "tl tmp"; cases "tl (tl tmp)") auto
  then show ?case using 2 by cases (auto split: if_splits)
qed simp

lemma enc_put_text: "enc_put mem enc cs = Inr enc' \<Longrightarrow> enc' = enc @ cs"
  by (induction mem enc cs rule: enc_put.induct) (auto split: if_splits)

lemma enc_rest_text:
  "enc_rest mem tmp enc = Inr enc' \<Longrightarrow> enc_rest (\<lambda>n. 0 < n) tmp enc = Inr enc'"
  by (auto simp: enc_rest_def Let_def enc_put_total dest!: enc_put_text
      elim!: rbind_eq_InrE split: if_splits)

lemma enc_rest_fault: "enc_rest mem tmp enc = Inl e \<Longrightarrow> e = NullDeref"
  by (cases "enc_put mem enc (map b64_at (take (length tmp + 1)
         (enc_quad ((tmp @ replicate (3 - length tmp) 0) ! 0) ((tmp @ replicate (3 - length tmp) 0) ! 1)
            ((tmp @ replicate (3 - length tmp) 0) ! 2))))")
    (auto simp: enc_rest_def Let_def split: if_splits dest: enc_put_fault)

lemma b64_encode_outcomes_aux:
  "b64_encode mem xs \<in> {Inr (Some (b64_spec xs)), Inr None, Inl NullDeref}"
proof (cases "b64_encode mem xs")
  case (Inl e)
  then show ?thesis
    by (auto simp: b64_encode_def rbind_def split: if_splits sum.splits
        dest: enc_loop_fault enc_rest_fault)
next
  case (Inr r)
  then consider "r = None" | tmp enc enc' where "enc_loop mem xs [] [] = Inr (tmp, enc)"
      "enc_rest mem tmp enc = Inr enc'" "r = Some enc'"
    by (auto simp: b64_encode_def rbind_def split: if_splits sum.splits)
  then show ?thesis
  proof cases
    case 1
    then show ?thesis using Inr by simp
  next
    case 2
    then have "enc_loop (\<lambda>n. 0 < n) xs [] [] = Inr (tmp, enc)" "enc_rest (\<lambda>n. 0 < n) tmp enc = Inr enc'"
      using enc_loop_text [of mem xs "[]" "[]"] enc_rest_text by auto
    then have "enc' = b64_spec xs" using enc_loop_rest [of "\<lambda>n. 0 < n" xs "[]"] by simp
    then show ?thesis using Inr 2 by simp
  qed
qed

text \<open>
  C1. Whatever the allocator does, \<open>b64_encode\<close> either returns the base64 text of its
  input, or the null pointer, or writes through a null pointer because the result of
  \<open>b64_realloc\<close> is not checked; it never returns a truncated or altered text.
\<close>

theorem b64_encode_outcomes:
  "b64_encode mem xs \<in> {Inr (Some (b64_spec xs)), Inr None, Inl NullDeref}"
  by (rule b64_encode_outcomes_aux)



end
