(* ===== verification/MgBase64.thy ===== *)
theory MgBase64
  imports B64
begin

text \<open>
  The base64 routines of \<open>mongoose.c\<close> (part \<open>common/cs_base64.c\<close>): the streaming encoder
  (\<open>cs_base64_init\<close>, \<open>cs_base64_update\<close>, \<open>cs_base64_finish\<close>), the one-shot encoder
  (\<open>cs_base64_encode\<close>) and the decoder (\<open>cs_base64_decode\<close>). Every encoder is shown to
  compute the text of \<open>B64.b64_spec\<close>, as long as no \<open>int\<close> overflows, and the streaming
  encoder with the decoder is a second instance of \<open>base64_codec\<close>.
\<close>

section \<open>The streaming encoder\<close>

definition cs_base64_code :: "nat \<Rightarrow> char" where
  "cs_base64_code v =
     (if v < 26 then char_of (v + 65)
      else if v < 52 then char_of (v - 26 + 97)
      else if v < 62 then char_of (v - 52 + 48)
      else if v - 62 = 0 then CHR ''+'' else CHR ''/'')"

text \<open>
  \<open>struct cs_base64_ctx\<close>: the chunk, and the characters handed to \<open>b64_putc\<close> so far.
\<close>

record cs_ctx =
  cs_chunk :: "u8 list"
  cs_out :: string

definition cs_emit_code :: "cs_ctx \<Rightarrow> u8 \<Rightarrow> cs_ctx" where
  "cs_emit_code ctx v = ctx\<lparr>cs_out := cs_out ctx @ [cs_base64_code (unat v)]\<rparr>"

text \<open>
  The chunk is an array of three bytes of which \<open>n\<close> (\<open>chunk_size\<close>) are used; \<open>a\<close>, \<open>b\<close>,
  \<open>c\<close> are its contents.
\<close>

definition cs_emit_chunk :: "cs_ctx \<Rightarrow> nat \<Rightarrow> u8 \<Rightarrow> u8 \<Rightarrow> u8 \<Rightarrow> cs_ctx" where
  "cs_emit_chunk ctx n a b c =
     (let ctx = cs_emit_code ctx (drop_bit 2 a);
          ctx = cs_emit_code ctx (push_bit 4 (a AND 3) OR drop_bit 4 b);
          ctx = (if n > 1 then cs_emit_code ctx (push_bit 2 (b AND 15) OR drop_bit 6 c) else ctx)
      in if n > 2 then cs_emit_code ctx (c AND 63) else ctx)"

definition cs_base64_init :: cs_ctx where
  "cs_base64_init = \<lparr>cs_chunk = [], cs_out = []\<rparr>"

fun cs_base64_update :: "cs_ctx \<Rightarrow> u8 list \<Rightarrow> cs_ctx" where
  "cs_base64_update ctx [] = ctx"
| "cs_base64_update ctx (x # xs) =
     (case cs_chunk ctx @ [x] of
        [a, b, c] \<Rightarrow> cs_base64_update ((cs_emit_chunk ctx 3 a b c)\<lparr>cs_chunk := []\<rparr>) xs
      | ch \<Rightarrow> cs_base64_update (ctx\<lparr>cs_chunk := ch\<rparr>) xs)"

definition cs_base64_finish :: "cs_ctx \<Rightarrow> cs_ctx" where
  "cs_base64_finish ctx =
     (let n = length (cs_chunk ctx) in
      if n > 0 then
        (let ch = cs_chunk ctx @ replicate (3 - n) 0;
             ctx = cs_emit_chunk ctx n (ch ! 0) (ch ! 1) (ch ! 2)
         in ctx\<lparr>cs_out := cs_out ctx @ replicate (3 - n) (CHR ''='')\<rparr>)
      else ctx)"

section \<open>The one-shot encoder\<close>

definition cs_b64 :: string where
  "cs_b64 = ''ABCDEFGHIJKLMNOPQRSTUVWXYZabcdefghijklmnopqrstuvwxyz0123456789+/''"

text \<open>
  \<open>BASE64_ENCODE_BODY\<close>: the loop over the index \<open>i\<close>, then the padding loop, then the terminator.
  \<open>j\<close> is the length of the text so far, an \<open>int\<close> that \<open>BASE64_OUT\<close> increments; as it runs ahead of
  \<open>i\<close>, it is the first one to overflow.
\<close>

definition INT_MAX :: nat where "INT_MAX = 2 ^ 31 - 1"

definition base64_out :: "char \<Rightarrow> string \<Rightarrow> string res" where
  "base64_out ch dst = guard_res (length dst < INT_MAX) Overflow (Inr (dst @ [ch]))"

function cs_encode_loop :: "u8 list \<Rightarrow> nat \<Rightarrow> string \<Rightarrow> string res" where
  "cs_encode_loop src i dst =
     (if i < length src then
        (let a = src ! i;
             b = (if i + 1 \<ge> length src then 0 else src ! (i + 1));
             c = (if i + 2 \<ge> length src then 0 else src ! (i + 2));
             r = rbind (base64_out (cs_b64 ! unat (drop_bit 2 a)) dst)
                   (base64_out (cs_b64 ! unat (push_bit 4 (a AND 3) OR drop_bit 4 b)));
             r = (if i + 1 < length src
                  then rbind r (base64_out (cs_b64 ! unat (push_bit 2 (b AND 15) OR drop_bit 6 c))) else r);
             r = (if i + 2 < length src then rbind r (base64_out (cs_b64 ! unat (c AND 63))) else r)
         in case r of Inl e \<Rightarrow> Inl e | Inr dst \<Rightarrow> cs_encode_loop src (i + 3) dst)
      else Inr dst)"
  by pat_completeness auto
termination
  by (relation "measure (\<lambda>(src, i, dst). length src - i)") auto

declare cs_encode_loop.simps [simp del]

function cs_pad :: "string \<Rightarrow> string res" where
  "cs_pad dst =
     (if length dst mod 4 \<noteq> 0
      then (case base64_out (CHR ''='') dst of Inl e \<Rightarrow> Inl e | Inr dst' \<Rightarrow> cs_pad dst')
      else Inr dst)"
  by pat_completeness auto
termination
proof (relation "measure (\<lambda>dst. (4 - length dst mod 4) mod 4)")
  fix dst dst' :: string
  assume "length dst mod 4 \<noteq> 0" and "base64_out (CHR ''='') dst = Inr dst'"
  moreover have "length dst mod 4 < 4" by (rule mod_less_divisor) simp
  ultimately have "length dst' = Suc (length dst)" "length dst mod 4 = 1 \<or> length dst mod 4 = 2 \<or> length dst mod 4 = 3"
    by (auto simp: base64_out_def guard_res_eq_Inr_iff)
  then show "(dst', dst) \<in> measure (\<lambda>dst. (4 - length dst mod 4) mod 4)"
    by (auto simp: mod_Suc)
qed simp

declare cs_pad.simps [simp del]

text \<open>The text without its terminator.\<close>

definition cs_base64_encode :: "u8 list \<Rightarrow> string res" where
  "cs_base64_encode src =
     rbind (cs_encode_loop src 0 []) (\<lambda>dst. rbind (cs_pad dst) (\<lambda>dst. rbind (base64_out NUL dst) (\<lambda>_. Inr dst)))"

section \<open>The decoder\<close>

definition from_b64_tab :: "u8 list" where
  "from_b64_tab =
     replicate 43 255 @ [62, 255, 255, 255, 63,
      52, 53, 54, 55, 56, 57, 58, 59, 60, 61, 255, 255, 255, 200, 255, 255, 255,
      0, 1, 2, 3, 4, 5, 6, 7, 8, 9, 10, 11, 12, 13, 14, 15, 16, 17, 18, 19, 20, 21, 22, 23, 24, 25,
      255, 255, 255, 255, 255, 255,
      26, 27, 28, 29, 30, 31, 32, 33, 34, 35, 36, 37, 38, 39, 40, 41, 42, 43, 44, 45, 46, 47, 48,
      49, 50, 51, 255, 255, 255, 255, 255]"

definition from_b64 :: "char \<Rightarrow> u8" where
  "from_b64 ch = from_b64_tab ! (char_code ch AND 127)"

text \<open>The loop: the bytes written so far and the input that is left (\<open>len\<close> is its length).\<close>

fun cs_decode_loop :: "string \<Rightarrow> u8 list \<Rightarrow> u8 list \<times> string" where
  "cs_decode_loop (s0 # s1 # s2 # s3 # s) dst =
     (let a = from_b64 s0; b = from_b64 s1; c = from_b64 s2; d = from_b64 s3 in
      if a = 255 \<or> b = 255 \<or> c = 255 \<or> d = 255 then (dst, s0 # s1 # s2 # s3 # s)
      else if a = 200 \<or> b = 200 then (dst, s)
      else (let dst = dst @ [push_bit 2 a OR drop_bit 4 b] in
            if c = 200 then (dst, s)
            else (let dst = dst @ [push_bit 4 b OR drop_bit 2 c] in
                  if d = 200 then (dst, s)
                  else cs_decode_loop s (dst @ [push_bit 6 c OR d]))))"
| "cs_decode_loop s dst = (dst, s)"

text \<open>The decoded bytes (\<open>dec_len\<close> of them) and the number of characters consumed.\<close>

definition cs_base64_decode :: "string \<Rightarrow> u8 list \<times> nat" where
  "cs_base64_decode s = (let (dst, rest) = cs_decode_loop s [] in (dst, length s - length rest))"

section \<open>The quartets of the three encoders agree\<close>

lemma plus_or_disjoint: "(x :: u8) AND y = 0 \<Longrightarrow> x OR y = x + y"
  by (rule disjunctive_add [symmetric]) (metis bit_and_iff bit_0_eq bot_apply bot_bool_def)

lemma push_drop_disjoint:
  "push_bit 4 (take_bit 2 (x :: u8)) AND drop_bit 4 y = 0"
  "push_bit 2 (take_bit 4 (x :: u8)) AND drop_bit 6 y = 0"
  by (rule bit_eqI; auto simp: bit_simps dest: bit_imp_le_length)+

lemma cs_quad:
  "[drop_bit 2 a, push_bit 4 (a AND 3) OR drop_bit 4 b,
    push_bit 2 (b AND 15) OR drop_bit 6 c, c AND 63] = enc_quad a b c"
proof -
  have "take_bit 6 (drop_bit 2 a) = drop_bit 2 a" "take_bit 4 (drop_bit 4 b) = drop_bit 4 b"
    "take_bit 2 (drop_bit 6 c) = drop_bit 6 c"
    by (rule bit_eqI; auto simp: bit_simps dest: bit_imp_le_length)+
  then show ?thesis
    unfolding enc_quad_drop and_low_mask [symmetric]
    using push_drop_disjoint [of a b] push_drop_disjoint [of b c]
    by (simp add: and_low_mask plus_or_disjoint)
qed

lemma cs_base64_code_table: "v < 64 \<Longrightarrow> cs_base64_code v = b64_table ! v"
proof -
  have "list_all (\<lambda>v. cs_base64_code v = b64_table ! v) [0..<64]" by code_simp
  then show "v < 64 \<Longrightarrow> ?thesis" by (simp add: list_all_iff)
qed

lemma map_code_quad:
  "map (\<lambda>q. cs_base64_code (unat q)) (take n (enc_quad a b c)) =
     map (\<lambda>k. b64_table ! k) (take n (sextets a b c))"
proof -
  have "map (\<lambda>q. cs_base64_code (unat q)) (take n (enc_quad a b c)) =
      map cs_base64_code (take n (sextets a b c))"
    by (simp add: enc_quad_sextets [symmetric] take_map)
  also have "\<dots> = map (\<lambda>k. b64_table ! k) (take n (sextets a b c))"
    by (auto intro!: cs_base64_code_table sextets_less dest: in_set_takeD)
  finally show ?thesis .
qed

lemma cs_emit_chunk_out:
  assumes "n = 1 \<or> n = 2 \<or> n = 3"
  shows "cs_emit_chunk ctx n a b c =
    ctx\<lparr>cs_out := cs_out ctx @ map (\<lambda>k. b64_table ! k) (take (n + 1) (sextets a b c))\<rparr>"
  unfolding map_code_quad [symmetric] cs_quad [symmetric]
  using assms by (auto simp: cs_emit_chunk_def cs_emit_code_def Let_def)

section \<open>The streaming encoder computes the reference\<close>

lemma cs_update_append:
  "cs_base64_update ctx (xs @ ys) = cs_base64_update (cs_base64_update ctx xs) ys"
  by (induction ctx xs rule: cs_base64_update.induct) (auto split: list.splits)

lemma take_4_sextets [simp]: "take 4 (sextets a b c) = sextets a b c"
  by simp

lemma cs_stream_spec:
  "cs_out (cs_base64_finish (cs_base64_update \<lparr>cs_chunk = [], cs_out = out\<rparr> xs)) = out @ b64_spec xs"
proof (induction xs arbitrary: out rule: b64_spec.induct)
  case (1 a b c xs)
  then show ?case by (simp add: cs_emit_chunk_out)
next
  case (2 a b)
  show ?case by (simp add: cs_base64_finish_def Let_def cs_emit_chunk_out numeral_eq_Suc)
next
  case (3 a)
  show ?case by (simp add: cs_base64_finish_def Let_def cs_emit_chunk_out numeral_eq_Suc)
next
  case 4
  show ?case by (simp add: cs_base64_finish_def)
qed

section \<open>The one-shot encoder computes the reference\<close>

fun b64_body :: "u8 list \<Rightarrow> string" where
  "b64_body (a # b # c # xs) = map (\<lambda>k. b64_table ! k) (sextets a b c) @ b64_body xs"
| "b64_body [a, b] = map (\<lambda>k. b64_table ! k) (take 3 (sextets a b 0))"
| "b64_body [a] = map (\<lambda>k. b64_table ! k) (take 2 (sextets a 0 0))"
| "b64_body [] = []"

lemma cs_b64_nth: "map (\<lambda>q. cs_b64 ! unat q) (take n (enc_quad a b c)) =
    map (\<lambda>k. b64_table ! k) (take n (sextets a b c))"
proof -
  have "cs_b64 = b64_table" by (simp add: cs_b64_def b64_table_def)
  then show ?thesis by (simp add: enc_quad_sextets [symmetric] take_map)
qed

lemmas cs_quads = cs_b64_nth [of 4, unfolded cs_quad [symmetric]]
  cs_b64_nth [of 3, unfolded cs_quad [symmetric]] cs_b64_nth [of 2, unfolded cs_quad [symmetric]]

text \<open>Characters that are written one after the other: all of them, or the counter overflows.\<close>

definition put_text :: "string \<Rightarrow> string \<Rightarrow> string res" where
  "put_text t dst = (if length dst + length t \<le> INT_MAX then Inr (dst @ t) else Inl Overflow)"

lemma base64_out_put: "length dst \<le> INT_MAX \<Longrightarrow> base64_out c dst = put_text [c] dst"
  by (simp add: base64_out_def put_text_def guard_res_def)

lemma put_text_put: "rbind (put_text t dst) (put_text u) = put_text (t @ u) dst"
  by (simp add: put_text_def rbind_def)

lemma put_text_out: "rbind (put_text t dst) (base64_out c) = put_text (t @ [c]) dst"
  by (auto simp: put_text_def rbind_def base64_out_def guard_res_def)

lemma cs_encode_loop_body:
  "length dst \<le> INT_MAX \<Longrightarrow> cs_encode_loop (pre @ ys) (length pre) dst = put_text (b64_body ys) dst"
proof (induction ys arbitrary: pre dst rule: b64_body.induct)
  case (1 a b c xs)
  have IH: "length d \<le> INT_MAX \<Longrightarrow> cs_encode_loop (pre @ a # b # c # xs) (length pre + 3) d = put_text (b64_body xs) d" for d
    using "1.IH" [of d "pre @ [a, b, c]"] by (simp add: eval_nat_numeral)
  have go: "(case put_text t dst of Inl e \<Rightarrow> Inl e | Inr d \<Rightarrow> cs_encode_loop (pre @ a # b # c # xs) (length pre + 3) d)
      = put_text (t @ b64_body xs) dst" for t
    using "1.prems" by (auto simp: put_text_def IH)
  show ?case
    by (subst cs_encode_loop.simps)
      (use cs_quads(1) [of a b c, symmetric] "1.prems" in \<open>simp add: Let_def nth_append base64_out_put put_text_out go\<close>)
next
  case (2 a b)
  have "cs_encode_loop (pre @ [a, b]) (Suc (Suc (Suc (length pre)))) d = Inr d" for d
    by (subst cs_encode_loop.simps) simp
  then have go: "(case put_text t dst of Inl e \<Rightarrow> Inl e | Inr d \<Rightarrow> cs_encode_loop (pre @ [a, b]) (Suc (Suc (Suc (length pre)))) d) = put_text t dst" for t
    by (simp add: put_text_def)
  show ?case
    by (subst cs_encode_loop.simps)
      (use cs_quads(2) [of a b 0, symmetric] "2.prems" in \<open>simp add: Let_def nth_append base64_out_put put_text_out go numeral_eq_Suc\<close>)
next
  case (3 a)
  have "cs_encode_loop (pre @ [a]) (Suc (Suc (Suc (length pre)))) d = Inr d" for d
    by (subst cs_encode_loop.simps) simp
  then have go: "(case put_text t dst of Inl e \<Rightarrow> Inl e | Inr d \<Rightarrow> cs_encode_loop (pre @ [a]) (Suc (Suc (Suc (length pre)))) d) = put_text t dst" for t
    by (simp add: put_text_def)
  show ?case
    by (subst cs_encode_loop.simps)
      (use cs_quads(3) [of a 0 0, symmetric] "3.prems" in \<open>simp add: Let_def nth_append base64_out_put put_text_out go numeral_eq_Suc\<close>)
next
  case 4
  then show ?case by (subst cs_encode_loop.simps) (simp add: put_text_def)
qed

lemma b64_spec_body: "\<exists>j < 4. b64_spec xs = b64_body xs @ replicate j (CHR ''='')"
proof (induction xs rule: b64_body.induct)
  case (2 a b)
  show ?case by (rule exI [of _ 1]) simp
next
  case (3 a)
  show ?case by (rule exI [of _ 2]) (simp add: numeral_2_eq_2)
qed simp_all

lemma cs_pad_replicate:
  "length d + j = 4 * k \<Longrightarrow> j < 4 \<Longrightarrow> length d \<le> INT_MAX \<Longrightarrow> cs_pad d = put_text (replicate j (CHR ''='')) d"
proof (induction j arbitrary: d)
  case 0
  then have "length d mod 4 = 0" by simp
  then show ?case using "0.prems"(3) by (subst cs_pad.simps) (simp add: put_text_def)
next
  case (Suc j)
  have "\<not> 4 dvd length d"
  proof
    assume "4 dvd length d"
    moreover have "4 dvd length d + Suc j" by (simp only: Suc.prems(1) dvd_triv_left)
    ultimately have "4 dvd Suc j" by (simp only: dvd_add_right_iff)
    then show False using Suc.prems(2) by (meson dvd_imp_le leD zero_less_Suc)
  qed
  then have "length d mod 4 \<noteq> 0" by (simp only: dvd_eq_mod_eq_0 not_False_eq_True)
  moreover have "length d < INT_MAX \<Longrightarrow> cs_pad (d @ ''='') = put_text (replicate j (CHR ''='')) (d @ ''='')"
    by (rule Suc.IH) (use Suc.prems in simp_all)
  ultimately show ?case by (subst cs_pad.simps) (auto simp: base64_out_def guard_res_def put_text_def)
qed

lemma cs_pad_body: "rbind (put_text (b64_body xs) []) cs_pad = put_text (b64_spec xs) []"
proof -
  obtain j where j: "j < 4" "b64_spec xs = b64_body xs @ replicate j (CHR ''='')"
    using b64_spec_body by blast
  have "length (b64_spec xs) = 4 * ((length xs + 2) div 3)" by (rule length_b64_spec)
  then have "length (b64_body xs) + j = 4 * ((length xs + 2) div 3)" using j(2) by simp
  from cs_pad_replicate [OF this j(1)] show ?thesis
    using put_text_put [of "b64_body xs" "[]" "replicate j (CHR ''='')"] by (auto simp: put_text_def j(2))
qed

section \<open>Decoding\<close>

lemma and_127: "(n :: nat) AND 127 = n mod 128"
proof -
  have "(127 :: nat) = mask 7" by (simp add: mask_eq_exp_minus_1)
  then show ?thesis by (simp only: take_bit_eq_mask [symmetric] take_bit_eq_mod) simp
qed

lemma from_b64_mod: "from_b64 ch = from_b64_tab ! (char_code ch mod 128)"
  unfolding from_b64_def and_127 ..

lemma from_b64_table: "k < 64 \<Longrightarrow> from_b64 (b64_table ! k) = of_nat k"
proof -
  have "map (\<lambda>c. from_b64_tab ! (char_code c mod 128)) b64_table = map of_nat [0..<64]"
    unfolding b64_table_def from_b64_tab_def char_code_def by (simp add: upt_rec nth_append)
  then have "map (\<lambda>c. from_b64_tab ! (char_code c mod 128)) b64_table ! k = map of_nat [0..<64] ! k"
    by (rule arg_cong)
  then show "k < 64 \<Longrightarrow> ?thesis" by (simp add: from_b64_mod)
qed

lemma from_b64_pad: "from_b64 (CHR ''='') = 200"
  unfolding from_b64_mod by code_simp

lemma small_index:
  assumes "k < 64"
  shows "take_bit 6 (of_nat k :: u8) = of_nat k"
    and "(of_nat k :: u8) \<noteq> 255" and "(of_nat k :: u8) \<noteq> 200"
proof -
  have u: "unat (of_nat k :: u8) = k" using assms by (rule unat_of_nat_64)
  show "take_bit 6 (of_nat k :: u8) = of_nat k"
    unfolding word_unat_eq_iff unat_take_bit_u8 u using assms by simp
  show "(of_nat k :: u8) \<noteq> 255" using u assms by force
  show "(of_nat k :: u8) \<noteq> 200" using u assms by force
qed

lemma cs_triple:
  assumes "take_bit 6 q1 = (q1 :: u8)" and "take_bit 6 q2 = q2" and "take_bit 6 q3 = q3"
  shows "push_bit 2 q0 OR drop_bit 4 q1 = dec_triple q0 q1 q2 q3 ! 0"
    and "push_bit 4 q1 OR drop_bit 2 q2 = dec_triple q0 q1 q2 q3 ! 1"
    and "push_bit 6 q2 OR q3 = dec_triple q0 q1 q2 q3 ! 2"
proof -
  have b: "bit q n \<Longrightarrow> n < 6" if "take_bit 6 q = q" for q :: u8 and n
    using that by (metis bit_take_bit_iff)
  have "push_bit 2 q0 AND take_bit 2 (drop_bit 4 q1) = 0"
    by (rule bit_eqI) (auto simp: bit_simps)
  moreover have "take_bit 2 (drop_bit 4 q1) = drop_bit 4 q1"
    by (rule bit_eqI) (use b [OF assms(1)] in \<open>force simp: bit_simps\<close>)
  ultimately show "push_bit 2 q0 OR drop_bit 4 q1 = dec_triple q0 q1 q2 q3 ! 0"
    by (simp add: dec_triple_drop plus_or_disjoint [symmetric])
  have "push_bit 4 (take_bit 4 q1) AND take_bit 4 (drop_bit 2 q2) = 0"
    by (rule bit_eqI) (auto simp: bit_simps)
  moreover have "take_bit 4 (drop_bit 2 q2) = drop_bit 2 q2"
    by (rule bit_eqI) (use b [OF assms(2)] in \<open>force simp: bit_simps\<close>)
  moreover have "push_bit 4 (take_bit 4 q1) = push_bit 4 q1"
    by (rule bit_eqI) (auto simp: bit_simps)
  ultimately show "push_bit 4 q1 OR drop_bit 2 q2 = dec_triple q0 q1 q2 q3 ! 1"
    by (simp add: dec_triple_drop plus_or_disjoint [symmetric])
  have "push_bit 6 (take_bit 2 q2) AND q3 = 0"
    by (rule bit_eqI) (use b [OF assms(3)] in \<open>force simp: bit_simps\<close>)
  moreover have "push_bit 6 (take_bit 2 q2) = push_bit 6 q2"
    by (rule bit_eqI) (auto simp: bit_simps)
  ultimately show "push_bit 6 q2 OR q3 = dec_triple q0 q1 q2 q3 ! 2"
    by (simp add: dec_triple_drop plus_or_disjoint [symmetric])
qed

lemma cs_decode_step4:
  assumes less: "k0 < 64" "k1 < 64" "k2 < 64" "k3 < 64" and k: "sextets a b c = [k0, k1, k2, k3]"
  shows "cs_decode_loop (b64_table ! k0 # b64_table ! k1 # b64_table ! k2 # b64_table ! k3 # s) dst
     = cs_decode_loop s (dst @ [a, b, c])"
    and "cs_decode_loop (b64_table ! k0 # b64_table ! k1 # b64_table ! k2 # CHR ''='' # s) dst
     = (dst @ [a, b], s)"
    and "cs_decode_loop (b64_table ! k0 # b64_table ! k1 # CHR ''='' # CHR ''='' # s) dst
     = (dst @ [a], s)"
proof -
  note t = cs_triple [OF small_index(1) [OF less(2)] small_index(1) [OF less(3)]
      small_index(1) [OF less(4)], of "of_nat k0", unfolded dec_triple_sextets [OF k]]
  have c: "from_b64 (b64_table ! k0) = of_nat k0" "from_b64 (b64_table ! k1) = of_nat k1"
    "from_b64 (b64_table ! k2) = of_nat k2" "from_b64 (b64_table ! k3) = of_nat k3"
    using less by (simp_all add: from_b64_table)
  note n = less [THEN small_index(2)] less [THEN small_index(3)]
  show "cs_decode_loop (b64_table ! k0 # b64_table ! k1 # b64_table ! k2 # b64_table ! k3 # s) dst
      = cs_decode_loop s (dst @ [a, b, c])"
    using n t by (simp add: c Let_def)
  show "cs_decode_loop (b64_table ! k0 # b64_table ! k1 # b64_table ! k2 # CHR ''='' # s) dst
      = (dst @ [a, b], s)"
    using n t by (simp add: c Let_def from_b64_pad)
  show "cs_decode_loop (b64_table ! k0 # b64_table ! k1 # CHR ''='' # CHR ''='' # s) dst
      = (dst @ [a], s)"
    using n t by (simp add: c Let_def from_b64_pad)
qed

lemma sextets_cases:
  obtains k0 k1 k2 k3 where "sextets a b c = [k0, k1, k2, k3]"
    "k0 < 64" "k1 < 64" "k2 < 64" "k3 < 64"
proof -
  obtain k0 k1 k2 k3 where k: "sextets a b c = [k0, k1, k2, k3]"
    using list4_cases [OF length_sextets] by blast
  moreover have "k0 < 64" "k1 < 64" "k2 < 64" "k3 < 64"
    using sextets_less [of _ a b c] unfolding k by simp_all
  ultimately show thesis by (rule that)
qed

lemma cs_decode_loop_spec: "cs_decode_loop (b64_spec xs) dst = (dst @ xs, [])"
proof (induction xs arbitrary: dst rule: b64_spec.induct)
  case (1 a b c xs)
  obtain k0 k1 k2 k3 where k: "sextets a b c = [k0, k1, k2, k3]"
    "k0 < 64" "k1 < 64" "k2 < 64" "k3 < 64" by (rule sextets_cases)
  with "1.IH" cs_decode_step4(1) [OF k(2-5) k(1)] show ?case by simp
next
  case (2 a b)
  obtain k0 k1 k2 k3 where k: "sextets a b 0 = [k0, k1, k2, k3]"
    "k0 < 64" "k1 < 64" "k2 < 64" "k3 < 64" by (rule sextets_cases)
  with cs_decode_step4(2) [OF k(2-5) k(1), of "[]"] show ?case by (simp del: cs_decode_loop.simps)
next
  case (3 a)
  obtain k0 k1 k2 k3 where k: "sextets a 0 0 = [k0, k1, k2, k3]"
    "k0 < 64" "k1 < 64" "k2 < 64" "k3 < 64" by (rule sextets_cases)
  with cs_decode_step4(3) [OF k(2-5) k(1), of "[]"] show ?case by (simp del: cs_decode_loop.simps)
qed simp

section \<open>Properties\<close>

lemma cs_base64_encode_spec:
  "cs_base64_encode xs = (if length (b64_spec xs) < INT_MAX then Inr (b64_spec xs) else Inl Overflow)"
proof -
  have "cs_encode_loop xs 0 [] = put_text (b64_body xs) []"
    using cs_encode_loop_body [of "[]" "[]" xs] by simp
  then have "cs_base64_encode xs = rbind (put_text (b64_spec xs) []) (\<lambda>dst. rbind (base64_out NUL dst) (\<lambda>_. Inr dst))"
    by (simp add: cs_base64_encode_def cs_pad_body [symmetric] rbind_assoc)
  then show ?thesis by (simp add: put_text_def base64_out_def guard_res_def)
qed

text \<open>The streaming encoder fed with one piece.\<close>

definition cs_stream :: "u8 list \<Rightarrow> string" where
  "cs_stream xs = cs_out (cs_base64_finish (cs_base64_update cs_base64_init xs))"

lemma cs_stream_eq: "cs_stream xs = b64_spec xs"
  using cs_stream_spec [of "[]" xs] by (simp add: cs_stream_def cs_base64_init_def)

interpretation cs: base64_codec cs_stream
  "\<lambda>s. if snd (cs_base64_decode s) = length s then Some (fst (cs_base64_decode s)) else None"
proof unfold_locales
  fix xs :: "u8 list"
  show "(if snd (cs_base64_decode (cs_stream xs)) = length (cs_stream xs)
         then Some (fst (cs_base64_decode (cs_stream xs))) else None) = Some xs"
    by (simp add: cs_base64_decode_def cs_stream_eq cs_decode_loop_spec)
  show "list_all b64_alphabet (cs_stream xs)"
    by (simp add: cs_stream_eq b64_spec_alphabet)
  show "length (cs_stream xs) = 4 * ((length xs + 2) div 3)"
    by (simp only: cs_stream_eq length_b64_spec)
qed


definition top_bit :: "char \<Rightarrow> char" where
  "top_bit c = char_of (char_code c OR 128)"

lemma from_b64_top_bit: "from_b64 (top_bit c) = from_b64 c"
proof -
  have "char_code (top_bit c) = take_bit 8 (char_code c OR 128)"
    by (simp add: char_code_def top_bit_def take_bit_eq_mod)
  moreover have "take_bit 8 (char_code c OR 128) AND mask 7 = char_code c AND mask 7"
  proof (rule bit_eqI)
    fix n
    have "bit (128 :: nat) n \<longleftrightarrow> n = 7" using bit_exp_iff [of 7 n, where 'a = nat] by simp
    then show "bit (take_bit 8 (char_code c OR 128) AND mask 7) n \<longleftrightarrow> bit (char_code c AND mask 7) n"
      by (auto simp: bit_simps)
  qed
  moreover have "mask 7 = (127 :: nat)" by (simp add: mask_eq_exp_minus_1)
  ultimately show ?thesis by (simp add: from_b64_def)
qed

lemma cs_decode_loop_short: "length s < 4 \<Longrightarrow> cs_decode_loop s dst = (dst, s)"
  by (cases "(s, dst)" rule: cs_decode_loop.cases) auto

lemma cs_decode_loop_top_bit:
  "length s = length fs \<Longrightarrow>
   map_prod id length (cs_decode_loop (map2 (\<lambda>f c. if f then top_bit c else c) fs s) dst)
     = map_prod id length (cs_decode_loop s dst)"
proof (induction s dst arbitrary: fs rule: cs_decode_loop.induct)
  case (1 s0 s1 s2 s3 s dst)
  have t: "from_b64 (if f then top_bit c else c) = from_b64 c" for f c
    by (simp add: from_b64_top_bit)
  obtain f0 f1 f2 f3 fs' where fs: "fs = f0 # f1 # f2 # f3 # fs'" and l: "length s = length fs'"
    using "1.prems" by (auto simp: Suc_length_conv length_Suc_conv)
  then show ?case
    using "1.IH" by (auto simp: t Let_def from_b64_top_bit)
qed (simp_all add: cs_decode_loop_short)

text \<open>
  \<open>cs_base64_decode\<close> undoes \<open>cs_base64_encode\<close> and consumes the whole text; but it masks
  every character with 127 first, so the same text with the top bit of any character set
  is accepted as well and decodes to the same bytes.
\<close>

theorem cs_base64_decode_top_bit:
  assumes "cs_base64_encode xs = Inr t" and "length fs = length t"
  shows "cs_base64_decode (map2 (\<lambda>f c. if f then top_bit c else c) fs t) = (xs, length t)"
proof -
  have t: "t = b64_spec xs" using assms(1) by (simp add: cs_base64_encode_spec split: if_splits)
  have "map_prod id length (cs_decode_loop (map2 (\<lambda>f c. if f then top_bit c else c) fs (b64_spec xs)) [])
      = (xs, 0)"
    using cs_decode_loop_top_bit [of "b64_spec xs" fs "[]"] assms(2) t
    by (simp add: cs_decode_loop_spec)
  then show ?thesis
    using assms(2) t
    by (auto simp: cs_base64_decode_def map_prod_def split: prod.splits)
qed

theorem cs_base64_decode_top_bit_witness:
  "cs_base64_encode [1, 2, 255] = Inr ''AQL/''
   \<and> cs_base64_decode (map2 (\<lambda>f c. if f then top_bit c else c) [True, False, False, True] ''AQL/'') = ([1, 2, 255], 4)"
proof -
  have t: "cs_base64_encode [1, 2, 255] = Inr ''AQL/''"
    by (simp add: cs_base64_encode_spec INT_MAX_def sextets_def b64_table_def)
  show ?thesis using t cs_base64_decode_top_bit [OF t, of "[True, False, False, True]"] by simp
qed

end
