(* ===== verification/CFormat.thy ===== *)
theory CFormat
  imports Prelude
begin

text \<open>
  The part of C's \<open>printf\<close> family that the sources use: a format string is interpreted
  against a list of arguments. A directive without an argument, with an argument of
  another kind or that is not supported is undefined behaviour. \<open>dbl\<close> is the text that
  \<open>%lf\<close> prints for a double, given by its bit pattern; it is a parameter everywhere.
\<close>

datatype carg = AInt int | AUInt nat | ADouble u64 | AStr string

datatype conv = CPercent | CSigned | CUnsigned | CFloat | CString

definition conv_of :: "string \<Rightarrow> (conv \<times> nat) option" where
  "conv_of f =
     (if take 1 f = ''%'' then Some (CPercent, 1)
      else if take 1 f = ''d'' then Some (CSigned, 1)
      else if take 1 f = ''u'' then Some (CUnsigned, 1)
      else if take 1 f = ''s'' then Some (CString, 1)
      else if take 2 f = ''lf'' then Some (CFloat, 2)
      else if take 3 f = ''lld'' then Some (CSigned, 3)
      else if take 3 f = ''llu'' then Some (CUnsigned, 3)
      else None)"

fun conv_print :: "(u64 \<Rightarrow> string) \<Rightarrow> conv \<Rightarrow> carg list \<Rightarrow> (string \<times> carg list) option" where
  "conv_print dbl CPercent args = Some (''%'', args)"
| "conv_print dbl CSigned (AInt i # args) = Some (show_int i, args)"
| "conv_print dbl CUnsigned (AUInt n # args) = Some (show_nat n, args)"
| "conv_print dbl CFloat (ADouble d # args) = Some (dbl d, args)"
| "conv_print dbl CString (AStr s # args) = Some (s, args)"
| "conv_print dbl _ _ = None"

fun cfmt :: "(u64 \<Rightarrow> string) \<Rightarrow> string \<Rightarrow> carg list \<Rightarrow> string res" where
  "cfmt dbl [] args = Inr []"
| "cfmt dbl (c # f) args =
     (if c \<noteq> CHR ''%'' then rbind (cfmt dbl f args) (\<lambda>s. Inr (c # s))
      else (case conv_of f of None \<Rightarrow> Inl Uninit
            | Some (k, n) \<Rightarrow>
                (case conv_print dbl k args of None \<Rightarrow> Inl Uninit
                 | Some (t, args') \<Rightarrow> rbind (cfmt dbl (drop n f) args') (\<lambda>s. Inr (t @ s)))))"

lemma cfmt_literal:
  "CHR ''%'' \<notin> set pre \<Longrightarrow> cfmt dbl (pre @ f) args = rbind (cfmt dbl f args) (\<lambda>s. Inr (pre @ s))"
  by (induction pre) (auto simp: rbind_def split: sum.splits)

lemma cfmt_plain [simp]: "CHR ''%'' \<notin> set f \<Longrightarrow> cfmt dbl f args = Inr f"
  by (induction f) auto

lemma conv_of_simps [simp]:
  "conv_of (CHR ''d'' # f) = Some (CSigned, 1)"
  "conv_of (CHR ''s'' # f) = Some (CString, 1)"
  "conv_of (CHR ''u'' # f) = Some (CUnsigned, 1)"
  "conv_of (CHR ''%'' # f) = Some (CPercent, 1)"
  "conv_of (CHR ''l'' # CHR ''f'' # f) = Some (CFloat, 2)"
  "conv_of (CHR ''l'' # CHR ''l'' # CHR ''d'' # f) = Some (CSigned, 3)"
  "conv_of (CHR ''l'' # CHR ''l'' # CHR ''u'' # f) = Some (CUnsigned, 3)"
  by (simp_all add: conv_of_def)

text \<open>
  The formats of the data set attributes have one directive, with literal text on both sides.
\<close>

lemma cfmt_one:
  assumes "CHR ''%'' \<notin> set pre" and "CHR ''%'' \<notin> set post"
  shows "cfmt dbl (pre @ ''%d'' @ post) [AInt i] = Inr (pre @ show_int i @ post)"
    and "cfmt dbl (pre @ ''%lld'' @ post) [AInt i] = Inr (pre @ show_int i @ post)"
    and "cfmt dbl (pre @ ''%lf'' @ post) [ADouble d] = Inr (pre @ dbl d @ post)"
    and "cfmt dbl (pre @ ''%s'' @ post) [AStr s] = Inr (pre @ s @ post)"
  using assms by (simp_all add: cfmt_literal)

section \<open>Bounded output into a buffer\<close>

text \<open>
  \<open>snprintf (buf, cap, fmt, args)\<close> on a buffer of \<open>cap\<close> bytes that holds the string
  \<open>old\<close>: nothing is written when \<open>cap\<close> is 0.
\<close>

definition c_snprintf_to :: "(u64 \<Rightarrow> string) \<Rightarrow> nat \<Rightarrow> string \<Rightarrow> string \<Rightarrow> carg list \<Rightarrow> string res" where
  "c_snprintf_to dbl cap old f args =
     rbind (cfmt dbl f args) (\<lambda>s. Inr (if cap = 0 then old else sn_store cap s))"

lemma c_snprintf_to_length:
  "c_snprintf_to dbl cap old f args = Inr s \<Longrightarrow> 0 < cap \<Longrightarrow> length s < cap"
  by (auto simp: c_snprintf_to_def rbind_eq_Inr_iff length_sn_store)

section \<open>Reading numbers from memory\<close>

fun bytes_le :: "u8 list \<Rightarrow> nat" where
  "bytes_le [] = 0"
| "bytes_le (b # bs) = unat b + 256 * bytes_le bs"

text \<open>
  A load of \<open>n\<close> bytes at a pointer to the memory \<open>m\<close>, on a little- or big-endian machine.
\<close>

definition load_bytes :: "bool \<Rightarrow> nat \<Rightarrow> u8 list \<Rightarrow> nat res" where
  "load_bytes le n m =
     (if length m < n then Inl OutOfBounds
      else Inr (bytes_le (if le then take n m else rev (take n m))))"

text \<open>The string at a pointer to the memory \<open>m\<close>: it must end inside the object.\<close>

definition load_cstr :: "u8 list \<Rightarrow> string res" where
  "load_cstr m =
     (if 0 \<in> set m then Inr (map (\<lambda>b. char_of (unat b)) (takeWhile (\<lambda>b. b \<noteq> 0) m))
      else Inl OutOfBounds)"

lemma bytes_le_less: "bytes_le bs < 256 ^ length bs"
proof (induction bs)
  case (Cons b bs)
  have "unat b < 256" using unsigned_less [of b] by simp
  with Cons.IH show ?case by simp
qed simp


text \<open>The bytes of a number in memory.\<close>

fun bytes_of :: "nat \<Rightarrow> nat \<Rightarrow> u8 list" where
  "bytes_of 0 n = []"
| "bytes_of (Suc k) n = of_nat n # bytes_of k (n div 256)"

definition mem_bytes :: "bool \<Rightarrow> nat \<Rightarrow> nat \<Rightarrow> u8 list" where
  "mem_bytes le k n = (if le then bytes_of k n else rev (bytes_of k n))"

lemma length_bytes_of [simp]: "length (bytes_of k n) = k"
  by (induction k arbitrary: n) simp_all

lemma bytes_le_bytes_of: "n < 256 ^ k \<Longrightarrow> bytes_le (bytes_of k n) = n"
proof (induction k arbitrary: n)
  case (Suc k)
  have "unat (of_nat n :: u8) = n mod 256"
    by (simp add: unat_of_nat take_bit_eq_mod)
  moreover have "bytes_le (bytes_of k (n div 256)) = n div 256"
    using Suc.prems by (intro Suc.IH) (simp add: less_mult_imp_div_less mult.commute)
  ultimately show ?case by simp
qed simp

lemma load_mem_bytes: "n < 256 ^ k \<Longrightarrow> load_bytes le k (mem_bytes le k n @ rest) = Inr n"
  by (simp add: load_bytes_def mem_bytes_def bytes_le_bytes_of)

lemma load_mem_word:
  fixes w :: "'a :: len word"
  assumes "LENGTH('a) = 8 * k"
  shows "load_bytes le k (mem_bytes le k (unat w) @ rest) = Inr (unat w)"
proof (rule load_mem_bytes)
  have "unat w < 2 ^ LENGTH('a)" by (rule unsigned_less)
  then show "unat w < 256 ^ k" by (simp add: assms power_mult)
qed

lemma char_of_unat: "(\<lambda>c. char_of (unat (of_nat (char_code c) :: u8))) = (\<lambda>c. c)"
proof
  fix c
  have "unat (of_nat (char_code c) :: u8) = char_code c"
    using char_code_less [of c] by (simp add: unat_of_nat take_bit_nat_eq_self)
  then show "char_of (unat (of_nat (char_code c) :: u8)) = c" by (simp add: char_code_def)
qed

definition str_bytes :: "string \<Rightarrow> u8 list" where
  "str_bytes s = map (\<lambda>c. of_nat (char_code c)) s @ [0]"

lemma of_nat_char_code_0: "(of_nat (char_code c) :: u8) = 0 \<longleftrightarrow> c = NUL"
proof -
  have "(of_nat (char_code c) :: u8) = 0 \<longleftrightarrow> char_code c = 0"
    using char_code_less [of c] by (simp add: unat_eq_0 [symmetric] unat_of_nat take_bit_nat_eq_self del: unat_eq_0)
  moreover have "char_code NUL = 0" by (simp add: char_code_def)
  ultimately show ?thesis by (metis char_code_inject)
qed

lemma load_str_bytes: "no_nul s \<Longrightarrow> load_cstr (str_bytes s @ rest) = Inr s"
proof -
  assume s: "no_nul s"
  let ?bs = "map (\<lambda>c. of_nat (char_code c) :: u8) s"
  have "takeWhile (\<lambda>b. b \<noteq> 0) ((?bs @ [0]) @ rest) = ?bs"
    using s by (induction s) (auto simp: of_nat_char_code_0)
  then show ?thesis
    by (simp add: load_cstr_def str_bytes_def char_of_unat [unfolded fun_eq_iff] comp_def)
qed

end
