(* ===== verification/CrestDs.thy ===== *)
theory CrestDs
  imports CFormat
begin

text \<open>
  The data model of \<open>chaos_crest.c\<close>: data set descriptions (\<open>chaos_ds_t\<close> of
  \<open>chaos_crest.h\<close>), attributes (\<open>ds_t\<close>), control units (\<open>cu_t\<close>), the handle, the format
  chosen for a type (\<open>typeToString\<close>, \<open>typeToFormat\<close>), \<open>chaos_crest_open\<close> and
  \<open>chaos_crest_add_cu\<close>. Sizes are those of the LP64 data model.
\<close>

section \<open>Types\<close>

definition CREST_TYPE_INT32 :: int where "CREST_TYPE_INT32 = 0x1"
definition CREST_TYPE_INT64 :: int where "CREST_TYPE_INT64 = 0x2"
definition CREST_TYPE_DOUBLE :: int where "CREST_TYPE_DOUBLE = 0x4"
definition CREST_TYPE_STRING :: int where "CREST_TYPE_STRING = 0x8"
definition CREST_TYPE_BINARY :: int where "CREST_TYPE_BINARY = 0x10"
definition CREST_TYPE_INT16 :: int where "CREST_TYPE_INT16 = 0x20"
definition CREST_TYPE_VECTOR :: int where "CREST_TYPE_VECTOR = 0x1000"

definition CREST_DIR_INPUT :: int where "CREST_DIR_INPUT = 0"
definition CREST_DIR_OUTPUT :: int where "CREST_DIR_OUTPUT = 1"
definition CREST_DIR_IO :: int where "CREST_DIR_IO = 2"

lemmas crest_consts =
  CREST_TYPE_INT32_def CREST_TYPE_INT64_def CREST_TYPE_DOUBLE_def CREST_TYPE_STRING_def
  CREST_TYPE_BINARY_def CREST_TYPE_INT16_def CREST_TYPE_VECTOR_def
  CREST_DIR_INPUT_def CREST_DIR_OUTPUT_def CREST_DIR_IO_def

definition MAXDIGITS :: int where "MAXDIGITS = 16"

text \<open>\<open>chaos_ds_t\<close>: one line of a data set table.\<close>

record chaos_ds =
  cds_name :: string
  cds_desc :: string
  cds_dir :: int
  cds_type :: int
  cds_size :: int
  cds_alloc_size :: int

text \<open>
  \<open>ds_t\<close>: one attribute. \<open>ds_data\<close> is the string in its buffer of \<open>ds_alloc_size\<close> bytes;
  \<open>None\<close> is the null pointer, in every field that is an option.
\<close>

record ds =
  ds_name :: "string option"
  ds_desc :: "string option"
  ds_type :: int
  ds_size :: int
  ds_format :: "string option"
  ds_data :: "string option"
  ds_alloc_size :: int

text \<open>\<open>cu_t\<close>; the arrays \<open>inds\<close> and \<open>outds\<close> are lists, the null pointer is the empty list.\<close>

record cu =
  cu_name :: "string option"
  cu_inds :: "ds list"
  cu_nin :: int
  cu_outds :: "ds list"
  cu_nout :: int
  cu_maxbufsize :: int

text \<open>
  \<open>_chaos_crest_handle_t\<close> without the fields of the network library. \<open>h_cus\<close> is empty
  when the pointer is null; a slot of the array that nothing was stored in is \<open>None\<close>.
\<close>

record handle =
  h_wan_url :: "string option"
  h_cus :: "cu option list"
  h_ncus :: nat
  h_connected :: int
  h_tot_registration_time :: u64
  h_tot_push_time :: u64
  h_npush :: u64
  h_nreg :: u32
  h_min_push :: u32
  h_max_push :: u32

definition is_vector :: "int \<Rightarrow> bool" where
  "is_vector t \<longleftrightarrow> t AND CREST_TYPE_VECTOR \<noteq> 0"

definition has_type :: "int \<Rightarrow> int \<Rightarrow> bool" where
  "has_type t k \<longleftrightarrow> t AND k \<noteq> 0"

section \<open>Formats\<close>

definition typeToString :: "int \<Rightarrow> string res" where
  "typeToString type =
     (if type = CREST_TYPE_INT32 then Inr ''int32''
      else if type = CREST_TYPE_INT64 then Inr ''int64''
      else if type = CREST_TYPE_DOUBLE then Inr ''double''
      else if type = CREST_TYPE_STRING then Inr ''string''
      else Inl AssertFail)"

definition typeToFormat :: "int \<Rightarrow> string res" where
  "typeToFormat type =
     (if type = CREST_TYPE_INT32 then Inr ''%d''
      else if type = CREST_TYPE_INT64 then Inr ''{\"$numberLong\":\"%lld\"}''
      else if type = CREST_TYPE_DOUBLE then Inr ''{\"$numberDouble\":\"%lf\"}''
      else if type = CREST_TYPE_STRING then Inr ''\"%s\"''
      else if type = CREST_TYPE_BINARY then
        Inr ''{\"$binary\":{\"base64\":\"%s\",\"subType\":\"00\"}}}''
      else if has_type type CREST_TYPE_INT32 \<and> is_vector type then
        Inr ''{\"$binary\":{\"base64\":\"%s\",\"subType\":\"84\"}}''
      else if has_type type CREST_TYPE_DOUBLE \<and> is_vector type then
        Inr ''{\"$binary\":{\"base64\":\"%s\",\"subType\":\"86\"}}''
      else if has_type type CREST_TYPE_INT64 \<and> is_vector type then
        Inr ''{\"$binary\":{\"base64\":\"%s\",\"subType\":\"85\"}}''
      else if has_type type CREST_TYPE_INT16 \<and> is_vector type then
        Inr ''{\"$binary\":{\"base64\":\"%s\",\"subType\":\"83\"}}''
      else Inl AssertFail)"


section \<open>Opening a handle\<close>

text \<open>
  The allocator is a predicate on sizes: \<open>mem n\<close> holds when a request of \<open>n\<close> bytes is
  served. A negative \<open>int\<close> converted to \<open>size_t\<close> is a request that is never served.
\<close>

type_synonym allocator = "nat \<Rightarrow> bool"

definition c_strdup :: "allocator \<Rightarrow> string \<Rightarrow> string option" where
  "c_strdup mem s = (if mem (length s + 1) then Some s else None)"

definition alloc_int :: "allocator \<Rightarrow> int \<Rightarrow> bool" where
  "alloc_int mem n \<longleftrightarrow> 0 \<le> n \<and> mem (nat n)"

definition sizeof_cu :: nat where "sizeof_cu = 40"
definition sizeof_ds :: nat where "sizeof_ds = 48"

text \<open>\<open>calloc\<close> of the handle (\<open>hsize\<close> bytes, with the manager of the network library) is not checked.\<close>

definition chaos_crest_open :: "allocator \<Rightarrow> nat \<Rightarrow> string \<Rightarrow> handle res" where
  "chaos_crest_open mem hsize chaoswan_url =
     guard_res (mem hsize) NullDeref
       (Inr \<lparr>h_wan_url = c_strdup mem chaoswan_url, h_cus = [], h_ncus = 0, h_connected = 0,
             h_tot_registration_time = 0, h_tot_push_time = 0, h_npush = 0,
             h_nreg = 0, h_min_push = 0, h_max_push = 0\<rparr>)"

definition chaos_crest_connect :: "handle \<Rightarrow> int" where
  "chaos_crest_connect h = 0"

section \<open>Adding a control unit\<close>

definition is_input :: "chaos_ds \<Rightarrow> bool" where
  "is_input d \<longleftrightarrow> cds_dir d = CREST_DIR_INPUT \<or> cds_dir d = CREST_DIR_IO"

definition is_output :: "chaos_ds \<Rightarrow> bool" where
  "is_output d \<longleftrightarrow> cds_dir d = CREST_DIR_OUTPUT \<or> cds_dir d = CREST_DIR_IO"

definition in_attr :: "allocator \<Rightarrow> chaos_ds \<Rightarrow> ds" where
  "in_attr mem d =
     \<lparr>ds_name = c_strdup mem (cds_name d), ds_desc = c_strdup mem (cds_desc d),
      ds_type = cds_type d, ds_size = cds_size d,
      ds_format = None, ds_data = None, ds_alloc_size = 0\<rparr>"

definition is_blob :: "int \<Rightarrow> bool" where
  "is_blob t \<longleftrightarrow> t = CREST_TYPE_BINARY \<or> is_vector t"

text \<open>The bytes of one element, as the chain of type tests of the vector branch finds them.\<close>

definition elem_size :: "int \<Rightarrow> int" where
  "elem_size t =
     (if has_type t CREST_TYPE_INT32 \<and> is_vector t then 4
      else if has_type t CREST_TYPE_DOUBLE \<and> is_vector t then 8
      else if has_type t CREST_TYPE_INT64 \<and> is_vector t then 8
      else 1)"

definition out_alloc_size :: "chaos_ds \<Rightarrow> int" where
  "out_alloc_size d =
     (if is_blob (cds_type d) then c_int (cds_size d * elem_size (cds_type d) * 3 + MAXDIGITS) else 64)"

definition out_format :: "string \<Rightarrow> string \<Rightarrow> string" where
  "out_format name sformat = sn_store 256 (''\"'' @ name @ ''\":'' @ sformat)"

definition out_size :: "chaos_ds \<Rightarrow> string \<Rightarrow> int" where
  "out_size d stringa =
     (if is_blob (cds_type d) then c_int (cds_size d * elem_size (cds_type d))
      else c_int (int (length stringa) + 1 + cds_size d + MAXDIGITS))"

definition out_attr :: "allocator \<Rightarrow> chaos_ds \<Rightarrow> ds res" where
  "out_attr mem d =
     rbind (typeToFormat (cds_type d)) (\<lambda>sformat.
       let stringa = out_format (cds_name d) sformat;
           asize = out_alloc_size d
       in Inr \<lparr>ds_name = c_strdup mem (cds_name d), ds_desc = c_strdup mem (cds_desc d),
               ds_type = cds_type d, ds_size = out_size d stringa,
               ds_format = c_strdup mem stringa,
               ds_data = (if alloc_int mem asize then Some [] else None),
               ds_alloc_size = asize\<rparr>)"

text \<open>
  The second loop: the rows of the table are entered into the two arrays; \<open>tbl\<close> collects
  the rows with the \<open>alloc_size\<close> that the loop stores in them. \<open>None\<close> is the return of -6.
\<close>

fun add_items :: "allocator \<Rightarrow> bool \<Rightarrow> bool \<Rightarrow> chaos_ds list \<Rightarrow> ds list \<Rightarrow> ds list \<Rightarrow> chaos_ds list
                  \<Rightarrow> (chaos_ds list \<times> (ds list \<times> ds list) option) res" where
  "add_items mem iok ook [] ins outs tbl = Inr (tbl, Some (ins, outs))"
| "add_items mem iok ook (d # dsl) ins outs tbl =
     rbind (if is_input d then guard_res iok NullDeref (Inr (ins @ [in_attr mem d])) else Inr ins) (\<lambda>ins'.
       if is_output d then
         guard_res ook NullDeref (rbind (out_attr mem d) (\<lambda>a.
           let d' = d\<lparr>cds_alloc_size := ds_alloc_size a\<rparr> in
           if ds_data a = None \<or> ds_format a = None then Inr (tbl @ d' # dsl, None)
           else add_items mem iok ook dsl ins' (outs @ [a]) (tbl @ [d'])))
       else add_items mem iok ook dsl ins' outs (tbl @ [d]))"

text \<open>
  \<open>junk\<close> is what the fields \<open>nin\<close> and \<open>nout\<close> of the slot that \<open>realloc\<close> returns hold: they
  are assigned only when there is an input, respectively an output. The result is the
  handle, the caller's table and the returned \<open>uint32_t\<close>.
\<close>

definition chaos_crest_add_cu ::
  "allocator \<Rightarrow> int \<times> int \<Rightarrow> handle \<Rightarrow> string \<Rightarrow> chaos_ds list \<Rightarrow> int \<Rightarrow> (handle \<times> chaos_ds list \<times> u32) res" where
  "chaos_crest_add_cu mem junk p name dsin dsitems =
     (if \<not> mem ((h_ncus p + 1) * sizeof_cu) then Inr (p\<lparr>h_cus := []\<rparr>, dsin, - 4)
      else guard_res (nat dsitems \<le> length dsin) OutOfBounds
       (let rows = take (nat dsitems) dsin;
            ndsin = length (filter is_input rows);
            ndsout = length (filter is_output rows);
            slots = h_cus p @ replicate (h_ncus p - length (h_cus p)) None
        in rbind (add_items mem (mem (ndsin * sizeof_ds)) (mem (ndsout * sizeof_ds)) rows [] [] []) (\<lambda>(tbl, r).
          case r of
            None \<Rightarrow> Inr (p\<lparr>h_cus := slots\<rparr>, tbl @ drop (nat dsitems) dsin, - 6)
          | Some (ins, outs) \<Rightarrow>
              let c = \<lparr>cu_name = c_strdup mem name,
                       cu_inds = ins, cu_nin = (if ndsin > 0 then int ndsin else fst junk),
                       cu_outds = outs, cu_nout = (if ndsout > 0 then int ndsout else snd junk),
                       cu_maxbufsize = 0\<rparr>
              in Inr (p\<lparr>h_cus := slots @ [Some c], h_ncus := h_ncus p + 1\<rparr>,
                      tbl @ drop (nat dsitems) dsin, of_nat (h_ncus p + 1)))))"

text \<open>Reading the slot of a control unit.\<close>

definition cu_slot :: "handle \<Rightarrow> nat \<Rightarrow> cu res" where
  "cu_slot h i =
     (if i < length (h_cus h) then (case h_cus h ! i of Some c \<Rightarrow> Inr c | None \<Rightarrow> Inl Uninit)
      else Inl NullDeref)"

definition attr_at :: "ds list \<Rightarrow> nat \<Rightarrow> ds res" where
  "attr_at dss i =
     (if i < length dss then Inr (dss ! i)
      else if dss = [] then Inl NullDeref else Inl OutOfBounds)"


section \<open>The invariant of a handle\<close>

text \<open>
  The output attribute of a data set: its string lies inside its buffer and its format is
  the one built from a name for its type.
\<close>

definition wf_out :: "ds \<Rightarrow> bool" where
  "wf_out a \<longleftrightarrow>
     (\<exists>s. ds_data a = Some s \<and> int (length s) < max 1 (ds_alloc_size a)) \<and> 0 \<le> ds_alloc_size a
     \<and> (\<exists>name sformat. typeToFormat (ds_type a) = Inr sformat \<and> ds_format a = Some (out_format name sformat))"

definition wf_in :: "ds \<Rightarrow> bool" where
  "wf_in a \<longleftrightarrow> ds_format a = None \<and> ds_data a = None \<and> ds_alloc_size a = 0"

definition wf_cu :: "cu \<Rightarrow> bool" where
  "wf_cu c \<longleftrightarrow> cu_nin c = int (length (cu_inds c)) \<and> cu_nout c = int (length (cu_outds c))
     \<and> list_all wf_in (cu_inds c) \<and> list_all wf_out (cu_outds c)"

definition wf_handle :: "handle \<Rightarrow> bool" where
  "wf_handle h \<longleftrightarrow> h_ncus h = length (h_cus h)
     \<and> list_all (\<lambda>s. case s of Some c \<Rightarrow> wf_cu c | None \<Rightarrow> False) (h_cus h)"

lemma wf_handle_slot:
  assumes "wf_handle h" and "i < h_ncus h"
  obtains c where "h_cus h ! i = Some c" and "cu_slot h i = Inr c" and "wf_cu c"
  using assms by (fastforce simp: wf_handle_def cu_slot_def list_all_length split: option.splits)

lemma attr_at_Inr [simp]: "i < length dss \<Longrightarrow> attr_at dss i = Inr (dss ! i)"
  by (simp add: attr_at_def)

lemma attr_at_eq_Inr_iff: "attr_at dss i = Inr a \<longleftrightarrow> i < length dss \<and> a = dss ! i"
  by (auto simp: attr_at_def)

definition good_out :: "allocator \<Rightarrow> chaos_ds \<Rightarrow> ds \<Rightarrow> bool" where
  "good_out mem d a \<longleftrightarrow> out_attr mem d = Inr a \<and> ds_data a \<noteq> None \<and> ds_format a \<noteq> None"

lemma good_out_wf: "good_out mem d a \<Longrightarrow> wf_out a"
  by (auto simp: good_out_def out_attr_def rbind_eq_Inr_iff Let_def wf_out_def c_strdup_def alloc_int_def
      split: if_splits)

lemma in_attr_wf: "wf_in (in_attr mem d)"
  by (simp add: wf_in_def in_attr_def)

lemma add_items_Some:
  "add_items mem iok ook rows ins outs tbl = Inr (tbl', Some (ins', outs')) \<Longrightarrow>
     ins' = ins @ map (in_attr mem) (filter is_input rows)
     \<and> (\<exists>os. outs' = outs @ os \<and> list_all2 (good_out mem) (filter is_output rows) os)"
proof (induction rows arbitrary: ins outs tbl)
  case (Cons d rows)
  let ?ins = "ins @ map (in_attr mem) (filter is_input [d])"
  show ?case
  proof (cases "is_output d")
    case False
    with Cons.prems have "add_items mem iok ook rows ?ins outs (tbl @ [d]) = Inr (tbl', Some (ins', outs'))"
      by (auto simp: rbind_eq_Inr_iff guard_res_eq_Inr_iff split: if_splits)
    from Cons.IH [OF this] False show ?thesis by auto
  next
    case True
    with Cons.prems obtain a where a: "good_out mem d a"
      and rest: "add_items mem iok ook rows ?ins (outs @ [a]) (tbl @ [d\<lparr>cds_alloc_size := ds_alloc_size a\<rparr>])
             = Inr (tbl', Some (ins', outs'))"
      by (auto simp: rbind_eq_Inr_iff guard_res_eq_Inr_iff Let_def good_out_def split: if_splits)
    from Cons.IH [OF rest] obtain os where "outs' = (outs @ [a]) @ os"
      and "list_all2 (good_out mem) (filter is_output rows) os"
      and "ins' = ?ins @ map (in_attr mem) (filter is_input rows)" by auto
    with a True show ?thesis by (auto intro!: exI [of _ "a # os"])
  qed
qed simp

lemma add_items_total:
  assumes "\<And>d. d \<in> set rows \<Longrightarrow> is_input d \<Longrightarrow> iok" and "\<And>d. d \<in> set rows \<Longrightarrow> is_output d \<Longrightarrow> ook"
    and "\<And>d. d \<in> set rows \<Longrightarrow> is_output d \<Longrightarrow> \<exists>a. good_out mem d a"
  shows "\<exists>tbl' r. add_items mem iok ook rows ins outs tbl = Inr (tbl', Some r)"
  using assms
proof (induction rows arbitrary: ins outs tbl)
  case (Cons d rows)
  have IH: "\<exists>tbl' r. add_items mem iok ook rows i out t = Inr (tbl', Some r)" for i out t
    by (rule Cons.IH) (auto intro: Cons.prems)
  have i: "(if is_input d then guard_res iok NullDeref (Inr (ins @ [in_attr mem d])) else Inr ins)
     = Inr (ins @ map (in_attr mem) (filter is_input [d]))"
    using Cons.prems(1) [of d] by simp
  show ?case
  proof (cases "is_output d")
    case True
    with Cons.prems(3) [of d] obtain a where "good_out mem d a" by auto
    then show ?thesis using True Cons.prems(2) [of d] IH
      by (simp add: i good_out_def Let_def del: filter.simps)
  qed (use IH in \<open>simp add: i del: filter.simps\<close>)
qed simp

lemma list_all2_good_wf: "list_all2 (good_out mem) ds os \<Longrightarrow> list_all wf_out os"
  by (induction rule: list_all2_induct) (auto intro: good_out_wf)

lemma wf_handle_snoc:
  assumes "wf_handle h" and "wf_cu c"
  shows "wf_handle (h\<lparr>h_cus := h_cus h @ [Some c], h_ncus := h_ncus h + 1\<rparr>)"
  using assms by (simp add: wf_handle_def)

lemma of_nat_neq_err: "k < 2 ^ 31 \<Longrightarrow> (of_nat k :: u32) \<noteq> 4294967289"
proof
  assume k: "k < 2 ^ 31" and "(of_nat k :: u32) = 4294967289"
  then have "unat (of_nat k :: u32) = unat (4294967289 :: u32)" by metis
  moreover have "unat (of_nat k :: u32) = k"
    using k by (simp add: unat_of_nat take_bit_nat_eq_self)
  ultimately show False using k by simp
qed

lemma add_cu_result:
  assumes "chaos_crest_add_cu mem junk h name dsin n = Inr (h', tbl, u)"
    and "mem ((h_ncus h + 1) * sizeof_cu)"
  shows "h' = h\<lparr>h_cus := h_cus h @ replicate (h_ncus h - length (h_cus h)) None\<rparr>
   \<or> (\<exists>iok ook tbl' ins outs. add_items mem iok ook (take (nat n) dsin) [] [] [] = Inr (tbl', Some (ins, outs))
      \<and> h' = h\<lparr>h_cus := (h_cus h @ replicate (h_ncus h - length (h_cus h)) None) @
         [Some \<lparr>cu_name = c_strdup mem name, cu_inds = ins,
           cu_nin = (if filter is_input (take (nat n) dsin) \<noteq> []
                     then int (length (filter is_input (take (nat n) dsin))) else fst junk), cu_outds = outs,
           cu_nout = (if filter is_output (take (nat n) dsin) \<noteq> []
                      then int (length (filter is_output (take (nat n) dsin))) else snd junk),
           cu_maxbufsize = 0\<rparr>], h_ncus := h_ncus h + 1\<rparr>)"
proof -
  let ?rows = "take (nat n) dsin"
  let ?items = "add_items mem (mem (length (filter is_input ?rows) * sizeof_ds))
     (mem (length (filter is_output ?rows) * sizeof_ds)) ?rows [] [] []"
  obtain t r where i: "?items = Inr (t, r)"
    using assms by (auto simp: chaos_crest_add_cu_def Let_def guard_res_eq_Inr_iff elim!: rbind_eq_InrE)
  show ?thesis
  proof (cases r)
    case None
    with assms i show ?thesis by (simp add: chaos_crest_add_cu_def Let_def guard_res_eq_Inr_iff)
  next
    case (Some io)
    obtain ins outs where [simp]: "io = (ins, outs)" by (cases io)
    show ?thesis
      by (rule disjI2, rule exI, rule exI, rule exI, rule exI, rule exI, rule conjI, rule i [unfolded Some \<open>io = _\<close>])
         (use assms i Some in \<open>simp add: chaos_crest_add_cu_def Let_def guard_res_eq_Inr_iff\<close>)
  qed
qed

section \<open>Properties\<close>

text \<open>
  C4. A control unit is added when the memory is there and every output row has a type
  that \<open>typeToFormat\<close> knows: the returned uid is the new number of control units, the
  ones already there are untouched, the new one has the input rows as inputs and the
  output rows as outputs, in table order, with their formats and buffers; and if the table
  has a row of each direction, the handle is well-formed again.
\<close>

theorem add_cu_success:
  assumes "wf_handle h" and "mem ((h_ncus h + 1) * sizeof_cu)"
    and "rows = take (nat dsitems) dsin" and "nat dsitems \<le> length dsin"
    and "filter is_input rows \<noteq> [] \<Longrightarrow> mem (length (filter is_input rows) * sizeof_ds)"
    and "filter is_output rows \<noteq> [] \<Longrightarrow> mem (length (filter is_output rows) * sizeof_ds)"
    and "\<And>d. d \<in> set rows \<Longrightarrow> is_output d \<Longrightarrow> \<exists>a. good_out mem d a"
  shows "\<exists>c tbl. chaos_crest_add_cu mem junk h name dsin dsitems
           = Inr (h\<lparr>h_cus := h_cus h @ [Some c], h_ncus := h_ncus h + 1\<rparr>, tbl, of_nat (h_ncus h + 1))
       \<and> cu_name c = c_strdup mem name
       \<and> cu_inds c = map (in_attr mem) (filter is_input rows)
       \<and> list_all2 (good_out mem) (filter is_output rows) (cu_outds c)
       \<and> (filter is_input rows \<noteq> [] \<and> filter is_output rows \<noteq> [] \<longrightarrow>
            wf_handle (h\<lparr>h_cus := h_cus h @ [Some c], h_ncus := h_ncus h + 1\<rparr>))"
proof -
  let ?ni = "length (filter is_input rows)" and ?no = "length (filter is_output rows)"
  obtain tbl ins outs where
    run: "add_items mem (mem (?ni * sizeof_ds)) (mem (?no * sizeof_ds)) rows [] [] [] = Inr (tbl, Some (ins, outs))"
  proof -
    have "\<exists>tbl' r. add_items mem (mem (?ni * sizeof_ds)) (mem (?no * sizeof_ds)) rows [] [] [] = Inr (tbl', Some r)"
    proof (rule add_items_total)
      fix d assume "d \<in> set rows" "is_input d"
      then have "filter is_input rows \<noteq> []" by (auto simp: filter_empty_conv)
      then show "mem (?ni * sizeof_ds)" by (rule assms(5))
    next
      fix d assume "d \<in> set rows" "is_output d"
      then have "filter is_output rows \<noteq> []" by (auto simp: filter_empty_conv)
      then show "mem (?no * sizeof_ds)" by (rule assms(6))
    qed (rule assms(7))
    then show thesis using that by auto
  qed
  have ins: "ins = map (in_attr mem) (filter is_input rows)"
    and outs: "list_all2 (good_out mem) (filter is_output rows) outs"
    using add_items_Some [OF run] by auto
  have len: "h_ncus h = length (h_cus h)" using assms(1) by (simp add: wf_handle_def)
  define c where "c = \<lparr>cu_name = c_strdup mem name, cu_inds = ins,
    cu_nin = (if ?ni > 0 then int ?ni else fst junk), cu_outds = outs,
    cu_nout = (if ?no > 0 then int ?no else snd junk), cu_maxbufsize = 0\<rparr>"
  have eq: "chaos_crest_add_cu mem junk h name dsin dsitems
     = Inr (h\<lparr>h_cus := h_cus h @ [Some c], h_ncus := h_ncus h + 1\<rparr>, tbl @ drop (nat dsitems) dsin,
            of_nat (h_ncus h + 1))"
    using assms(2,4) run len
    by (simp add: chaos_crest_add_cu_def Let_def c_def flip: assms(3))
  have "wf_cu c" if "filter is_input rows \<noteq> []" and "filter is_output rows \<noteq> []"
  proof -
    have "length outs = ?no" using list_all2_lengthD [OF outs] by simp
    moreover have "list_all wf_in ins" unfolding ins by (auto simp: list_all_iff intro: in_attr_wf)
    moreover have "0 < ?ni" "0 < ?no" using that by simp_all
    ultimately show ?thesis using that list_all2_good_wf [OF outs] by (simp add: wf_cu_def c_def ins)
  qed
  with wf_handle_snoc [OF assms(1)] eq outs ins show ?thesis
    by (intro exI [of _ c] exI [of _ "tbl @ drop (nat dsitems) dsin"]) (simp add: c_def)
qed

definition ex_handle :: handle where
  "ex_handle = \<lparr>h_wan_url = Some ''localhost:8081'', h_cus = [], h_ncus = 0, h_connected = 0,
     h_tot_registration_time = 0, h_tot_push_time = 0, h_npush = 0,
     h_nreg = 0, h_min_push = 0, h_max_push = 0\<rparr>"

definition ex_rows :: "chaos_ds list" where
  "ex_rows = [\<lparr>cds_name = ''set'', cds_desc = '''', cds_dir = 0, cds_type = 1, cds_size = 4, cds_alloc_size = 0\<rparr>,
              \<lparr>cds_name = ''read'', cds_desc = '''', cds_dir = 1, cds_type = 4, cds_size = 8, cds_alloc_size = 0\<rparr>]"

lemma ex_open: "chaos_crest_open (\<lambda>n. True) hsize ''localhost:8081'' = Inr ex_handle"
  by (simp add: chaos_crest_open_def c_strdup_def ex_handle_def)

lemma ex_handle_wf: "wf_handle ex_handle"
  by (simp add: wf_handle_def ex_handle_def)

theorem add_cu_success_witness:
  "\<exists>c tbl. chaos_crest_add_cu (\<lambda>n. True) (0, 0) ex_handle ''CU'' ex_rows 2
           = Inr (ex_handle\<lparr>h_cus := h_cus ex_handle @ [Some c], h_ncus := h_ncus ex_handle + 1\<rparr>, tbl,
                  of_nat (h_ncus ex_handle + 1))
       \<and> cu_name c = c_strdup (\<lambda>n. True) ''CU''
       \<and> cu_inds c = map (in_attr (\<lambda>n. True)) (filter is_input ex_rows)
       \<and> list_all2 (good_out (\<lambda>n. True)) (filter is_output ex_rows) (cu_outds c)
       \<and> (filter is_input ex_rows \<noteq> [] \<and> filter is_output ex_rows \<noteq> [] \<longrightarrow>
            wf_handle (ex_handle\<lparr>h_cus := h_cus ex_handle @ [Some c], h_ncus := h_ncus ex_handle + 1\<rparr>))"
proof (rule add_cu_success)
  show "wf_handle ex_handle" by (rule ex_handle_wf)
  show "ex_rows = take (nat 2) ex_rows" by (simp add: ex_rows_def)
  show "nat 2 \<le> length ex_rows" by (simp add: ex_rows_def)
  fix d assume "d \<in> set ex_rows" and "is_output d"
  then have "d = ex_rows ! 1" by (auto simp: ex_rows_def is_output_def crest_consts)
  then show "\<exists>a. good_out (\<lambda>n. True) d a"
    by (simp add: good_out_def out_attr_def ex_rows_def typeToFormat_def crest_consts Let_def c_strdup_def
        alloc_int_def out_alloc_size_def is_blob_def is_vector_def)
qed simp_all

text \<open>A row whose buffer or format cannot be allocated ends the loop.\<close>

definition starved :: "allocator \<Rightarrow> chaos_ds \<Rightarrow> bool" where
  "starved mem d \<longleftrightarrow> is_output d \<and> (\<exists>f. typeToFormat (cds_type d) = Inr f \<and>
     (\<not> alloc_int mem (out_alloc_size d) \<or> \<not> mem (length (out_format (cds_name d) f) + 1)))"

lemma add_items_None:
  assumes "\<And>d. d \<in> set rows \<Longrightarrow> is_input d \<Longrightarrow> iok" and "\<And>d. d \<in> set rows \<Longrightarrow> is_output d \<Longrightarrow> ook"
    and "\<And>d. d \<in> set rows \<Longrightarrow> is_output d \<Longrightarrow> \<exists>f. typeToFormat (cds_type d) = Inr f" and "\<exists>d \<in> set rows. starved mem d"
  shows "\<exists>tbl'. add_items mem iok ook rows ins outs tbl = Inr (tbl', None)"
  using assms
proof (induction rows arbitrary: ins outs tbl)
  case (Cons d rows)
  have IH: "\<exists>d \<in> set rows. starved mem d \<Longrightarrow> \<exists>tbl'. add_items mem iok ook rows i out t = Inr (tbl', None)" for i out t
    by (rule Cons.IH) (auto intro: Cons.prems(1-3))
  show ?case
  proof (cases "is_output d")
    case False
    then have "\<exists>d \<in> set rows. starved mem d" using Cons.prems(4) by (auto simp: starved_def)
    then show ?thesis using IH Cons.prems(1) False by (auto simp: rbind_def guard_res_def)
  next
    case True
    then have ook using Cons.prems(2) [of d] by simp
    have i: "(if is_input d then guard_res iok NullDeref (Inr (ins @ [in_attr mem d])) else Inr ins)
       = Inr (ins @ map (in_attr mem) (filter is_input [d]))"
      using Cons.prems(1) [of d] by simp
    obtain a where a: "out_attr mem d = Inr a" "ds_data a = None \<or> ds_format a = None \<longleftrightarrow> starved mem d"
      using True Cons.prems(3) [of d] by (auto simp: starved_def out_attr_def Let_def c_strdup_def)
    show ?thesis
    proof (cases "starved mem d")
      case False
      then have "\<exists>d \<in> set rows. starved mem d" using Cons.prems(4) by auto
      then show ?thesis using False True a IH \<open>ook\<close> by (simp add: i Let_def del: filter.simps)
    qed (use True a \<open>ook\<close> in \<open>simp add: i Let_def del: filter.simps\<close>)
  qed
qed simp

text \<open>
  C5. Running out of memory: when the array cannot grow, the call returns -4 (a large
  number, as the result is unsigned) and the handle has lost its control units, so that
  every later access to one of them is a null dereference. When the arrays of the attributes
  can be allocated, but the buffer or the format of some output row of a known type cannot, the
  call returns -6; whenever it returns -6 the control units of the handle are what they were.
\<close>

theorem add_cu_no_memory:
  assumes "wf_handle h" and "h_ncus h < 2 ^ 31"
  shows "(\<not> mem ((h_ncus h + 1) * sizeof_cu) \<longrightarrow>
           (\<exists>h'. chaos_crest_add_cu mem junk h name dsin n = Inr (h', dsin, 4294967292)
             \<and> h_ncus h' = h_ncus h \<and> (\<forall>i. cu_slot h' i = Inl NullDeref)))
    \<and> (mem ((h_ncus h + 1) * sizeof_cu) \<and> nat n \<le> length dsin
         \<and> mem (length (filter is_input (take (nat n) dsin)) * sizeof_ds)
         \<and> mem (length (filter is_output (take (nat n) dsin)) * sizeof_ds)
         \<and> (\<forall>d \<in> set (take (nat n) dsin). is_output d \<longrightarrow> (\<exists>f. typeToFormat (cds_type d) = Inr f))
         \<and> (\<exists>d \<in> set (take (nat n) dsin). starved mem d) \<longrightarrow>
           (\<exists>tbl. chaos_crest_add_cu mem junk h name dsin n = Inr (h, tbl, 4294967290)))
    \<and> (chaos_crest_add_cu mem junk h name dsin n = Inr (h', tbl, 4294967290) \<longrightarrow> h' = h)"
proof (intro conjI impI, goal_cases)
  case 1
  then show ?case by (simp add: chaos_crest_add_cu_def cu_slot_def)
next
  case 2
  let ?rows = "take (nat n) dsin"
  obtain tbl where "add_items mem (mem (length (filter is_input ?rows) * sizeof_ds)) (mem (length (filter is_output ?rows) * sizeof_ds))
      ?rows [] [] [] = Inr (tbl, None)"
    using add_items_None [of ?rows "mem (length (filter is_input ?rows) * sizeof_ds)" "mem (length (filter is_output ?rows) * sizeof_ds)" mem "[]" "[]" "[]"] 2
    by blast
  then show ?case using 2 assms(1) by (simp add: chaos_crest_add_cu_def Let_def wf_handle_def)
next
  case 3
  have "length (h_cus h) = h_ncus h" using assms by (simp add: wf_handle_def)
  with 3 of_nat_neq_err [OF assms(2)] show ?case
    by (auto simp: chaos_crest_add_cu_def guard_res_eq_Inr_iff rbind_eq_Inr_iff Let_def
        split: if_splits option.splits prod.splits)
qed

theorem add_cu_no_memory_witness:
  "(\<exists>h'. chaos_crest_add_cu (\<lambda>n. False) (0, 0) ex_handle ''CU'' ex_rows 2 = Inr (h', ex_rows, 4294967292)
     \<and> h_ncus h' = h_ncus ex_handle \<and> (\<forall>i. cu_slot h' i = Inl NullDeref))
   \<and> (\<exists>tbl. chaos_crest_add_cu (\<lambda>n. n \<noteq> 64) (0, 0) ex_handle ''CU'' ex_rows 2 = Inr (ex_handle, tbl, 4294967290))"
proof
  have h: "h_ncus ex_handle < 2 ^ 31" by (simp add: ex_handle_def)
  show "\<exists>h'. chaos_crest_add_cu (\<lambda>n. False) (0, 0) ex_handle ''CU'' ex_rows 2 = Inr (h', ex_rows, 4294967292)
     \<and> h_ncus h' = h_ncus ex_handle \<and> (\<forall>i. cu_slot h' i = Inl NullDeref)"
    using add_cu_no_memory [OF ex_handle_wf h, of "\<lambda>n. False"] by blast
  have "starved (\<lambda>n. n \<noteq> 64) (ex_rows ! 1)"
    by (simp add: starved_def ex_rows_def is_output_def crest_consts typeToFormat_def alloc_int_def out_alloc_size_def
        is_blob_def is_vector_def)
  then have "\<exists>d \<in> set ex_rows. starved (\<lambda>n. n \<noteq> 64) d" by (rule bexI) (simp add: ex_rows_def)
  moreover have "nat 2 \<le> length ex_rows" "take (nat 2) ex_rows = ex_rows" by (simp_all add: ex_rows_def)
  moreover have "\<exists>f. typeToFormat (cds_type d) = Inr f" if "d \<in> set ex_rows" "is_output d" for d
    using that by (auto simp: ex_rows_def typeToFormat_def is_output_def crest_consts)
  moreover have "(h_ncus ex_handle + 1) * sizeof_cu \<noteq> 64" "length (filter is_input ex_rows) * sizeof_ds \<noteq> 64"
    "length (filter is_output ex_rows) * sizeof_ds \<noteq> 64"
    by (simp_all add: ex_handle_def sizeof_cu_def sizeof_ds_def ex_rows_def is_input_def is_output_def crest_consts)
  ultimately show "\<exists>tbl. chaos_crest_add_cu (\<lambda>n. n \<noteq> 64) (0, 0) ex_handle ''CU'' ex_rows 2 = Inr (ex_handle, tbl, 4294967290)"
    using add_cu_no_memory [OF ex_handle_wf h, of "\<lambda>n. n \<noteq> 64" "(0, 0)" "''CU''" ex_rows 2] by (auto simp del: One_nat_def)
qed

text \<open>
  The counters of a control unit whose table has no input row (or no output row) are
  never assigned: the control unit that is added carries whatever the memory of its slot
  held, and with anything but 0 there the handle is not well-formed.
\<close>

theorem add_cu_counter_unset:
  assumes "chaos_crest_add_cu mem junk h name dsin n = Inr (h', tbl, u)"
    and "h_ncus h' = h_ncus h + 1" and "list_all (\<lambda>d. \<not> is_input d) dsin"
  shows "\<exists>c. last (h_cus h') = Some c \<and> cu_inds c = [] \<and> cu_nin c = fst junk
           \<and> (fst junk \<noteq> 0 \<longrightarrow> \<not> wf_handle h')"
proof -
  have none: "filter is_input (take (nat n) dsin) = []"
    using assms(3) by (auto simp: filter_empty_conv list_all_iff dest: in_set_takeD)
  obtain ins outs tbl' iok ook nout where
    run: "add_items mem iok ook (take (nat n) dsin) [] [] [] = Inr (tbl', Some (ins, outs))"
    and h': "h' = h\<lparr>h_cus := (h_cus h @ replicate (h_ncus h - length (h_cus h)) None) @
       [Some \<lparr>cu_name = c_strdup mem name, cu_inds = ins, cu_nin = fst junk, cu_outds = outs,
         cu_nout = nout, cu_maxbufsize = 0\<rparr>], h_ncus := h_ncus h + 1\<rparr>"
    using assms(1,2) none
    by (auto simp: chaos_crest_add_cu_def guard_res_eq_Inr_iff rbind_eq_Inr_iff Let_def
        split: if_splits option.splits prod.splits)
  have "ins = []" using add_items_Some [OF run] none by simp
  then show ?thesis by (simp add: h' wf_handle_def wf_cu_def)
qed

definition ex_out_only :: "chaos_ds list" where
  "ex_out_only = [\<lparr>cds_name = ''read'', cds_desc = '''', cds_dir = 1, cds_type = 4, cds_size = 8,
                   cds_alloc_size = 0\<rparr>]"

definition ex_junk_handle :: "handle \<times> chaos_ds list \<times> u32" where
  "ex_junk_handle = projr (chaos_crest_add_cu (\<lambda>n. True) (7, 7) ex_handle ''CU'' ex_out_only 1)"

lemma ex_junk_run:
  "chaos_crest_add_cu (\<lambda>n. True) (7, 7) ex_handle ''CU'' ex_out_only 1
     = Inr (fst ex_junk_handle, fst (snd ex_junk_handle), snd (snd ex_junk_handle))"
  "h_ncus (fst ex_junk_handle) = h_ncus ex_handle + 1"
  by (simp_all add: ex_junk_handle_def chaos_crest_add_cu_def Let_def ex_out_only_def is_input_def
      is_output_def crest_consts out_attr_def typeToFormat_def c_strdup_def alloc_int_def
      out_alloc_size_def is_blob_def is_vector_def)

theorem add_cu_counter_unset_witness:
  "\<exists>c. last (h_cus (fst ex_junk_handle)) = Some c \<and> cu_inds c = [] \<and> cu_nin c = fst (7::int, 7::int)
     \<and> (fst (7::int, 7::int) \<noteq> 0 \<longrightarrow> \<not> wf_handle (fst ex_junk_handle))"
  by (rule add_cu_counter_unset [OF ex_junk_run(1) ex_junk_run(2)])
     (simp add: ex_out_only_def is_input_def crest_consts)

end
