(* ===== verification/CrestUpdate.thy ===== *)
theory CrestUpdate
  imports CrestDs B64
begin

text \<open>
  Writing attribute values (\<open>update_attribute\<close>, \<open>chaos_crest_update\<close>,
  \<open>chaos_crest_update_by_name\<close>) and releasing a handle (\<open>chaos_crest_close\<close>).
  The \<open>void *data\<close> of the caller is the memory \<open>m\<close> it points to; \<open>le\<close> says whether the
  machine is little-endian, \<open>dbl\<close> is the text of \<open>%lf\<close>.
\<close>

section \<open>Updating one attribute\<close>

text \<open>\<open>snprintf (p->data, p->alloc_size, p->format, arg)\<close>\<close>

definition store_fmt :: "(u64 \<Rightarrow> string) \<Rightarrow> ds \<Rightarrow> carg \<Rightarrow> ds res" where
  "store_fmt dbl p arg =
     (case ds_format p of None \<Rightarrow> Inl NullDeref
      | Some f \<Rightarrow> rbind (cfmt dbl f [arg]) (\<lambda>s.
          if ds_alloc_size p = 0 then Inr p
          else guard_res (0 < ds_alloc_size p) OutOfBounds
            (case ds_data p of None \<Rightarrow> Inl NullDeref
             | Some old \<Rightarrow> Inr (p\<lparr>ds_data := Some (sn_store (nat (ds_alloc_size p)) s)\<rparr>))))"

text \<open>\<open>b64_encode (data, p->size)\<close>: the loop reads \<open>size\<close> bytes, a negative one is a huge \<open>size_t\<close>.\<close>

definition encode_blob :: "allocator \<Rightarrow> int \<Rightarrow> u8 list \<Rightarrow> string option res" where
  "encode_blob mem sz m =
     (if 0 \<le> sz \<and> nat sz \<le> length m then b64_encode mem (take (nat sz) m)
      else if mem 1 then Inl OutOfBounds else Inr None)"

text \<open>The buffer grows when the base64 text alone is longer than the buffer.\<close>

definition grow_data :: "allocator \<Rightarrow> ds \<Rightarrow> string \<Rightarrow> ds res" where
  "grow_data mem p bsa =
     (let diff = c_int (int (length bsa) - ds_alloc_size p) in
      if diff > 0 then
        (case ds_format p of None \<Rightarrow> Inl NullDeref
         | Some f \<Rightarrow>
             let alloc = c_int (ds_alloc_size p + c_int (diff + int (length f))) in
             Inr (p\<lparr>ds_alloc_size := alloc,
                    ds_data := (if alloc \<noteq> 0 \<and> alloc_int mem alloc
                                then Some (case ds_data p of Some old \<Rightarrow> old | None \<Rightarrow> []) else None)\<rparr>))
      else Inr p)"

definition update_value :: "(u64 \<Rightarrow> string) \<Rightarrow> bool \<Rightarrow> allocator \<Rightarrow> ds \<Rightarrow> u8 list \<Rightarrow> ds res" where
  "update_value dbl le mem p m =
     (if ds_type p = CREST_TYPE_INT32 then
        rbind (load_bytes le 4 m) (\<lambda>n. store_fmt dbl p (AInt (sint (of_nat n :: u32))))
      else if ds_type p = CREST_TYPE_INT64 then
        rbind (load_bytes le 8 m) (\<lambda>n. store_fmt dbl p (AInt (sint (of_nat n :: u64))))
      else if ds_type p = CREST_TYPE_DOUBLE then
        rbind (load_bytes le 8 m) (\<lambda>n. store_fmt dbl p (ADouble (of_nat n)))
      else if ds_type p = CREST_TYPE_STRING then
        rbind (load_cstr m) (\<lambda>s. store_fmt dbl p (AStr s))
      else if is_blob (ds_type p) then
        rbind (encode_blob mem (ds_size p) m) (\<lambda>r.
          case r of None \<Rightarrow> Inr p
          | Some bsa \<Rightarrow> rbind (grow_data mem p bsa) (\<lambda>q. store_fmt dbl q (AStr bsa)))
      else Inr p)"

definition update_attribute ::
  "(u64 \<Rightarrow> string) \<Rightarrow> bool \<Rightarrow> allocator \<Rightarrow> cu \<Rightarrow> int \<Rightarrow> u8 list \<Rightarrow> (cu \<times> int) res" where
  "update_attribute dbl le mem c attr m =
     (if attr \<ge> cu_nout c \<or> attr < 0 then Inr (c, - 7)
      else rbind (attr_at (cu_outds c) (nat attr)) (\<lambda>p.
           rbind (update_value dbl le mem p m) (\<lambda>p'.
           Inr (c\<lparr>cu_outds := (cu_outds c)[nat attr := p']\<rparr>, 0))))"

text \<open>\<open>(cu_uid > p->ncus) || (cu_uid <= 0)\<close>, on unsigned operands\<close>

definition bad_uid :: "handle \<Rightarrow> u32 \<Rightarrow> bool" where
  "bad_uid h uid \<longleftrightarrow> unat uid > h_ncus h \<or> uid = 0"

definition set_cu :: "handle \<Rightarrow> nat \<Rightarrow> cu \<Rightarrow> handle" where
  "set_cu h i c = h\<lparr>h_cus := (h_cus h)[i := Some c]\<rparr>"

definition chaos_crest_update ::
  "(u64 \<Rightarrow> string) \<Rightarrow> bool \<Rightarrow> allocator \<Rightarrow> handle \<Rightarrow> u32 \<Rightarrow> int \<Rightarrow> u8 list \<Rightarrow> (handle \<times> int) res" where
  "chaos_crest_update dbl le mem h uid attr_pos m =
     (if bad_uid h uid then Inr (h, - 8)
      else let i = unat uid - 1 in
        rbind (cu_slot h i) (\<lambda>c.
        rbind (update_attribute dbl le mem c attr_pos m) (\<lambda>(c', ret).
        Inr (set_cu h i c', ret))))"

text \<open>
  The search loop over the output attributes: the index of the first one with the name,
  if \<open>strcmp\<close> never meets a null name before.
\<close>

function find_attr :: "cu \<Rightarrow> string \<Rightarrow> int \<Rightarrow> int option res" where
  "find_attr c name cnt =
     (if cnt < cu_nout c then
        rbind (attr_at (cu_outds c) (nat cnt)) (\<lambda>p.
          case ds_name p of None \<Rightarrow> Inl NullDeref
          | Some nm \<Rightarrow> if nm = name then Inr (Some cnt) else find_attr c name (cnt + 1))
      else Inr None)"
  by auto

termination by (relation "measure (\<lambda>(c, name, cnt). nat (cu_nout c - cnt))") auto

declare find_attr.simps [simp del]

definition chaos_crest_update_by_name ::
  "(u64 \<Rightarrow> string) \<Rightarrow> bool \<Rightarrow> allocator \<Rightarrow> handle \<Rightarrow> u32 \<Rightarrow> string \<Rightarrow> u8 list \<Rightarrow> (handle \<times> int) res" where
  "chaos_crest_update_by_name dbl le mem h uid attr_name m =
     (if bad_uid h uid then Inr (h, - 8)
      else let i = unat uid - 1 in
        rbind (cu_slot h i) (\<lambda>c.
        rbind (find_attr c attr_name 0) (\<lambda>r.
          case r of None \<Rightarrow> Inr (h, - 9)
          | Some cnt \<Rightarrow>
              rbind (update_attribute dbl le mem c cnt m) (\<lambda>(c', ret).
              Inr (set_cu h i c', ret)))))"

section \<open>Closing the handle\<close>

text \<open>The heap objects a handle owns.\<close>

datatype obj =
    OHandle | OWanUrl | OCus
  | OCuName nat | OInds nat | OOutds nat
  | OOutName nat nat | OOutDesc nat nat | OOutFormat nat nat | OOutData nat nat
  | OInName nat nat | OInDesc nat nat

definition free_opt :: "'a option \<Rightarrow> obj \<Rightarrow> obj list" where
  "free_opt p x = (case p of None \<Rightarrow> [] | Some _ \<Rightarrow> [x])"

text \<open>The two inner loops; they run to the counters, not to the ends of the arrays.\<close>

fun free_outs :: "nat \<Rightarrow> ds list \<Rightarrow> nat \<Rightarrow> nat \<Rightarrow> obj list res" where
  "free_outs i dss j 0 = Inr []"
| "free_outs i dss j (Suc n) =
     rbind (attr_at dss j) (\<lambda>a. rbind (free_outs i dss (j + 1) n) (\<lambda>rest.
       Inr (free_opt (ds_name a) (OOutName i j) @ free_opt (ds_desc a) (OOutDesc i j)
            @ free_opt (ds_format a) (OOutFormat i j) @ free_opt (ds_data a) (OOutData i j) @ rest)))"

fun free_ins :: "nat \<Rightarrow> ds list \<Rightarrow> nat \<Rightarrow> nat \<Rightarrow> obj list res" where
  "free_ins i dss j 0 = Inr []"
| "free_ins i dss j (Suc n) =
     rbind (attr_at dss j) (\<lambda>a. rbind (free_ins i dss (j + 1) n) (\<lambda>rest.
       Inr (free_opt (ds_name a) (OInName i j) @ free_opt (ds_desc a) (OInDesc i j) @ rest)))"

definition free_array :: "ds list \<Rightarrow> obj \<Rightarrow> obj list" where
  "free_array dss x = (if dss = [] then [] else [x])"

definition free_cu :: "nat \<Rightarrow> cu \<Rightarrow> obj list res" where
  "free_cu i c =
     rbind (free_outs i (cu_outds c) 0 (nat (cu_nout c))) (\<lambda>os.
     rbind (free_ins i (cu_inds c) 0 (nat (cu_nin c))) (\<lambda>ins.
     Inr (free_opt (cu_name c) (OCuName i) @ os @ ins
          @ free_array (cu_inds c) (OInds i) @ free_array (cu_outds c) (OOutds i))))"

fun free_cus :: "handle \<Rightarrow> nat \<Rightarrow> nat \<Rightarrow> obj list res" where
  "free_cus h i 0 = Inr []"
| "free_cus h i (Suc n) =
     rbind (cu_slot h i) (\<lambda>c. rbind (free_cu i c) (\<lambda>xs. rbind (free_cus h (i + 1) n) (\<lambda>ys. Inr (xs @ ys))))"

text \<open>The objects passed to \<open>free\<close>, in order, and the result; \<open>hostname\<close> is null in this build.\<close>

definition chaos_crest_close :: "handle \<Rightarrow> (obj list \<times> int) res" where
  "chaos_crest_close h =
     rbind (free_cus h 0 (h_ncus h)) (\<lambda>xs.
       Inr (xs @ (if h_cus h = [] then [] else [OCus]) @ free_opt (h_wan_url h) OWanUrl @ [OHandle], 0))"

section \<open>Values and their JSON text\<close>

text \<open>The values an attribute can be given, their bytes in memory and their JSON text.\<close>

datatype val = VInt32 u32 | VInt64 u64 | VDouble u64 | VString string | VBlob "u8 list"

fun val_mem :: "bool \<Rightarrow> val \<Rightarrow> u8 list" where
  "val_mem le (VInt32 w) = mem_bytes le 4 (unat w)"
| "val_mem le (VInt64 w) = mem_bytes le 8 (unat w)"
| "val_mem le (VDouble w) = mem_bytes le 8 (unat w)"
| "val_mem le (VString s) = str_bytes s"
| "val_mem le (VBlob bs) = bs"

definition blob_subtype :: "int \<Rightarrow> string" where
  "blob_subtype t =
     (if t = CREST_TYPE_BINARY then ''00'' else if has_type t CREST_TYPE_INT32 then ''84''
      else if has_type t CREST_TYPE_DOUBLE then ''86'' else if has_type t CREST_TYPE_INT64 then ''85'' else ''83'')"

fun val_text :: "(u64 \<Rightarrow> string) \<Rightarrow> int \<Rightarrow> val \<Rightarrow> string" where
  "val_text dbl t (VInt32 w) = show_int (sint w)"
| "val_text dbl t (VInt64 w) = ''{\"$numberLong\":\"'' @ show_int (sint w) @ ''\"}''"
| "val_text dbl t (VDouble w) = ''{\"$numberDouble\":\"'' @ dbl w @ ''\"}''"
| "val_text dbl t (VString s) = ''\"'' @ s @ ''\"''"
| "val_text dbl t (VBlob bs) =
     ''{\"$binary\":{\"base64\":\"'' @ b64_spec bs @ ''\",\"subType\":\"'' @ blob_subtype t @ ''\"}}''
     @ (if t = CREST_TYPE_BINARY then ''}'' else [])"

fun val_fits :: "ds \<Rightarrow> val \<Rightarrow> bool" where
  "val_fits p (VInt32 w) \<longleftrightarrow> ds_type p = CREST_TYPE_INT32"
| "val_fits p (VInt64 w) \<longleftrightarrow> ds_type p = CREST_TYPE_INT64"
| "val_fits p (VDouble w) \<longleftrightarrow> ds_type p = CREST_TYPE_DOUBLE"
| "val_fits p (VString s) \<longleftrightarrow> ds_type p = CREST_TYPE_STRING \<and> no_nul s"
| "val_fits p (VBlob bs) \<longleftrightarrow> is_blob (ds_type p) \<and> ds_size p = int (length bs)"

text \<open>The size of the buffer after the update.\<close>

fun new_alloc :: "ds \<Rightarrow> val \<Rightarrow> int" where
  "new_alloc p (VBlob bs) =
     (let l = 4 * ((length bs + 2) div 3) in
      if int l > ds_alloc_size p then int (l + length (the (ds_format p))) else ds_alloc_size p)"
| "new_alloc p v = ds_alloc_size p"

text \<open>Attributes small enough for the \<open>int\<close> arithmetic on buffer sizes.\<close>

definition small_out :: "ds \<Rightarrow> bool" where
  "small_out a \<longleftrightarrow> ds_size a \<le> 2 ^ 28 \<and> ds_alloc_size a < 2 ^ 30"

lemma typeToFormat_exact [simp]:
  "typeToFormat CREST_TYPE_INT32 = Inr ''%d''"
  "typeToFormat CREST_TYPE_INT64 = Inr ''{\"$numberLong\":\"%lld\"}''"
  "typeToFormat CREST_TYPE_DOUBLE = Inr ''{\"$numberDouble\":\"%lf\"}''"
  "typeToFormat CREST_TYPE_STRING = Inr ''\"%s\"''"
  by (simp_all add: typeToFormat_def crest_consts)

lemma typeToFormat_blob:
  assumes "is_blob t" and "typeToFormat t = Inr f"
  shows "f = ''{\"$binary\":{\"base64\":\"'' @ ''%s'' @ (''\",\"subType\":\"'' @ blob_subtype t @ ''\"}}''
     @ (if t = CREST_TYPE_BINARY then ''}'' else []))"
proof -
  have "\<not> is_blob CREST_TYPE_INT32" "\<not> is_blob CREST_TYPE_INT64" "\<not> is_blob CREST_TYPE_DOUBLE"
    "\<not> is_blob CREST_TYPE_STRING" by (simp_all add: is_blob_def is_vector_def crest_consts)
  then have "t \<noteq> CREST_TYPE_INT32" "t \<noteq> CREST_TYPE_INT64" "t \<noteq> CREST_TYPE_DOUBLE" "t \<noteq> CREST_TYPE_STRING"
    using assms(1) by auto
  then show ?thesis using assms(2)
    by (auto simp: typeToFormat_def blob_subtype_def split: if_splits)
qed

lemma out_format_fits:
  "length nm + length f + 3 < 256 \<Longrightarrow> out_format nm f = (''\"'' @ nm @ ''\":'') @ f"
  by (simp add: out_format_def)

lemma store_fmt_text:
  assumes "ds_format p = Some (pre @ conv @ post)" and "ds_data p = Some old" and "0 < ds_alloc_size p"
    and "cfmt dbl (pre @ conv @ post) [arg] = Inr (pre @ s @ post)"
  shows "store_fmt dbl p arg = Inr (p\<lparr>ds_data := Some (sn_store (nat (ds_alloc_size p)) (pre @ s @ post))\<rparr>)"
  using assms by (simp add: store_fmt_def)

lemma percent_digits: "CHR ''%'' \<notin> set (blob_subtype t)"
  by (simp add: blob_subtype_def)

lemma grow_data_eq:
  assumes "small_out p" and "0 \<le> ds_alloc_size p" and "length bsa < 2 ^ 29" and "length f < 256"
    and "ds_format p = Some f" and "ds_data p = Some old" and "\<And>n. 0 < n \<Longrightarrow> mem n"
  shows "grow_data mem p bsa = Inr (p\<lparr>ds_alloc_size :=
           (if int (length bsa) > ds_alloc_size p then int (length bsa + length f) else ds_alloc_size p)\<rparr>)"
proof -
  have "c_int (int (length bsa) - ds_alloc_size p) = int (length bsa) - ds_alloc_size p"
    using assms by (intro c_int_id) (simp_all add: small_out_def)
  moreover have "c_int (int (length bsa) - ds_alloc_size p + int (length f))
      = int (length bsa) - ds_alloc_size p + int (length f)"
    using assms by (intro c_int_id) (simp_all add: small_out_def)
  moreover have "c_int (int (length bsa) + int (length f)) = int (length bsa) + int (length f)"
    using assms by (intro c_int_id) simp_all
  ultimately show ?thesis using assms
    by (simp add: grow_data_def Let_def alloc_int_def)
qed

lemma length_b64_small: "length bs \<le> 2 ^ 28 \<Longrightarrow> length (b64_spec bs) < 2 ^ 29"
proof -
  assume "length bs \<le> 2 ^ 28"
  then have "3 * ((length bs + 2) div 3) \<le> 2 ^ 28 + 2" by presburger
  then show ?thesis by (simp add: length_b64_spec)
qed

lemma update_value_text:
  assumes fmt: "typeToFormat (ds_type p) = Inr f" "ds_format p = Some (out_format nm f)"
    and nm: "CHR ''%'' \<notin> set nm" "length nm + length f + 3 < 256"
    and dat: "ds_data p = Some old" "0 < ds_alloc_size p" "small_out p"
    and fits: "val_fits p v" and mem: "\<And>n. 0 < n \<Longrightarrow> mem n"
  shows "update_value dbl le mem p (val_mem le v @ rest)
     = Inr (p\<lparr>ds_alloc_size := new_alloc p v,
              ds_data := Some (sn_store (nat (new_alloc p v)) ((''\"'' @ nm @ ''\":'') @ val_text dbl (ds_type p) v))\<rparr>)"
proof -
  let ?pre = "''\"'' @ nm @ ''\":''"
  have f: "ds_format p = Some (?pre @ f)" using fmt(2) nm(2) by (simp add: out_format_fits)
  have ne: "CREST_TYPE_INT64 \<noteq> CREST_TYPE_INT32" "CREST_TYPE_DOUBLE \<noteq> CREST_TYPE_INT32"
    "CREST_TYPE_DOUBLE \<noteq> CREST_TYPE_INT64" "CREST_TYPE_STRING \<noteq> CREST_TYPE_INT32"
    "CREST_TYPE_STRING \<noteq> CREST_TYPE_INT64" "CREST_TYPE_STRING \<noteq> CREST_TYPE_DOUBLE"
    by (simp_all add: crest_consts)
  have pre: "CHR ''%'' \<notin> set ?pre" using nm(1) by simp
  show ?thesis
  proof (cases v)
    case (VInt32 w)
    with fits fmt(1) have t: "ds_type p = CREST_TYPE_INT32" "f = ''%d''" by auto
    have "store_fmt dbl p (AInt i) = Inr (p\<lparr>ds_data := Some (sn_store (nat (ds_alloc_size p)) (?pre @ show_int i @ []))\<rparr>)" for i
      by (rule store_fmt_text [OF _ dat(1,2), of _ "''%d''"]) (simp add: f t, rule cfmt_one(1) [OF pre], simp)
    then show ?thesis
      using load_mem_word [of 4 le w rest] by (simp add: VInt32 t update_value_def)
  next
    case (VInt64 w)
    with fits fmt(1) have t: "ds_type p = CREST_TYPE_INT64" "f = ''{\"$numberLong\":\"'' @ ''%lld'' @ ''\"}''" by auto
    have "store_fmt dbl p (AInt i) = Inr (p\<lparr>ds_data := Some (sn_store (nat (ds_alloc_size p))
        ((?pre @ ''{\"$numberLong\":\"'') @ show_int i @ ''\"}''))\<rparr>)" for i
      by (rule store_fmt_text [OF _ dat(1,2), of _ "''%lld''"]) (simp add: f t, rule cfmt_one(2), use pre in simp_all)
    then show ?thesis
      using load_mem_word [of 8 le w rest] by (simp add: VInt64 t ne update_value_def)
  next
    case (VDouble w)
    with fits fmt(1) have t: "ds_type p = CREST_TYPE_DOUBLE" "f = ''{\"$numberDouble\":\"'' @ ''%lf'' @ ''\"}''" by auto
    have "store_fmt dbl p (ADouble d) = Inr (p\<lparr>ds_data := Some (sn_store (nat (ds_alloc_size p))
        ((?pre @ ''{\"$numberDouble\":\"'') @ dbl d @ ''\"}''))\<rparr>)" for d
      by (rule store_fmt_text [OF _ dat(1,2), of _ "''%lf''"]) (simp add: f t, rule cfmt_one(3), use pre in simp_all)
    then show ?thesis
      using load_mem_word [of 8 le w rest] by (simp add: VDouble t ne update_value_def)
  next
    case (VString s)
    with fits fmt(1) have t: "ds_type p = CREST_TYPE_STRING" "f = ''\"'' @ ''%s'' @ ''\"''" "no_nul s" by auto
    have "store_fmt dbl p (AStr s) = Inr (p\<lparr>ds_data := Some (sn_store (nat (ds_alloc_size p))
        ((?pre @ ''\"'') @ s @ ''\"''))\<rparr>)"
      by (rule store_fmt_text [OF _ dat(1,2), of _ "''%s''"]) (simp add: f t, rule cfmt_one(4), use pre in simp_all)
    then show ?thesis
      using load_str_bytes [OF t(3), of rest] by (simp add: VString t ne update_value_def)
  next
    case (VBlob bs)
    with fits have t: "is_blob (ds_type p)" "ds_size p = int (length bs)" by auto
    then have nt: "ds_type p \<noteq> CREST_TYPE_INT32" "ds_type p \<noteq> CREST_TYPE_INT64" "ds_type p \<noteq> CREST_TYPE_DOUBLE"
      "ds_type p \<noteq> CREST_TYPE_STRING" by (auto simp: is_blob_def is_vector_def crest_consts)
    have enc: "encode_blob mem (ds_size p) (bs @ rest) = Inr (Some (b64_spec bs))"
      using mem by (simp add: encode_blob_def t b64_encode_total)
    let ?q = "p\<lparr>ds_alloc_size := new_alloc p v\<rparr>" and ?b1 = "''{\"$binary\":{\"base64\":\"''"
    let ?b2 = "''\",\"subType\":\"'' @ blob_subtype (ds_type p) @ ''\"}}''
      @ (if ds_type p = CREST_TYPE_BINARY then ''}'' else [])"
    have small: "length (b64_spec bs) < 2 ^ 29"
      using dat(3) t(2) by (intro length_b64_small) (simp add: small_out_def)
    have grow: "grow_data mem p (b64_spec bs) = Inr ?q"
      using grow_data_eq [OF dat(3) less_imp_le [OF dat(2)] small _ f dat(1), of mem] mem nm(2)
      by (simp add: VBlob length_b64_spec f Let_def)
    have f2: "ds_format ?q = Some ((?pre @ ?b1) @ ''%s'' @ ?b2)"
      using f typeToFormat_blob [OF t(1) fmt(1)] by simp
    have "0 < new_alloc p v" using dat(2) by (simp add: VBlob Let_def)
    then have "store_fmt dbl ?q (AStr (b64_spec bs)) = Inr (?q\<lparr>ds_data := Some (sn_store (nat (ds_alloc_size ?q))
        ((?pre @ ?b1) @ b64_spec bs @ ?b2))\<rparr>)"
      by (intro store_fmt_text [OF f2 _ _ cfmt_one(4)]) (use pre percent_digits dat in auto)
    then show ?thesis
      using nt t(1) enc grow by (simp add: VBlob update_value_def)
  qed
qed

section \<open>Frame and invariant\<close>

lemma store_fmt_frame:
  "store_fmt dbl p arg = Inr q \<Longrightarrow> \<exists>d. q = p\<lparr>ds_data := d\<rparr>"
  by (auto simp: store_fmt_def rbind_eq_Inr_iff guard_res_eq_Inr_iff split: option.splits if_splits
      intro: exI [of _ "ds_data p"])

lemma store_fmt_wf:
  assumes "store_fmt dbl p arg = Inr q" and "wf_out p"
  shows "wf_out q"
proof -
  have "int (length (sn_store (nat (ds_alloc_size p)) s)) < ds_alloc_size p" if "0 < ds_alloc_size p" for s
    using that length_sn_store [of "nat (ds_alloc_size p)" s] by simp
  then show ?thesis using assms
    by (auto simp: store_fmt_def rbind_eq_Inr_iff guard_res_eq_Inr_iff wf_out_def split: option.splits if_splits)
qed

lemma store_fmt_data:
  "store_fmt dbl p arg = Inr q \<Longrightarrow> 0 < ds_alloc_size p \<Longrightarrow> ds_data p \<noteq> None"
  by (auto simp: store_fmt_def rbind_eq_Inr_iff split: option.splits)

lemma out_format_length: "length (out_format nm f) < 256"
  unfolding out_format_def by (rule length_sn_store) simp

lemma update_value_wf:
  assumes upd: "update_value dbl le mem p m = Inr q" and wf: "wf_out p" and small: "small_out p"
  shows "wf_out q \<and> small_out q \<and> ds_name q = ds_name p \<and> ds_type q = ds_type p"
proof -
  have st: "wf_out q' \<and> small_out q' \<and> ds_name q' = ds_name p' \<and> ds_type q' = ds_type p'"
    if "store_fmt dbl p' arg = Inr q'" "wf_out p'" "small_out p'" for p' q' arg
    using store_fmt_wf [OF that(1,2)] store_fmt_frame [OF that(1)] that(3) by (auto simp: small_out_def)
  have gr: "\<exists>q'. wf_out q' \<and> small_out q' \<and> ds_name q' = ds_name p \<and> ds_type q' = ds_type p
      \<and> store_fmt dbl q' (AStr bsa) = Inr q"
    if "grow_data mem p bsa = Inr p'" "store_fmt dbl p' (AStr bsa) = Inr q" "length bsa < 2 ^ 29" for p' bsa
  proof (cases "int (length bsa) > ds_alloc_size p")
    case True
    obtain nm sf where f: "ds_format p = Some (out_format nm sf)"
      and t: "typeToFormat (ds_type p) = Inr sf" using wf by (auto simp: wf_out_def)
    have a: "c_int (int (length bsa) - ds_alloc_size p) = int (length bsa) - ds_alloc_size p"
      using wf that(3) small by (intro c_int_id) (auto simp: small_out_def wf_out_def)
    let ?al = "int (length bsa + length (out_format nm sf))"
    note fl = out_format_length [of nm sf]
    have b: "c_int (int (length bsa) - ds_alloc_size p + int (length (out_format nm sf)))
       = int (length bsa) - ds_alloc_size p + int (length (out_format nm sf))" and c: "c_int ?al = ?al"
      using wf that(3) small fl by (auto intro!: c_int_id simp: small_out_def wf_out_def)
    have p': "p' = p\<lparr>ds_alloc_size := ?al,
        ds_data := (if ?al \<noteq> 0 \<and> alloc_int mem ?al then Some (case ds_data p of Some old \<Rightarrow> old | None \<Rightarrow> []) else None)\<rparr>"
      using that(1) a b c f True by (simp add: grow_data_def Let_def)
    have pos: "0 < ?al" using True wf by (simp add: wf_out_def)
    then have "ds_data p' \<noteq> None" using store_fmt_data [OF that(2)] by (simp add: p')
    then have "ds_data p' = ds_data p" using p' wf by (auto simp: wf_out_def split: if_splits)
    then have p2: "p' = p\<lparr>ds_alloc_size := ?al\<rparr>" using p' by auto
    have "wf_out p'" unfolding p2 using wf True by (auto simp: wf_out_def)
    moreover have "small_out p'" unfolding p2 using small that(3) fl by (simp add: small_out_def)
    ultimately show ?thesis using that(2) p2 by (intro exI [of _ p']) simp
  next
    case False
    moreover have "c_int (int (length bsa) - ds_alloc_size p) = int (length bsa) - ds_alloc_size p"
      using wf False small by (intro c_int_id) (auto simp: small_out_def wf_out_def)
    ultimately have "p' = p" using that(1) by (simp add: grow_data_def)
    then show ?thesis using that(2) wf small by blast
  qed
  have enc: "length bsa < 2 ^ 29" if "encode_blob mem (ds_size p) m = Inr (Some bsa)" for bsa
  proof -
    from that have "bsa = b64_spec (take (nat (ds_size p)) m)" "0 \<le> ds_size p"
      using b64_encode_outcomes_aux [of mem "take (nat (ds_size p)) m"]
      by (auto simp: encode_blob_def split: if_splits)
    moreover have "length (take (nat (ds_size p)) m) \<le> 2 ^ 28"
      using small by (simp add: small_out_def) linarith
    ultimately show ?thesis using length_b64_small by blast
  qed
  show ?thesis using upd wf small st gr enc
    unfolding update_value_def
    by (fastforce simp: rbind_eq_Inr_iff split: if_splits option.splits)
qed

lemma list_all_update: "list_all P xs \<Longrightarrow> P y \<Longrightarrow> list_all P (xs[i := y])"
  by (auto simp: list_all_iff dest: set_update_subset_insert [THEN subsetD])

definition small_handle :: "handle \<Rightarrow> bool" where
  "small_handle h \<longleftrightarrow>
     list_all (\<lambda>s. case s of Some c \<Rightarrow> list_all small_out (cu_outds c) | None \<Rightarrow> True) (h_cus h)"

lemma slot_ok:
  assumes "wf_handle h" and "\<not> bad_uid h uid"
  obtains c where "cu_slot h (unat uid - 1) = Inr c" and "wf_cu c"
    and "unat uid - 1 < length (h_cus h)" and "h_cus h ! (unat uid - 1) = Some c"
proof -
  have "unat uid \<noteq> 0" "unat uid \<le> h_ncus h" using assms(2) by (simp_all add: bad_uid_def unat_eq_zero)
  then have i: "unat uid - 1 < h_ncus h" by linarith
  then have "unat uid - 1 < length (h_cus h)" using assms(1) by (simp add: wf_handle_def)
  with wf_handle_slot [OF assms(1) i] that show thesis by blast
qed

lemma update_attribute_ok:
  assumes "wf_cu c" and "0 \<le> i" and "i < cu_nout c"
  shows "update_attribute dbl le mem c i m =
     rbind (update_value dbl le mem (cu_outds c ! nat i) m) (\<lambda>p'. Inr (c\<lparr>cu_outds := (cu_outds c)[nat i := p']\<rparr>, 0))"
  using assms by (simp add: update_attribute_def wf_cu_def)

lemma update_attribute_wf:
  assumes "update_attribute dbl le mem c i m = Inr (c', r)" and "wf_cu c" and "list_all small_out (cu_outds c)"
  shows "wf_cu c' \<and> list_all small_out (cu_outds c')"
proof (cases "0 \<le> i \<and> i < cu_nout c")
  case True
  then have i: "nat i < length (cu_outds c)" using assms(2) unfolding wf_cu_def by linarith
  from True assms(1) obtain p' where p': "update_value dbl le mem (cu_outds c ! nat i) m = Inr p'"
    and c': "c' = c\<lparr>cu_outds := (cu_outds c)[nat i := p']\<rparr>"
    by (auto simp: update_attribute_ok [OF assms(2)] rbind_eq_Inr_iff)
  have "wf_out (cu_outds c ! nat i)" "small_out (cu_outds c ! nat i)"
    using i assms(2,3) by (auto simp: wf_cu_def list_all_length)
  from update_value_wf [OF p' this] show ?thesis
    using assms(2,3) by (simp add: c' wf_cu_def list_all_update)
next
  case False
  then show ?thesis using assms by (auto simp: update_attribute_def)
qed

lemma set_cu_wf:
  assumes "wf_handle h" and "small_handle h" and "wf_cu c" and "list_all small_out (cu_outds c)"
  shows "wf_handle (set_cu h i c) \<and> small_handle (set_cu h i c)"
  using assms by (auto simp: wf_handle_def small_handle_def set_cu_def intro!: list_all_update)

lemma small_slot:
  "small_handle h \<Longrightarrow> i < length (h_cus h) \<Longrightarrow> h_cus h ! i = Some c \<Longrightarrow> list_all small_out (cu_outds c)"
  unfolding small_handle_def list_all_length by (drule spec [of _ i]) simp

lemma find_attr_step:
  assumes "wf_cu c" and "0 \<le> j" and "j < cu_nout c" and "ds_name (cu_outds c ! nat j) = Some x"
  shows "find_attr c name j = (if x = name then Inr (Some j) else find_attr c name (j + 1))"
proof -
  have "attr_at (cu_outds c) (nat j) = Inr (cu_outds c ! nat j)"
    using assms(1-3) unfolding wf_cu_def by (intro attr_at_Inr) linarith
  then show ?thesis using assms(3,4) by (subst find_attr.simps) (simp only: rbind_Inr if_True option.simps)
qed

lemma find_attr_hit:
  assumes "wf_cu c" and "0 \<le> j" and "j \<le> i" and "i < cu_nout c"
    and "ds_name (cu_outds c ! nat i) = Some name"
    and "\<And>k. j \<le> k \<Longrightarrow> k < i \<Longrightarrow> \<exists>x. ds_name (cu_outds c ! nat k) = Some x \<and> x \<noteq> name"
  shows "find_attr c name j = Inr (Some i)"
  using assms
proof (induction "nat (i - j)" arbitrary: j)
  case 0
  then have "j = i" by simp
  with "0.prems" find_attr_step [of c i name name] show ?case by simp
next
  case (Suc n)
  then have j: "j < i" by simp
  with Suc.prems(6) [of j] obtain x where "ds_name (cu_outds c ! nat j) = Some x" "x \<noteq> name" by auto
  moreover have "find_attr c name (j + 1) = Inr (Some i)"
    using Suc.hyps(2) j Suc.prems by (intro Suc.hyps(1)) auto
  ultimately show ?case using Suc.prems(1,2,4) j find_attr_step [of c j x name] by simp
qed

lemma find_attr_miss:
  assumes "wf_cu c" and "0 \<le> j" and "\<And>p. p \<in> set (cu_outds c) \<Longrightarrow> \<exists>x. ds_name p = Some x \<and> x \<noteq> name"
  shows "find_attr c name j = Inr None"
  using assms
proof (induction "nat (cu_nout c - j)" arbitrary: j)
  case 0
  then have "\<not> j < cu_nout c" by linarith
  then show ?case by (subst find_attr.simps) (simp only: if_False)
next
  case (Suc n)
  then have j: "j < cu_nout c" by simp
  have "nat j < length (cu_outds c)" using j Suc.prems(1,2) unfolding wf_cu_def by linarith
  then have "cu_outds c ! nat j \<in> set (cu_outds c)" by (rule nth_mem)
  with Suc.prems(3) obtain x where "ds_name (cu_outds c ! nat j) = Some x" "x \<noteq> name" by blast
  moreover have "find_attr c name (j + 1) = Inr None"
    using Suc.hyps(2) j Suc.prems by (intro Suc.hyps(1)) auto
  ultimately show ?case using Suc.prems(1,2) j find_attr_step [of c j x name] by simp
qed

section \<open>Properties of updates\<close>

text \<open>
  C6. Updating an output attribute with a value of its type, on a machine of either byte
  order: the attribute's text becomes the JSON member of that value, cut to the size of the
  buffer (which grows first when a base64 text is longer than the whole buffer); no other
  attribute, control unit or statistic changes, and the call returns 0.
\<close>

theorem update_writes_value:
  assumes "wf_handle h" and "\<not> bad_uid h uid" and "cu_slot h (unat uid - 1) = Inr c"
    and "0 \<le> i" and "i < cu_nout c" and "p = cu_outds c ! nat i"
    and "typeToFormat (ds_type p) = Inr f" and "ds_format p = Some (out_format nm f)"
    and "CHR ''%'' \<notin> set nm" and "length nm + length f + 3 < 256"
    and "0 < ds_alloc_size p" and "small_out p" and "val_fits p v" and "\<And>n. 0 < n \<Longrightarrow> mem n"
  shows "chaos_crest_update dbl le mem h uid i (val_mem le v @ rest)
     = Inr (set_cu h (unat uid - 1) (c\<lparr>cu_outds := (cu_outds c)[nat i :=
              p\<lparr>ds_alloc_size := new_alloc p v,
                ds_data := Some (sn_store (nat (new_alloc p v))
                   ((''\"'' @ nm @ ''\":'') @ val_text dbl (ds_type p) v))\<rparr>]\<rparr>), 0)"
proof -
  have c: "wf_cu c" using slot_ok [OF assms(1,2)] assms(3) by (metis sum.inject(2))
  then have "wf_out p" using assms(4-6) by (auto simp: wf_cu_def list_all_length)
  then obtain old where "ds_data p = Some old" by (auto simp: wf_out_def)
  from update_value_text [OF assms(7-10) this assms(11-13)] assms(14)
  have "update_value dbl le mem p (val_mem le v @ rest) = Inr (p\<lparr>ds_alloc_size := new_alloc p v,
    ds_data := Some (sn_store (nat (new_alloc p v)) ((''\"'' @ nm @ ''\":'') @ val_text dbl (ds_type p) v))\<rparr>)"
    by blast
  then show ?thesis using assms(2,3)
    by (simp add: chaos_crest_update_def Let_def update_attribute_ok [OF c assms(4,5)] flip: assms(6))
qed

definition ex_attr :: ds where
  "ex_attr = \<lparr>ds_name = Some ''temp'', ds_desc = Some '''', ds_type = 1, ds_size = 29,
     ds_format = Some (out_format ''temp'' ''%d''), ds_data = Some [], ds_alloc_size = 64\<rparr>"

definition ex_cu :: cu where
  "ex_cu = \<lparr>cu_name = Some ''CU'', cu_inds = [], cu_nin = 0, cu_outds = [ex_attr], cu_nout = 1, cu_maxbufsize = 0\<rparr>"

definition ex_h1 :: handle where
  "ex_h1 = ex_handle\<lparr>h_cus := [Some ex_cu], h_ncus := 1\<rparr>"

lemma ex_h1_facts:
  "wf_handle ex_h1" "small_handle ex_h1" "\<not> bad_uid ex_h1 1" "cu_slot ex_h1 0 = Inr ex_cu" "wf_cu ex_cu"
proof -
  have "typeToFormat 1 = Inr ''%d''" by (simp add: typeToFormat_def crest_consts)
  then have "wf_out ex_attr" by (auto simp: wf_out_def ex_attr_def)
  then show w: "wf_cu ex_cu" by (simp add: wf_cu_def ex_cu_def)
  then show "wf_handle ex_h1" by (simp add: wf_handle_def ex_h1_def)
  show "small_handle ex_h1" by (simp add: small_handle_def ex_h1_def ex_cu_def ex_attr_def small_out_def)
  show "\<not> bad_uid ex_h1 1" by (simp add: bad_uid_def ex_h1_def)
  show "cu_slot ex_h1 0 = Inr ex_cu" by (simp add: cu_slot_def ex_h1_def)
qed

theorem update_writes_value_witness:
  "chaos_crest_update (\<lambda>d. ''1.5'') True (\<lambda>n. True) ex_h1 1 0 (val_mem True (VInt32 (- 7)) @ [])
     = Inr (set_cu ex_h1 (unat (1::u32) - 1) (ex_cu\<lparr>cu_outds := (cu_outds ex_cu)[nat 0 :=
              ex_attr\<lparr>ds_alloc_size := new_alloc ex_attr (VInt32 (- 7)),
                ds_data := Some (sn_store (nat (new_alloc ex_attr (VInt32 (- 7))))
                   ((''\"'' @ ''temp'' @ ''\":'') @ val_text (\<lambda>d. ''1.5'') (ds_type ex_attr) (VInt32 (- 7))))\<rparr>]\<rparr>), 0)"
  by (rule update_writes_value [where f = "''%d''", OF ex_h1_facts(1,3)])
     (use ex_h1_facts in \<open>simp_all add: ex_cu_def ex_attr_def typeToFormat_def crest_consts small_out_def\<close>)

text \<open>
  Refused updates leave the handle as it is: an unknown uid (0 included) gives -8 from
  both calls, an attribute index outside the outputs gives -7, and a name that no output
  attribute has gives -9.
\<close>

theorem update_refused:
  assumes "wf_handle h"
  shows "(bad_uid h uid \<longrightarrow> chaos_crest_update dbl le mem h uid i m = Inr (h, - 8)
            \<and> chaos_crest_update_by_name dbl le mem h uid name m = Inr (h, - 8))
    \<and> (\<forall>c. \<not> bad_uid h uid \<and> cu_slot h (unat uid - 1) = Inr c \<and> (i < 0 \<or> int (length (cu_outds c)) \<le> i) \<longrightarrow>
           chaos_crest_update dbl le mem h uid i m = Inr (h, - 7))
    \<and> (\<forall>c. \<not> bad_uid h uid \<and> cu_slot h (unat uid - 1) = Inr c
           \<and> list_all (\<lambda>p. case ds_name p of Some x \<Rightarrow> x \<noteq> name | None \<Rightarrow> False) (cu_outds c) \<longrightarrow>
           chaos_crest_update_by_name dbl le mem h uid name m = Inr (h, - 9))"
proof (intro conjI allI impI)
  fix c assume a: "\<not> bad_uid h uid \<and> cu_slot h (unat uid - 1) = Inr c \<and> (i < 0 \<or> int (length (cu_outds c)) \<le> i)"
  then obtain c' where c: "cu_slot h (unat uid - 1) = Inr c'" "wf_cu c'" "unat uid - 1 < length (h_cus h)"
    "h_cus h ! (unat uid - 1) = Some c'" using slot_ok [OF assms] by blast
  with a have "c' = c" by simp
  moreover have "set_cu h (unat uid - 1) c' = h" using c(3,4) by (metis handle.unfold_congs(2) handle.surjective handle.update_convs(2) list_update_id set_cu_def)
  ultimately show "chaos_crest_update dbl le mem h uid i m = Inr (h, - 7)"
    using a c by (auto simp: chaos_crest_update_def Let_def update_attribute_def wf_cu_def)
next
  fix c assume a: "\<not> bad_uid h uid \<and> cu_slot h (unat uid - 1) = Inr c
    \<and> list_all (\<lambda>p. case ds_name p of Some x \<Rightarrow> x \<noteq> name | None \<Rightarrow> False) (cu_outds c)"
  then have "wf_cu c" using slot_ok [OF assms] by (metis sum.inject(2))
  then have "find_attr c name 0 = Inr None"
    using a by (intro find_attr_miss) (fastforce simp: list_all_iff split: option.splits)+
  then show "chaos_crest_update_by_name dbl le mem h uid name m = Inr (h, - 9)"
    using a by (simp add: chaos_crest_update_by_name_def Let_def)
qed (simp_all add: chaos_crest_update_def chaos_crest_update_by_name_def)

theorem update_refused_witness:
  "chaos_crest_update (\<lambda>d. []) True (\<lambda>n. True) ex_h1 2 0 [] = Inr (ex_h1, - 8)
   \<and> chaos_crest_update (\<lambda>d. []) True (\<lambda>n. True) ex_h1 1 1 [] = Inr (ex_h1, - 7)
   \<and> chaos_crest_update_by_name (\<lambda>d. []) True (\<lambda>n. True) ex_h1 1 ''x'' [] = Inr (ex_h1, - 9)"
proof -
  have "bad_uid ex_h1 2" by (simp add: bad_uid_def ex_h1_def)
  moreover have "int (length (cu_outds ex_cu)) \<le> 1" by (simp add: ex_cu_def)
  moreover have "list_all (\<lambda>p. case ds_name p of Some x \<Rightarrow> x \<noteq> ''x'' | None \<Rightarrow> False) (cu_outds ex_cu)"
    by (simp add: ex_cu_def ex_attr_def)
  moreover have "cu_slot ex_h1 (unat (1::u32) - 1) = Inr ex_cu" using ex_h1_facts by simp
  ultimately show ?thesis using ex_h1_facts(3) update_refused [OF ex_h1_facts(1)] by blast
qed

text \<open>
  Updating by name is updating by index, at the first output attribute with the name.
\<close>

theorem update_by_name_first:
  assumes "wf_handle h" and "\<not> bad_uid h uid" and "cu_slot h (unat uid - 1) = Inr c"
    and "0 \<le> i" and "i < cu_nout c" and "ds_name (cu_outds c ! nat i) = Some name"
    and "\<And>k. 0 \<le> k \<Longrightarrow> k < i \<Longrightarrow> \<exists>x. ds_name (cu_outds c ! nat k) = Some x \<and> x \<noteq> name"
  shows "chaos_crest_update_by_name dbl le mem h uid name m = chaos_crest_update dbl le mem h uid i m"
proof -
  have "wf_cu c" using slot_ok [OF assms(1,2)] assms(3) by (metis sum.inject(2))
  then have "find_attr c name 0 = Inr (Some i)" using assms(4-7) by (intro find_attr_hit) auto
  then show ?thesis using assms(2,3) by (simp add: chaos_crest_update_by_name_def chaos_crest_update_def Let_def)
qed

theorem update_by_name_first_witness:
  "chaos_crest_update_by_name (\<lambda>d. []) True (\<lambda>n. True) ex_h1 1 ''temp'' [1, 0, 0, 0]
     = chaos_crest_update (\<lambda>d. []) True (\<lambda>n. True) ex_h1 1 0 [1, 0, 0, 0]"
  by (rule update_by_name_first [where c = ex_cu])
     (use ex_h1_facts in \<open>simp_all add: ex_cu_def ex_attr_def\<close>)

lemma update_keeps_wf_aux:
  assumes "wf_handle h" and "small_handle h"
    and "chaos_crest_update dbl le mem h uid i m = Inr (h', r)
         \<or> chaos_crest_update_by_name dbl le mem h uid name m = Inr (h', r)"
  shows "wf_handle h' \<and> small_handle h'"
proof (cases "bad_uid h uid")
  case True
  then show ?thesis using assms by (auto simp: chaos_crest_update_def chaos_crest_update_by_name_def)
next
  case False
  then obtain c where c: "cu_slot h (unat uid - 1) = Inr c" "wf_cu c" "unat uid - 1 < length (h_cus h)"
    "h_cus h ! (unat uid - 1) = Some c" using slot_ok [OF assms(1)] by blast
  then have "list_all small_out (cu_outds c)" using small_slot [OF assms(2)] by blast
  with c update_attribute_wf have "wf_cu c' \<and> list_all small_out (cu_outds c')"
    if "update_attribute dbl le mem c j m = Inr (c', r')" for j c' r'
    using that by blast
  then show ?thesis using assms False c(1) set_cu_wf [OF assms(1,2)]
    by (auto simp: chaos_crest_update_def chaos_crest_update_by_name_def Let_def rbind_eq_Inr_iff
        split: option.splits)
qed

text \<open>
  C7. Every update that returns, whatever its arguments and whatever the memory behind
  \<open>data\<close> holds, keeps the handle well-formed: each text stays inside its buffer.
\<close>

theorem update_keeps_wf:
  assumes "wf_handle h" and "small_handle h"
    and "chaos_crest_update dbl le mem h uid i m = Inr (h', r)
         \<or> chaos_crest_update_by_name dbl le mem h uid name m = Inr (h', r)"
  shows "wf_handle h' \<and> small_handle h'"
  using assms by (rule update_keeps_wf_aux)

definition ex_updated :: "handle \<times> int" where
  "ex_updated = projr (chaos_crest_update (\<lambda>d. []) True (\<lambda>n. True) ex_h1 1 0 [1, 0, 0, 0])"

lemma ex_updated_run:
  "chaos_crest_update (\<lambda>d. []) True (\<lambda>n. True) ex_h1 1 0 [1, 0, 0, 0] = Inr (fst ex_updated, snd ex_updated)"
proof -
  have "\<exists>x. chaos_crest_update (\<lambda>d. []) True (\<lambda>n. True) ex_h1 1 0 [1, 0, 0, 0] = Inr x"
    using ex_h1_facts(3,4)
    by (simp add: chaos_crest_update_def update_attribute_def ex_cu_def attr_at_def ex_attr_def update_value_def
        crest_consts load_bytes_def store_fmt_def out_format_def)
  then show ?thesis unfolding ex_updated_def by auto
qed

theorem update_keeps_wf_witness: "wf_handle (fst ex_updated) \<and> small_handle (fst ex_updated)"
  by (rule update_keeps_wf [OF ex_h1_facts(1,2), where name = "''temp''"]) (rule disjI1, rule ex_updated_run)

section \<open>Properties of closing\<close>

definition out_objs :: "nat \<Rightarrow> nat \<Rightarrow> ds \<Rightarrow> obj list" where
  "out_objs i j a = free_opt (ds_name a) (OOutName i j) @ free_opt (ds_desc a) (OOutDesc i j)
     @ free_opt (ds_format a) (OOutFormat i j) @ free_opt (ds_data a) (OOutData i j)"

definition in_objs :: "nat \<Rightarrow> nat \<Rightarrow> ds \<Rightarrow> obj list" where
  "in_objs i j a = free_opt (ds_name a) (OInName i j) @ free_opt (ds_desc a) (OInDesc i j)"

definition cu_objs :: "nat \<Rightarrow> cu \<Rightarrow> obj list" where
  "cu_objs i c = free_opt (cu_name c) (OCuName i)
     @ concat (map (\<lambda>j. out_objs i j (cu_outds c ! j)) [0..<length (cu_outds c)])
     @ concat (map (\<lambda>j. in_objs i j (cu_inds c ! j)) [0..<length (cu_inds c)])
     @ free_array (cu_inds c) (OInds i) @ free_array (cu_outds c) (OOutds i)"

lemma free_outs_eq:
  "j + n \<le> length dss \<Longrightarrow>
     free_outs i dss j n = Inr (concat (map (\<lambda>k. out_objs i k (dss ! k)) [j..<j + n]))"
proof (induction n arbitrary: j)
  case (Suc n)
  then have "free_outs i dss (j + 1) n = Inr (concat (map (\<lambda>k. out_objs i k (dss ! k)) [Suc j..<Suc j + n]))" by simp
  moreover have "[j..<j + Suc n] = j # [Suc j..<Suc j + n]" by (simp add: upt_conv_Cons)
  ultimately show ?case using Suc.prems by (simp add: out_objs_def)
qed simp

lemma free_ins_eq:
  "j + n \<le> length dss \<Longrightarrow>
     free_ins i dss j n = Inr (concat (map (\<lambda>k. in_objs i k (dss ! k)) [j..<j + n]))"
proof (induction n arbitrary: j)
  case (Suc n)
  then have "free_ins i dss (j + 1) n = Inr (concat (map (\<lambda>k. in_objs i k (dss ! k)) [Suc j..<Suc j + n]))" by simp
  moreover have "[j..<j + Suc n] = j # [Suc j..<Suc j + n]" by (simp add: upt_conv_Cons)
  ultimately show ?case using Suc.prems by (simp add: in_objs_def)
qed simp

lemma free_cu_eq: "wf_cu c \<Longrightarrow> free_cu i c = Inr (cu_objs i c)"
  by (simp add: free_cu_def wf_cu_def free_outs_eq free_ins_eq cu_objs_def)

lemma free_cus_eq:
  "wf_handle h \<Longrightarrow> i + n \<le> h_ncus h \<Longrightarrow>
     free_cus h i n = Inr (concat (map (\<lambda>k. cu_objs k (the (h_cus h ! k))) [i..<i + n]))"
proof (induction n arbitrary: i)
  case (Suc n)
  obtain c where c: "h_cus h ! i = Some c" "cu_slot h i = Inr c" "wf_cu c"
    using wf_handle_slot [OF Suc.prems(1), of i] Suc.prems(2) by auto
  have "free_cus h (i + 1) n = Inr (concat (map (\<lambda>k. cu_objs k (the (h_cus h ! k))) [Suc i..<Suc i + n]))"
    using Suc by simp
  moreover have "[i..<i + Suc n] = i # [Suc i..<Suc i + n]" by (simp add: upt_conv_Cons)
  ultimately show ?case using c by (simp add: free_cu_eq)
qed simp

lemma distinct_concat_map:
  assumes "distinct xs" and "\<And>x. x \<in> set xs \<Longrightarrow> distinct (f x)"
    and "\<And>x y. x \<in> set xs \<Longrightarrow> y \<in> set xs \<Longrightarrow> x \<noteq> y \<Longrightarrow> set (f x) \<inter> set (f y) = {}"
  shows "distinct (concat (map f xs))"
  using assms by (induction xs) (fastforce dest: spec)+

lemma set_free_opt [simp]: "x \<in> set (free_opt p y) \<longleftrightarrow> p \<noteq> None \<and> x = y"
  by (auto simp: free_opt_def split: option.splits)

lemma set_free_array [simp]: "x \<in> set (free_array dss y) \<longleftrightarrow> dss \<noteq> [] \<and> x = y"
  by (simp add: free_array_def)

lemma distinct_free_opt [simp]: "distinct (free_opt p y)" "distinct (free_array dss y)"
  by (simp_all add: free_opt_def free_array_def split: option.splits)

lemma mem_out_objs: "x \<in> set (out_objs i j a) \<longleftrightarrow>
    (ds_name a \<noteq> None \<and> x = OOutName i j) \<or> (ds_desc a \<noteq> None \<and> x = OOutDesc i j)
    \<or> (ds_format a \<noteq> None \<and> x = OOutFormat i j) \<or> (ds_data a \<noteq> None \<and> x = OOutData i j)"
  by (simp add: out_objs_def)

lemma mem_in_objs: "x \<in> set (in_objs i j a) \<longleftrightarrow>
    (ds_name a \<noteq> None \<and> x = OInName i j) \<or> (ds_desc a \<noteq> None \<and> x = OInDesc i j)"
  by (simp add: in_objs_def)

lemma distinct_attr_objs: "distinct (out_objs i j a)" "distinct (in_objs i j a)"
  by (auto simp: out_objs_def in_objs_def disjoint_iff simp del: not_None_eq)

text \<open>What a handle owns: every object behind one of its pointers that is not null.\<close>

fun owned_by :: "nat \<Rightarrow> cu \<Rightarrow> obj \<Rightarrow> bool" where
  "owned_by i c (OCuName k) \<longleftrightarrow> k = i \<and> cu_name c \<noteq> None"
| "owned_by i c (OInds k) \<longleftrightarrow> k = i \<and> cu_inds c \<noteq> []"
| "owned_by i c (OOutds k) \<longleftrightarrow> k = i \<and> cu_outds c \<noteq> []"
| "owned_by i c (OOutName k j) \<longleftrightarrow> k = i \<and> j < length (cu_outds c) \<and> ds_name (cu_outds c ! j) \<noteq> None"
| "owned_by i c (OOutDesc k j) \<longleftrightarrow> k = i \<and> j < length (cu_outds c) \<and> ds_desc (cu_outds c ! j) \<noteq> None"
| "owned_by i c (OOutFormat k j) \<longleftrightarrow> k = i \<and> j < length (cu_outds c) \<and> ds_format (cu_outds c ! j) \<noteq> None"
| "owned_by i c (OOutData k j) \<longleftrightarrow> k = i \<and> j < length (cu_outds c) \<and> ds_data (cu_outds c ! j) \<noteq> None"
| "owned_by i c (OInName k j) \<longleftrightarrow> k = i \<and> j < length (cu_inds c) \<and> ds_name (cu_inds c ! j) \<noteq> None"
| "owned_by i c (OInDesc k j) \<longleftrightarrow> k = i \<and> j < length (cu_inds c) \<and> ds_desc (cu_inds c ! j) \<noteq> None"
| "owned_by i c _ \<longleftrightarrow> False"

definition owned :: "handle \<Rightarrow> obj \<Rightarrow> bool" where
  "owned h x \<longleftrightarrow> x = OHandle \<or> (x = OWanUrl \<and> h_wan_url h \<noteq> None) \<or> (x = OCus \<and> h_cus h \<noteq> [])
     \<or> (\<exists>i < h_ncus h. owned_by i (the (h_cus h ! i)) x)"

lemma mem_cu_objs: "x \<in> set (cu_objs i c) \<longleftrightarrow> owned_by i c x"
  by (cases x) (auto simp: cu_objs_def mem_out_objs mem_in_objs simp del: not_None_eq)

lemma distinct_cu_objs: "distinct (cu_objs i c)"
proof -
  have "distinct (concat (map (\<lambda>j. out_objs i j (cu_outds c ! j)) [0..<length (cu_outds c)]))"
    by (rule distinct_concat_map) (auto simp: distinct_attr_objs mem_out_objs)
  moreover have "distinct (concat (map (\<lambda>j. in_objs i j (cu_inds c ! j)) [0..<length (cu_inds c)]))"
    by (rule distinct_concat_map) (auto simp: distinct_attr_objs mem_in_objs)
  ultimately show ?thesis
    by (auto simp: cu_objs_def mem_out_objs mem_in_objs simp del: not_None_eq)
qed

lemma owned_by_index: "owned_by i c x \<Longrightarrow> owned_by j d x \<Longrightarrow> i = j"
  by (cases x) auto

text \<open>
  C8. Closing a well-formed handle returns 0 and gives to \<open>free\<close> exactly the objects the
  handle owns, each of them once: no leak and no double free.
\<close>

theorem close_frees_all_once:
  assumes "wf_handle h"
  shows "\<exists>xs. chaos_crest_close h = Inr (xs, 0) \<and> distinct xs \<and> (\<forall>x. x \<in> set xs \<longleftrightarrow> owned h x)"
proof -
  let ?cs = "concat (map (\<lambda>k. cu_objs k (the (h_cus h ! k))) [0..<h_ncus h])"
  have run: "free_cus h 0 (h_ncus h) = Inr ?cs" using free_cus_eq [OF assms, of 0 "h_ncus h"] by simp
  have d: "distinct ?cs"
    by (rule distinct_concat_map) (auto simp: distinct_cu_objs mem_cu_objs dest: owned_by_index)
  have mem: "x \<in> set ?cs \<longleftrightarrow> (\<exists>i < h_ncus h. owned_by i (the (h_cus h ! i)) x)" for x
    by (auto simp: mem_cu_objs)
  have "OHandle \<notin> set ?cs" "OCus \<notin> set ?cs" "OWanUrl \<notin> set ?cs" unfolding mem by simp_all
  with d have "distinct (?cs @ (if h_cus h = [] then [] else [OCus]) @ free_opt (h_wan_url h) OWanUrl @ [OHandle])"
    by (auto simp del: set_concat)
  moreover have "x \<in> set (?cs @ (if h_cus h = [] then [] else [OCus]) @ free_opt (h_wan_url h) OWanUrl @ [OHandle])
      \<longleftrightarrow> owned h x" for x
    by (auto simp only: set_append Un_iff mem owned_def set_free_opt split: if_splits) auto
  ultimately show ?thesis by (simp only: chaos_crest_close_def run rbind_Inr) blast
qed

theorem close_frees_all_once_witness:
  "\<exists>xs. chaos_crest_close ex_h1 = Inr (xs, 0) \<and> distinct xs \<and> (\<forall>x. x \<in> set xs \<longleftrightarrow> owned ex_h1 x)"
  by (rule close_frees_all_once [OF ex_h1_facts(1)])

end
