(* ===== verification/CrestHttp.thy ===== *)
theory CrestHttp
  imports CrestDs
begin

text \<open>
  The HTTP transport of \<open>chaos_crest.c\<close> on the mongoose library: the event handler
  \<open>ev_handler\<close>, \<open>http_post\<close> with its polling loop, and the two calls that post a JSON text
  as it is. What the network does is a parameter: the events that mongoose delivers to the
  handler in each call of \<open>mg_mgr_poll\<close>.
\<close>

section \<open>Events\<close>

datatype ev =
    EvConnect int                 \<comment> \<open>\<open>MG_EV_CONNECT\<close> with the status of the connection\<close>
  | EvReply int "u8 list"         \<comment> \<open>\<open>MG_EV_HTTP_REPLY\<close> with the response code and the body\<close>
  | EvClose                       \<comment> \<open>\<open>MG_EV_CLOSE\<close>\<close>
  | EvOther                       \<comment> \<open>every other event\<close>

text \<open>
  \<open>s_exit_flag\<close>, the user data that the manager holds and the flag \<open>MG_F_SEND_AND_CLOSE\<close>
  of the connection. \<open>UsDangling\<close> is a pointer to the \<open>userdata_t\<close> of an earlier call of
  \<open>http_post\<close>, which has returned.
\<close>

datatype user_data = UsNull | UsDangling | UsBuf "u8 list" int

record post_st =
  ps_exit :: int
  ps_user :: user_data
  ps_close :: bool

text \<open>\<open>memcpy (dst, src, n)\<close> on the bytes of the two objects.\<close>

definition c_memcpy :: "u8 list \<Rightarrow> u8 list \<Rightarrow> nat \<Rightarrow> u8 list res" where
  "c_memcpy dst src n =
     (if n \<le> length dst \<and> n \<le> length src then Inr (take n src @ drop n dst) else Inl OutOfBounds)"

text \<open>An \<open>int\<close> converted to \<open>size_t\<close> for the comparison with \<open>body.len\<close>.\<close>

definition size_of_int :: "int \<Rightarrow> nat" where
  "size_of_int i = nat (i mod 2 ^ 64)"

fun ev_handler :: "ev \<Rightarrow> post_st \<Rightarrow> post_st res" where
  "ev_handler (EvConnect status) st = Inr (if status \<noteq> 0 then st\<lparr>ps_exit := - 1\<rparr> else st)"
| "ev_handler (EvReply code body) st =
     rbind (case ps_user st of
              UsNull \<Rightarrow> Inr UsNull
            | UsDangling \<Rightarrow> Inl Uninit
            | UsBuf buf l \<Rightarrow>
                rbind (c_memcpy buf body (if length body < size_of_int l then length body else size_of_int l))
                  (\<lambda>buf'. Inr (UsBuf buf' l)))
       (\<lambda>u. Inr (st\<lparr>ps_user := u, ps_close := True, ps_exit := code\<rparr>))"
| "ev_handler EvClose st = Inr st"
| "ev_handler EvOther st = Inr st"

fun handle_events :: "ev list \<Rightarrow> post_st \<Rightarrow> post_st res" where
  "handle_events [] st = Inr st"
| "handle_events (e # es) st = rbind (ev_handler e st) (handle_events es)"

section \<open>Posting\<close>

text \<open>
  The world around the library: what mongoose delivers at each poll of each post (posts are
  numbered by \<open>w_posts\<close>, the log of URLs and bodies handed to \<open>mg_connect_http\<close>), the
  results of successive calls of \<open>gettimeofday\<close>, and whether the user data of the manager
  was set by an earlier call.
\<close>

record world =
  w_net :: "nat \<Rightarrow> nat \<Rightarrow> ev list"
  w_clock :: "nat \<Rightarrow> u64 \<times> u64"
  w_ticks :: nat
  w_posts :: "(string \<times> string) list"
  w_user_set :: bool

partial_function (option) post_loop :: "(nat \<Rightarrow> ev list) \<Rightarrow> nat \<Rightarrow> post_st \<Rightarrow> post_st res option" where
  "post_loop polls n st =
     (if ps_exit st \<noteq> 0 then Some (Inr st)
      else (case handle_events (polls n) st of
              Inl e \<Rightarrow> Some (Inl e)
            | Inr st' \<Rightarrow> post_loop polls (n + 1) st'))"

definition exit_code :: "int \<Rightarrow> int" where
  "exit_code flag = (if flag = 200 then 0 else flag)"

text \<open>
  \<open>None\<close> is a call that does not return. The buffer \<open>rx\<close> has its real size, \<open>rsizeb\<close> is what
  the caller says; the new contents of the buffer are returned.
\<close>

definition http_post ::
  "world \<Rightarrow> handle \<Rightarrow> string \<Rightarrow> string \<Rightarrow> u8 list option \<Rightarrow> int \<Rightarrow> (world \<times> u8 list option \<times> int) res option" where
  "http_post w h api trx rx rsizeb =
     (case h_wan_url h of None \<Rightarrow> Some (Inl NullDeref)
      | Some url \<Rightarrow>
     (case rx of Some [] \<Rightarrow> Some (Inl OutOfBounds) | _ \<Rightarrow>
        let s_url = sn_store 256 (url @ api);
            user = (case rx of Some buf \<Rightarrow> UsBuf (buf[0 := 0]) rsizeb
                    | None \<Rightarrow> if w_user_set w then UsDangling else UsNull);
            polls = w_net w (length (w_posts w));
            w' = w\<lparr>w_posts := w_posts w @ [(s_url, trx)], w_user_set := w_user_set w \<or> rx \<noteq> None\<rparr>
        in case post_loop polls 0 \<lparr>ps_exit = 0, ps_user = user, ps_close = False\<rparr> of
             None \<Rightarrow> None
           | Some (Inl e) \<Rightarrow> Some (Inl e)
           | Some (Inr st) \<Rightarrow>
               Some (Inr (w', (case ps_user st of UsBuf buf _ \<Rightarrow> Some buf | _ \<Rightarrow> None), exit_code (ps_exit st)))))"

definition MAXBUFFER :: nat where "MAXBUFFER = 8192"

text \<open>\<open>junk\<close> is what the stack holds where \<open>buffer_rx\<close> is.\<close>

definition json_post ::
  "string \<Rightarrow> u8 list \<Rightarrow> world \<Rightarrow> handle \<Rightarrow> string \<Rightarrow> string \<Rightarrow> (world \<times> int) res option" where
  "json_post path junk w h cu_uid json_ds =
     (case http_post w h (sn_store MAXBUFFER (path @ cu_uid)) json_ds (Some junk) (int MAXBUFFER) of
        None \<Rightarrow> None
      | Some (Inl e) \<Rightarrow> Some (Inl e)
      | Some (Inr (w', _, ret)) \<Rightarrow> Some (Inr (w', if ret = 0 then 0 else ret)))"

definition chaos_crest_json_register ::
  "u8 list \<Rightarrow> world \<Rightarrow> handle \<Rightarrow> string \<Rightarrow> string \<Rightarrow> (world \<times> int) res option" where
  "chaos_crest_json_register = json_post ''/api/v1/producer/jsonregister/''"

definition chaos_crest_json_push ::
  "u8 list \<Rightarrow> world \<Rightarrow> handle \<Rightarrow> string \<Rightarrow> string \<Rightarrow> (world \<times> int) res option" where
  "chaos_crest_json_push = json_post ''/api/v1/producer/jsoninsert/''"

text \<open>\<open>getEpoch\<close>: milliseconds from the seconds and microseconds of \<open>gettimeofday\<close>.\<close>

definition epoch_of :: "u64 \<times> u64 \<Rightarrow> u64" where
  "epoch_of t = fst t * 1000 + snd t div 1000"

definition getEpoch :: "world \<Rightarrow> u64 \<times> world" where
  "getEpoch w = (epoch_of (w_clock w (w_ticks w)), w\<lparr>w_ticks := w_ticks w + 1\<rparr>)"

section \<open>The polling loop\<close>

text \<open>Events that leave \<open>s_exit_flag\<close> as it is or set it to 0.\<close>

fun idle_event :: "ev \<Rightarrow> bool" where
  "idle_event (EvConnect status) \<longleftrightarrow> status = 0"
| "idle_event (EvReply code body) \<longleftrightarrow> False"
| "idle_event _ \<longleftrightarrow> True"

lemma handle_events_append:
  "handle_events (xs @ ys) st = rbind (handle_events xs st) (handle_events ys)"
proof (induction xs arbitrary: st)
  case (Cons x xs)
  then show ?case by (cases "ev_handler x st") simp_all
qed simp

lemma handle_idle: "list_all idle_event es \<Longrightarrow> handle_events es st = Inr st"
proof (induction es)
  case (Cons e es)
  then show ?case by (cases e) simp_all
qed simp

lemma post_loop_Some_exits:
  assumes "post_loop polls n st = Some r"
  shows "(\<forall>k. list_all idle_event (polls k)) \<longrightarrow> ps_exit st \<noteq> 0"
proof (rule post_loop.raw_induct [OF _ assms, where P = "\<lambda>polls n st r. (\<forall>k. list_all idle_event (polls k)) \<longrightarrow> ps_exit st \<noteq> 0"])
  fix loop polls n st r
  assume IH: "\<And>polls n st r. loop polls n st = Some r \<Longrightarrow> (\<forall>k. list_all idle_event (polls k)) \<longrightarrow> ps_exit st \<noteq> 0"
    and step: "(if ps_exit st \<noteq> 0 then Some (Inr st)
         else case handle_events (polls n) st of Inl e \<Rightarrow> Some (Inl e) | Inr st' \<Rightarrow> loop polls (n + 1) st') = Some r"
  show "(\<forall>k. list_all idle_event (polls k)) \<longrightarrow> ps_exit st \<noteq> 0"
  proof (intro impI notI)
    assume idle: "\<forall>k. list_all idle_event (polls k)" and z: "ps_exit st = 0"
    then have "loop polls (n + 1) st = Some r" using step by (simp add: handle_idle)
    from IH [OF this] idle z show False by simp
  qed
qed

lemma post_loop_idle_None:
  assumes "\<And>k. list_all idle_event (polls k)" and "ps_exit st = 0"
  shows "post_loop polls n st = None"
proof (cases "post_loop polls n st")
  case (Some r)
  with post_loop_Some_exits [OF Some] assms show ?thesis by simp
qed

lemma post_loop_exit: "ps_exit st \<noteq> 0 \<Longrightarrow> post_loop polls n st = Some (Inr st)"
  by (subst post_loop.simps) simp

lemma post_loop_wait:
  assumes "\<And>k. n \<le> k \<Longrightarrow> k < n + m \<Longrightarrow> list_all idle_event (polls k)" and "ps_exit st = 0"
  shows "post_loop polls n st = post_loop polls (n + m) st"
  using assms
proof (induction m arbitrary: n)
  case (Suc m)
  have "list_all idle_event (polls n)" using Suc.prems(1) by simp
  then have "post_loop polls n st = post_loop polls (n + 1) st"
    by (subst post_loop.simps) (simp add: handle_idle Suc.prems(2))
  also have "\<dots> = post_loop polls (n + 1 + m) st" using Suc.prems by (intro Suc.IH) auto
  finally show ?case by simp
qed simp

text \<open>The first poll that is not idle ends the loop as soon as it sets the flag.\<close>

lemma post_loop_ends:
  assumes "\<And>k. k < m \<Longrightarrow> list_all idle_event (polls k)" and "ps_exit st = 0"
    and "handle_events (polls m) st = Inr st'" and "ps_exit st' \<noteq> 0"
  shows "post_loop polls 0 st = Some (Inr st')"
proof -
  have "post_loop polls 0 st = post_loop polls m st" using post_loop_wait [of 0 m polls st] assms(1,2) by simp
  also have "\<dots> = post_loop polls (m + 1) st'" using assms(2,3) by (subst post_loop.simps) simp
  finally show ?thesis using post_loop_exit [OF assms(4)] by simp
qed

lemma size_of_int_nat: "n < 2 ^ 31 \<Longrightarrow> size_of_int (int n) = n"
  by (simp add: size_of_int_def nat_mod_as_int [symmetric] flip: zmod_int)

lemma handle_reply:
  assumes "list_all idle_event pre" and "list_all idle_event post" and "length buf < 2 ^ 31"
  shows "handle_events (pre @ EvReply code body # post) \<lparr>ps_exit = 0, ps_user = UsBuf buf (int (length buf)), ps_close = False\<rparr>
     = Inr \<lparr>ps_exit = code, ps_user = UsBuf (take (length buf) body @ drop (length body) buf) (int (length buf)), ps_close = True\<rparr>"
  using assms by (simp add: handle_events_append handle_idle size_of_int_nat c_memcpy_def)

section \<open>Properties\<close>

lemma http_post_reply_aux:
  assumes "h_wan_url h = Some url" and "buf \<noteq> []" and "length buf < 2 ^ 31" and "code \<noteq> 0"
    and "\<And>k. k < m \<Longrightarrow> list_all idle_event (w_net w (length (w_posts w)) k)"
    and "w_net w (length (w_posts w)) m = pre @ EvReply code body # post"
    and "list_all idle_event pre" and "list_all idle_event post"
  shows "http_post w h api trx (Some buf) (int (length buf)) =
    Some (Inr (w\<lparr>w_posts := w_posts w @ [(sn_store 256 (url @ api), trx)], w_user_set := True\<rparr>,
               Some (take (length buf) body @ drop (length body) (buf[0 := 0])),
               if code = 200 then 0 else code))"
proof -
  let ?st = "\<lparr>ps_exit = 0, ps_user = UsBuf (buf[0 := 0]) (int (length buf)), ps_close = False\<rparr>"
  have "handle_events (w_net w (length (w_posts w)) m) ?st
    = Inr \<lparr>ps_exit = code, ps_user = UsBuf (take (length buf) body @ drop (length body) (buf[0 := 0])) (int (length buf)),
           ps_close = True\<rparr>"
    using handle_reply [of pre post "buf[0 := 0]"] assms by simp
  then have "post_loop (w_net w (length (w_posts w))) 0 ?st
    = Some (Inr \<lparr>ps_exit = code, ps_user = UsBuf (take (length buf) body @ drop (length body) (buf[0 := 0])) (int (length buf)),
           ps_close = True\<rparr>)"
    using assms(4,5) by (intro post_loop_ends) auto
  then show ?thesis using assms(1,2)
    by (cases buf) (simp_all add: http_post_def Let_def exit_code_def)
qed

text \<open>
  C9. A post is answered: after any number of idle polls a reply with a code other than 0
  arrives (with idle events around it in the same poll). Then the call returns, with 0
  exactly for the code 200 and the code itself otherwise; one request went out, to the base
  URL followed by the path, cut to 255 characters; and the receive buffer starts with as
  much of the body as fits, with the rest of it as it was: no terminator is written.
\<close>

theorem http_post_reply:
  assumes "h_wan_url h = Some url" and "buf \<noteq> []" and "length buf < 2 ^ 31" and "code \<noteq> 0"
    and "\<And>k. k < m \<Longrightarrow> list_all idle_event (w_net w (length (w_posts w)) k)"
    and "w_net w (length (w_posts w)) m = pre @ EvReply code body # post"
    and "list_all idle_event pre" and "list_all idle_event post"
  shows "http_post w h api trx (Some buf) (int (length buf)) =
    Some (Inr (w\<lparr>w_posts := w_posts w @ [(sn_store 256 (url @ api), trx)], w_user_set := True\<rparr>,
               Some (take (length buf) body @ drop (length body) (buf[0 := 0])),
               if code = 200 then 0 else code))"
  using assms by (rule http_post_reply_aux)

definition ex_world :: "(nat \<Rightarrow> ev list) \<Rightarrow> world" where
  "ex_world net = \<lparr>w_net = (\<lambda>_. net), w_clock = (\<lambda>n. (of_nat n, 0)), w_ticks = 0, w_posts = [], w_user_set = False\<rparr>"

theorem http_post_reply_witness:
  "http_post (ex_world (\<lambda>k. if k = 2 then [EvOther] @ EvReply 200 [123, 125] # [EvClose] else [EvConnect 0]))
     ex_handle ''/x'' ''{}'' (Some [9, 9, 9]) 3 =
   Some (Inr ((ex_world (\<lambda>k. if k = 2 then [EvOther] @ EvReply 200 [123, 125] # [EvClose] else [EvConnect 0]))
               \<lparr>w_posts := [(''localhost:8081/x'', ''{}'')], w_user_set := True\<rparr>, Some [123, 125, 9], 0))"
  using http_post_reply [of ex_handle "''localhost:8081''" "[9, 9, 9]" 200 2
    "ex_world (\<lambda>k. if k = 2 then [EvOther] @ EvReply 200 [123, 125] # [EvClose] else [EvConnect 0])"
    "[EvOther]" "[123, 125]" "[EvClose]" "''/x''" "''{}''"]
  by (simp add: ex_world_def ex_handle_def)

text \<open>
  C10. A refused connection makes the post return -1 (the receive buffer holds the empty
  string); but when neither a reply nor a failed connection is ever reported, as when the
  server closes the connection without answering or the connection object could not be
  made, the post never returns.
\<close>

theorem http_post_no_reply:
  assumes "h_wan_url h = Some url" and "rx \<noteq> Some []"
  shows "((\<forall>k. list_all idle_event (w_net w (length (w_posts w)) k)) \<longrightarrow> http_post w h api trx rx n = None)
    \<and> (\<forall>m pre status post. (\<forall>k < m. list_all idle_event (w_net w (length (w_posts w)) k))
         \<and> w_net w (length (w_posts w)) m = pre @ EvConnect status # post \<and> status \<noteq> 0
         \<and> list_all idle_event pre \<and> list_all idle_event post \<longrightarrow>
         (\<exists>w'. http_post w h api trx rx n = Some (Inr (w', map_option (\<lambda>b. b[0 := 0]) rx, - 1))))"
proof (intro conjI impI allI)
  assume "\<forall>k. list_all idle_event (w_net w (length (w_posts w)) k)"
  then have "post_loop (w_net w (length (w_posts w))) 0 \<lparr>ps_exit = 0, ps_user = u, ps_close = False\<rparr> = None" for u
    by (intro post_loop_idle_None) simp_all
  then show "http_post w h api trx rx n = None"
    using assms by (auto simp: http_post_def Let_def split: option.splits list.splits)
next
  fix m pre status post
  assume a: "(\<forall>k < m. list_all idle_event (w_net w (length (w_posts w)) k))
         \<and> w_net w (length (w_posts w)) m = pre @ EvConnect status # post \<and> status \<noteq> 0
         \<and> list_all idle_event pre \<and> list_all idle_event post"
  have "post_loop (w_net w (length (w_posts w))) 0 \<lparr>ps_exit = 0, ps_user = u, ps_close = False\<rparr>
     = Some (Inr \<lparr>ps_exit = - 1, ps_user = u, ps_close = False\<rparr>)" for u
    using a by (intro post_loop_ends [where m = m]) (auto simp: handle_events_append handle_idle)
  then show "\<exists>w'. http_post w h api trx rx n = Some (Inr (w', map_option (\<lambda>b. b[0 := 0]) rx, - 1))"
    using assms by (auto simp: http_post_def Let_def exit_code_def split: option.splits list.splits)
qed

theorem http_post_no_reply_witness:
  "http_post (ex_world (\<lambda>k. [EvClose])) ex_handle ''/x'' ''{}'' (Some [9]) 1 = None
   \<and> (\<exists>w'. http_post (ex_world (\<lambda>k. [] @ EvConnect 111 # [EvClose])) ex_handle ''/x'' ''{}'' (Some [9]) 1
        = Some (Inr (w', Some [0], - 1)))"
proof
  have u: "h_wan_url ex_handle = Some ''localhost:8081''" by (simp add: ex_handle_def)
  show "http_post (ex_world (\<lambda>k. [EvClose])) ex_handle ''/x'' ''{}'' (Some [9]) 1 = None"
    using http_post_no_reply [OF u, of "Some [9]"] by (simp add: ex_world_def)
  show "\<exists>w'. http_post (ex_world (\<lambda>k. [] @ EvConnect 111 # [EvClose])) ex_handle ''/x'' ''{}'' (Some [9]) 1
        = Some (Inr (w', Some [0], - 1))"
    using http_post_no_reply [OF u, of "Some [9]" "ex_world (\<lambda>k. [] @ EvConnect 111 # [EvClose])" "''/x''" "''{}''" 1,
        THEN conjunct2, rule_format, of 0 "[]" 111 "[EvClose]"]
    by (simp add: ex_world_def)
qed

text \<open>
  The calls that post a JSON text as it is: each sends that text in one request to the
  path of the operation followed by the uid, and returns 0 exactly when the reply has code
  200, otherwise the code.
\<close>

theorem json_calls_result:
  assumes "h_wan_url h = Some url" and "length junk = MAXBUFFER" and "code \<noteq> 0"
    and "\<And>k. k < m \<Longrightarrow> list_all idle_event (w_net w (length (w_posts w)) k)"
    and "w_net w (length (w_posts w)) m = pre @ EvReply code body # post"
    and "list_all idle_event pre" and "list_all idle_event post"
    and "length url + 34 + length uid < 256"
  shows "chaos_crest_json_register junk w h uid js
      = Some (Inr (w\<lparr>w_posts := w_posts w @ [(url @ ''/api/v1/producer/jsonregister/'' @ uid, js)], w_user_set := True\<rparr>,
                   if code = 200 then 0 else code))
    \<and> chaos_crest_json_push junk w h uid js
      = Some (Inr (w\<lparr>w_posts := w_posts w @ [(url @ ''/api/v1/producer/jsoninsert/'' @ uid, js)], w_user_set := True\<rparr>,
                   if code = 200 then 0 else code))"
proof -
  have "junk \<noteq> []" using assms(2) by (auto simp: MAXBUFFER_def)
  then have post: "\<exists>b. http_post w h (path @ uid) js (Some junk) (int (length junk)) =
    Some (Inr (w\<lparr>w_posts := w_posts w @ [(url @ path @ uid, js)], w_user_set := True\<rparr>, b, if code = 200 then 0 else code))"
    if "length path \<le> 34" for path
    using http_post_reply_aux [OF assms(1) _ _ assms(3-7), of junk] that assms(2,8)
    by (simp add: MAXBUFFER_def)
  have "json_post path junk w h uid js
      = Some (Inr (w\<lparr>w_posts := w_posts w @ [(url @ path @ uid, js)], w_user_set := True\<rparr>,
                   if code = 200 then 0 else code))" if "length path \<le> 34" for path
    using post [OF that] that assms(2,8) by (auto simp: json_post_def MAXBUFFER_def)
  then show ?thesis by (simp add: chaos_crest_json_register_def chaos_crest_json_push_def)
qed

theorem json_calls_result_witness:
  "\<exists>w'. chaos_crest_json_register (replicate MAXBUFFER 0) (ex_world (\<lambda>k. [] @ EvReply 404 [] # [])) ex_handle ''CU'' ''{}''
     = Some (Inr (w', 404)) \<and> w_posts w' = [(''localhost:8081/api/v1/producer/jsonregister/CU'', ''{}'')]"
  using json_calls_result [of ex_handle "''localhost:8081''" "replicate MAXBUFFER 0" 404 0
    "ex_world (\<lambda>k. [] @ EvReply 404 [] # [])" "[]" "[]" "[]" "''CU''" "''{}''"]
  by (simp add: ex_world_def ex_handle_def)

end
