(* ===== verification/CrestPush.thy ===== *)
theory CrestPush
  imports CrestUpdate CrestHttp
begin

text \<open>
  Registering and pushing data sets: \<open>push_cu_int\<close> builds the JSON object in a heap buffer
  whose size is the sum of the attribute buffers and posts it; \<open>register_cu\<close>,
  \<open>chaos_crest_register\<close>, \<open>chaos_crest_push\<close> and the time statistics.
  The result of an operation is \<open>None\<close> when it does not return.
\<close>

type_synonym 'a run = "'a res option"

definition run_bind :: "'a run \<Rightarrow> ('a \<Rightarrow> 'b run) \<Rightarrow> 'b run" where
  "run_bind x f = (case x of None \<Rightarrow> None | Some (Inl e) \<Rightarrow> Some (Inl e) | Some (Inr a) \<Rightarrow> f a)"

lemma run_bind_simps [simp, c_simps]:
  "run_bind None f = None" "run_bind (Some (Inl e)) f = Some (Inl e)" "run_bind (Some (Inr a)) f = f a"
  by (simp_all add: run_bind_def)

lemma run_bind_eq_Inr_iff: "run_bind x f = Some (Inr b) \<longleftrightarrow> (\<exists>a. x = Some (Inr a) \<and> f a = Some (Inr b))"
  by (auto simp: run_bind_def split: option.splits sum.splits)

lemma run_bind_InrE:
  assumes "run_bind x f = Some (Inr b)"
  obtains a where "x = Some (Inr a)" and "f a = Some (Inr b)"
  using assms by (auto simp: run_bind_eq_Inr_iff)

lemma run_bind_fault: "\<exists>e. x = Inl e \<Longrightarrow> \<exists>e. run_bind (Some x) f = Some (Inl e)"
  by auto

section \<open>The text of a push\<close>

definition push_header :: "int \<Rightarrow> string \<Rightarrow> int \<Rightarrow> u64 \<Rightarrow> u64 \<Rightarrow> int \<Rightarrow> string" where
  "push_header mode name dtype npush ts nports =
     ''{\"ndk_uid\":\"'' @ name @ ''\",\"dpck_ds_type\":'' @ show_int dtype
     @ (if mode > 0 then [] else '',\"cudk_ds_attr_dir\":'' @ show_int (if dtype = 0 then 1 else 0))
     @ '',\"dpck_seq_id\":{\"$numberLong\":\"'' @ show_nat (unat npush)
     @ ''\"},\"dpck_ats\":{\"$numberLong\":\"'' @ show_nat (unat ts) @ ''\"}''
     @ (if nports > 0 then '','' else [])"

text \<open>\<open>dump_attribute_value\<close> at the end of the text \<open>buf\<close> in a buffer of \<open>cap\<close> bytes.\<close>

definition dump_attribute_value :: "nat \<Rightarrow> string \<Rightarrow> ds \<Rightarrow> bool \<Rightarrow> string res" where
  "dump_attribute_value cap buf attr is_last =
     (case ds_data attr of None \<Rightarrow> Inl NullDeref
      | Some d \<Rightarrow> Inr (buf @ sn_store (cap - length buf) (d @ (if is_last then [] else '',''))))"

function dump_values :: "nat \<Rightarrow> ds list \<Rightarrow> int \<Rightarrow> int \<Rightarrow> string \<Rightarrow> string res" where
  "dump_values cap dataset nports cnt buf =
     (if cnt < nports then
        rbind (attr_at dataset (nat cnt)) (\<lambda>a.
        rbind (dump_attribute_value cap buf a (cnt + 1 = nports)) (dump_values cap dataset nports (cnt + 1)))
      else Inr buf)"
  by auto

termination by (relation "measure (\<lambda>(cap, dataset, nports, cnt, buf). nat (nports - cnt))") auto

declare dump_values.simps [simp del]

text \<open>The sum of the buffer sizes, in an \<open>int\<close>.\<close>

function sum_alloc :: "ds list \<Rightarrow> int \<Rightarrow> int \<Rightarrow> int \<Rightarrow> int res" where
  "sum_alloc dataset nports cnt sz =
     (if cnt < nports then
        rbind (attr_at dataset (nat cnt)) (\<lambda>a. sum_alloc dataset nports (cnt + 1) (c_int (sz + ds_alloc_size a)))
      else Inr sz)"
  by auto

termination by (relation "measure (\<lambda>(dataset, nports, cnt, sz). nat (nports - cnt))") auto

declare sum_alloc.simps [simp del]

text \<open>
  The buffer is filled: \<open>malloc\<close> is not checked, the pieces are cut to what is left, and the
  closing brace is appended by \<open>strcat\<close>, which needs room for it and the terminator. With
  a size of 0 nothing is ever stored in the buffer, and \<open>strcat\<close> reads outside it.
\<close>

definition push_text ::
  "allocator \<Rightarrow> int \<Rightarrow> string option \<Rightarrow> int \<Rightarrow> u64 \<Rightarrow> u64 \<Rightarrow> ds list \<Rightarrow> int \<Rightarrow> string res" where
  "push_text mem mode name dtype npush ts dataset nports =
     rbind (sum_alloc dataset nports 0 0) (\<lambda>sz.
     case name of None \<Rightarrow> Inl NullDeref
     | Some nm \<Rightarrow>
       if sz = 0 then Inl (if mem 0 then OutOfBounds else NullDeref)
       else guard_res (alloc_int mem sz) NullDeref
         (rbind (dump_values (nat sz) dataset nports 0
                   (sn_store (nat sz) (push_header mode nm dtype npush ts nports))) (\<lambda>buf.
          guard_res (length buf + 2 \<le> nat sz) OutOfBounds (Inr (buf @ ''}'')))))"

section \<open>Pushing\<close>

definition push_stats :: "handle \<Rightarrow> u32 \<Rightarrow> handle" where
  "push_stats p t =
     p\<lparr>h_tot_push_time := h_tot_push_time p + ucast t,
       h_max_push := (if t > h_max_push p then t else h_max_push p),
       h_min_push := (if t < h_min_push p \<and> t > 0 then t else h_min_push p),
       h_npush := h_npush p + 1\<rparr>"

text \<open>
  On failure the receive buffer is printed as a string, so there has to be a NUL in it.
  \<open>junk\<close> is what the stack holds where the buffer is.
\<close>

definition push_send ::
  "u8 list \<Rightarrow> u64 \<Rightarrow> world \<Rightarrow> handle \<Rightarrow> string \<Rightarrow> string \<Rightarrow> (world \<times> handle \<times> int) run" where
  "push_send junk ts w p url text =
     run_bind (http_post w p url text (Some junk) 8192) (\<lambda>(w2, rx, err).
       if err = 0 then
         let (now, w3) = getEpoch w2 in Some (Inr (w3, push_stats p (ucast (now - ts)), 0))
       else Some (guard_res (\<exists>b. rx = Some b \<and> 0 \<in> set b) OutOfBounds (Inr (w2, p, - 9))))"

definition push_cu_int ::
  "allocator \<Rightarrow> u8 list \<Rightarrow> world \<Rightarrow> handle \<Rightarrow> u32 \<Rightarrow> int \<Rightarrow> int \<Rightarrow> (world \<times> handle \<times> int) run" where
  "push_cu_int mem junk w p uid mode dtype =
     (if bad_uid p uid then Some (Inr (w, p, - 8))
      else run_bind (Some (cu_slot p (unat uid - 1))) (\<lambda>cu.
        let (ts, w1) = getEpoch w;
            nports = (if dtype = 0 then cu_nout cu else cu_nin cu);
            dataset = (if dtype = 0 then cu_outds cu else cu_inds cu);
            p1 = (if mode > 0 then p else p\<lparr>h_npush := 0\<rparr>);
            url = (if mode > 0 then ''/api/v1/producer/jsoninsert'' else ''/api/v1/producer/jsonregister'')
        in run_bind (Some (push_text mem mode (cu_name cu) dtype (h_npush p1) ts dataset nports))
             (push_send junk ts w1 p1 url)))"

section \<open>Registering\<close>

definition double_1_2 :: u64 where "double_1_2 = 0x3FF3333333333333"

definition default_arg :: "int \<Rightarrow> carg" where
  "default_arg t =
     (if t = CREST_TYPE_INT32 then AInt 0 else if t = CREST_TYPE_INT64 then AInt 0
      else if t = CREST_TYPE_DOUBLE then ADouble double_1_2 else AStr [])"

function reset_values :: "(u64 \<Rightarrow> string) \<Rightarrow> int \<Rightarrow> int \<Rightarrow> ds list \<Rightarrow> ds list res" where
  "reset_values dbl n cnt dss =
     (if cnt < n then
        rbind (attr_at dss (nat cnt)) (\<lambda>a.
        rbind (store_fmt dbl a (default_arg (ds_type a))) (\<lambda>a'.
        reset_values dbl n (cnt + 1) (dss[nat cnt := a'])))
      else Inr dss)"
  by auto

termination by (relation "measure (\<lambda>(dbl, n, cnt, dss). nat (n - cnt))") auto

declare reset_values.simps [simp del]

definition register_cu ::
  "(u64 \<Rightarrow> string) \<Rightarrow> allocator \<Rightarrow> u8 list \<Rightarrow> world \<Rightarrow> handle \<Rightarrow> u32 \<Rightarrow> (world \<times> handle \<times> int) run" where
  "register_cu dbl mem junk w p uid =
     (if bad_uid p uid then Some (Inr (w, p, - 8))
      else let i = unat uid - 1 in
        run_bind (Some (cu_slot p i)) (\<lambda>c.
        run_bind (Some (reset_values dbl (cu_nout c) 0 (cu_outds c))) (\<lambda>outs.
        run_bind (push_cu_int mem junk w (set_cu p i (c\<lparr>cu_outds := outs\<rparr>)) uid 0 0) (\<lambda>(w1, p1, ret).
        run_bind (Some (reset_values dbl (cu_nin c) 0 (cu_inds c))) (\<lambda>ins.
        let p2 = set_cu p1 i (c\<lparr>cu_outds := outs, cu_inds := ins\<rparr>) in
        if cu_nin c \<noteq> 0 then
          run_bind (push_cu_int mem junk w1 p2 uid 0 1) (\<lambda>(w2, p3, ret'). Some (Inr (w2, p3, ret + ret')))
        else Some (Inr (w1, p2, ret)))))))"

text \<open>The loop over all control units stops at the first result that is not 0.\<close>

fun each_cu ::
  "(world \<Rightarrow> handle \<Rightarrow> u32 \<Rightarrow> (world \<times> handle \<times> int) run) \<Rightarrow> nat \<Rightarrow> nat \<Rightarrow> world \<Rightarrow> handle
     \<Rightarrow> (world \<times> handle \<times> int) run" where
  "each_cu f cnt 0 w p = Some (Inr (w, p, 0))"
| "each_cu f cnt (Suc n) w p =
     run_bind (f w p (of_nat (cnt + 1))) (\<lambda>(w', p', ret).
       if ret \<noteq> 0 then Some (Inr (w', p', ret)) else each_cu f (cnt + 1) n w' p')"

definition chaos_crest_register ::
  "(u64 \<Rightarrow> string) \<Rightarrow> allocator \<Rightarrow> u8 list \<Rightarrow> world \<Rightarrow> handle \<Rightarrow> u32 \<Rightarrow> (world \<times> handle \<times> int) run" where
  "chaos_crest_register dbl mem junk w p uid =
     (if uid = 0 then each_cu (register_cu dbl mem junk) 0 (h_ncus p) w p
      else register_cu dbl mem junk w p uid)"

definition push_cu ::
  "allocator \<Rightarrow> u8 list \<Rightarrow> int \<Rightarrow> world \<Rightarrow> handle \<Rightarrow> u32 \<Rightarrow> (world \<times> handle \<times> int) run" where
  "push_cu mem junk dstype w p uid = push_cu_int mem junk w p uid 1 dstype"

definition chaos_crest_push ::
  "allocator \<Rightarrow> u8 list \<Rightarrow> world \<Rightarrow> handle \<Rightarrow> u32 \<Rightarrow> int \<Rightarrow> (world \<times> handle \<times> int) run" where
  "chaos_crest_push mem junk w p uid dstype =
     (if uid = 0 then each_cu (push_cu mem junk dstype) 0 (h_ncus p) w p
      else push_cu mem junk dstype w p uid)"

text \<open>
  The averages: \<open>quot\<close> is the division of the two counters in floating point, \<open>zero\<close> the
  float 0. \<open>chaos_crest_push_time\<close> also stores the maximum and the minimum when asked.
\<close>

definition chaos_crest_push_time :: "(u64 \<Rightarrow> u64 \<Rightarrow> 'f) \<Rightarrow> 'f \<Rightarrow> handle \<Rightarrow> bool \<Rightarrow> bool \<Rightarrow> u32 option \<times> u32 option \<times> 'f" where
  "chaos_crest_push_time quot zero p want_max want_min =
     ((if want_max then Some (h_max_push p) else None), (if want_min then Some (h_min_push p) else None),
      (if h_npush p > 0 then quot (h_tot_push_time p) (h_npush p) else zero))"

definition chaos_crest_reg_time :: "(u64 \<Rightarrow> u32 \<Rightarrow> 'f) \<Rightarrow> 'f \<Rightarrow> handle \<Rightarrow> 'f" where
  "chaos_crest_reg_time quot zero p =
     (if h_nreg p > 0 then quot (h_tot_registration_time p) (h_nreg p) else zero)"

section \<open>The text that fits\<close>

lemma sum_alloc_eq:
  assumes "nports = int (length dss)" and "0 \<le> cnt" and "\<And>a. a \<in> set dss \<Longrightarrow> 0 \<le> ds_alloc_size a"
    and "0 \<le> sz" and "sz + sum_list (map ds_alloc_size (drop (nat cnt) dss)) < 2 ^ 31"
  shows "sum_alloc dss nports cnt sz = Inr (sz + sum_list (map ds_alloc_size (drop (nat cnt) dss)))"
  using assms
proof (induction "nat (nports - cnt)" arbitrary: cnt sz)
  case 0
  then have "\<not> cnt < nports" and "drop (nat cnt) dss = []" by auto
  then show ?case by (subst sum_alloc.simps) (simp only: if_False list.map sum_list.Nil add_0_right)
next
  case (Suc n)
  then have c: "cnt < nports" and i: "nat cnt < length dss" by linarith+
  let ?a = "dss ! nat cnt"
  have d: "drop (nat cnt) dss = ?a # drop (nat (cnt + 1)) dss"
    using i Suc.prems(2) by (simp add: Cons_nth_drop_Suc nat_add_distrib)
  have "0 \<le> ds_alloc_size ?a" using Suc.prems(3) i by simp
  moreover have "0 \<le> sum_list (map ds_alloc_size (drop (nat (cnt + 1)) dss))"
    using Suc.prems(3) by (intro sum_list_nonneg) (auto dest: in_set_dropD)
  ultimately have a: "c_int (sz + ds_alloc_size ?a) = sz + ds_alloc_size ?a"
    using Suc.prems(4,5) by (intro c_int_id) (simp_all add: d)
  have "sum_alloc dss nports (cnt + 1) (sz + ds_alloc_size ?a)
     = Inr (sz + ds_alloc_size ?a + sum_list (map ds_alloc_size (drop (nat (cnt + 1)) dss)))"
    using Suc.hyps(2) Suc.prems \<open>0 \<le> ds_alloc_size ?a\<close> by (intro Suc.hyps(1)) (simp_all add: d add.assoc)
  then show ?case
    by (subst sum_alloc.simps) (simp only: if_True c attr_at_Inr [OF i] rbind_Inr a, simp add: d)
qed

text \<open>The members separated by commas.\<close>

fun joined :: "string list \<Rightarrow> string" where
  "joined [] = []"
| "joined [x] = x"
| "joined (x # y # xs) = x @ '','' @ joined (y # xs)"

lemma dump_values_eq:
  assumes "nports = int (length dss)" and "0 \<le> cnt"
    and "list_all2 (\<lambda>a t. ds_data a = Some t) (drop (nat cnt) dss) ts"
    and "length buf + length (joined ts) < cap"
  shows "dump_values cap dss nports cnt buf = Inr (buf @ joined ts)"
  using assms
proof (induction "nat (nports - cnt)" arbitrary: cnt buf ts)
  case 0
  then have "\<not> cnt < nports" and "drop (nat cnt) dss = []" by auto
  moreover from this(2) "0.prems"(3) have "ts = []" by simp
  ultimately show ?case by (subst dump_values.simps) (simp only: if_False joined.simps append_Nil2)
next
  case (Suc n)
  then have c: "cnt < nports" and i: "nat cnt < length dss" by linarith+
  let ?a = "dss ! nat cnt"
  have d: "drop (nat cnt) dss = ?a # drop (nat (cnt + 1)) dss"
    using i Suc.prems(2) by (simp add: Cons_nth_drop_Suc nat_add_distrib)
  with Suc.prems(3) obtain t ts' where ts: "ts = t # ts'" and t: "ds_data ?a = Some t"
    and rest: "list_all2 (\<lambda>a t. ds_data a = Some t) (drop (nat (cnt + 1)) dss) ts'"
    by (auto simp: list_all2_Cons1)
  have "length ts' = length dss - nat (cnt + 1)" using list_all2_lengthD [OF rest] by simp
  then have last: "(cnt + 1 = nports) \<longleftrightarrow> ts' = []"
    using c Suc.prems(1,2) i by (simp flip: length_0_conv) linarith
  let ?buf = "buf @ (t @ (if ts' = [] then [] else '',''))"
  have j: "joined ts = t @ (if ts' = [] then [] else '','') @ joined ts'"
    unfolding ts by (cases ts') simp_all
  have "sn_store (cap - length buf) (t @ (if ts' = [] then [] else '','')) = t @ (if ts' = [] then [] else '','')"
    using Suc.prems(4) unfolding j by (intro sn_store_fits) simp
  then have dv: "dump_attribute_value cap buf ?a (cnt + 1 = nports) = Inr ?buf"
    by (simp only: dump_attribute_value_def t option.simps last)
  have "dump_values cap dss nports (cnt + 1) ?buf = Inr (?buf @ joined ts')"
    using Suc.hyps(2) Suc.prems rest by (intro Suc.hyps(1)) (simp_all add: j)
  then show ?case
    by (subst dump_values.simps) (simp only: if_True c attr_at_Inr [OF i] rbind_Inr dv, simp add: j)
qed

text \<open>A buffer that is full leaves no room for the closing brace.\<close>

lemma sn_store_length: "length (sn_store n s) = min (n - 1) (length s)"
  by (simp add: sn_store_def)

lemma dump_values_full:
  "dump_values cap dss nports cnt buf = Inr buf' \<Longrightarrow> length buf + 1 = cap \<Longrightarrow> length buf' + 1 = cap"
proof (induction cap dss nports cnt buf rule: dump_values.induct)
  case (1 cap dss nports cnt buf)
  show ?case
  proof (cases "cnt < nports")
    case False
    with "1.prems" show ?thesis by (simp add: dump_values.simps)
  next
    case True
    with "1.prems"(1) obtain a b where a: "attr_at dss (nat cnt) = Inr a"
      and b: "dump_attribute_value cap buf a (cnt + 1 = nports) = Inr b"
      and r: "dump_values cap dss nports (cnt + 1) b = Inr buf'"
      by (subst (asm) dump_values.simps) (auto simp: rbind_eq_Inr_iff)
    have "length b + 1 = cap"
      using b "1.prems"(2) by (auto simp: dump_attribute_value_def sn_store_length split: option.splits)
    from "1.IH" [OF True r this] show ?thesis .
  qed
qed

lemma push_text_full:
  assumes "sum_alloc dss nports 0 0 = Inr sz" and "0 < sz" and "alloc_int mem sz"
    and "sz \<le> int (length (push_header mode nm dtype npush ts nports)) + 1"
  shows "\<exists>e. push_text mem mode (Some nm) dtype npush ts dss nports = Inl e"
proof -
  let ?b = "sn_store (nat sz) (push_header mode nm dtype npush ts nports)"
  have b: "length ?b + 1 = nat sz" using assms(2,4) by (simp add: sn_store_length)
  show ?thesis
  proof (cases "dump_values (nat sz) dss nports 0 ?b")
    case (Inr buf)
    with dump_values_full [OF Inr b] assms(1-3) show ?thesis by (simp add: push_text_def)
  qed (use assms in \<open>simp add: push_text_def\<close>)
qed

lemma dump_values_total:
  assumes "nports = int (length dss)" and "0 \<le> cnt" and "\<And>a. a \<in> set dss \<Longrightarrow> ds_data a \<noteq> None"
  shows "\<exists>b. dump_values cap dss nports cnt buf = Inr b"
  using assms
proof (induction cap dss nports cnt buf rule: dump_values.induct)
  case (1 cap dss nports cnt buf)
  show ?case
  proof (cases "cnt < nports")
    case True
    then have i: "nat cnt < length dss" using "1.prems" by linarith
    then obtain d where d: "ds_data (dss ! nat cnt) = Some d" using "1.prems"(3) by (metis nth_mem option.exhaust)
    have s: "dump_attribute_value cap buf (dss ! nat cnt) (cnt + 1 = nports)
        = Inr (buf @ sn_store (cap - length buf) (d @ (if cnt + 1 = nports then [] else '','')))"
      by (simp add: dump_attribute_value_def d)
    have "\<exists>b. dump_values cap dss nports (cnt + 1) (buf @ sn_store (cap - length buf) (d @ (if cnt + 1 = nports then [] else '',''))) = Inr b"
      using True "1.prems" by (intro "1.IH") auto
    with True show ?thesis
      by (subst dump_values.simps) (simp only: if_True attr_at_Inr [OF i] rbind_Inr s)
  qed (simp add: dump_values.simps)
qed

lemma push_header_length:
  "0 < nports \<Longrightarrow> 96 \<le> length (push_header mode nm dtype npush ts nports)"
proof -
  have "1 \<le> length (show_nat n)" for n using show_nat_not_Nil [of n] by (cases "show_nat n") auto
  moreover have "1 \<le> length (show_int i)" for i
    using calculation [of "nat i"] by (simp add: show_int_def)
  ultimately have "1 \<le> length (show_nat (unat npush))" "1 \<le> length (show_nat (unat ts))"
    "1 \<le> length (show_int dtype)" by blast+
  then show "0 < nports \<Longrightarrow> ?thesis" by (simp add: push_header_def)
qed

lemma wf_cu_sum_alloc:
  assumes "wf_cu c" and "sum_list (map ds_alloc_size (cu_outds c)) < 2 ^ 31"
  shows "sum_alloc (cu_outds c) (cu_nout c) 0 0 = Inr (sum_list (map ds_alloc_size (cu_outds c)))"
proof -
  have "0 \<le> ds_alloc_size a" if "a \<in> set (cu_outds c)" for a
    using assms(1) that by (auto simp: wf_cu_def wf_out_def list_all_iff)
  then show ?thesis
    using sum_alloc_eq [of "cu_nout c" "cu_outds c" 0 0] assms by (simp add: wf_cu_def)
qed

section \<open>What a push that returns has done\<close>

lemma push_send_result:
  assumes "push_send junk ts w p url text = Some (Inr (w', h', r))"
  shows "\<exists>w2 b err. http_post w p url text (Some junk) 8192 = Some (Inr (w2, b, err))
    \<and> ((err = 0 \<and> w' = w2\<lparr>w_ticks := w_ticks w2 + 1\<rparr>
        \<and> h' = push_stats p (ucast (epoch_of (w_clock w2 (w_ticks w2)) - ts)) \<and> r = 0)
      \<or> (err \<noteq> 0 \<and> w' = w2 \<and> h' = p \<and> r = - 9))"
proof -
  from assms obtain a where a: "http_post w p url text (Some junk) 8192 = Some (Inr a)"
    and k: "(case a of (w2, rx, err) \<Rightarrow> if err = 0 then
         let (now, w3) = getEpoch w2 in Some (Inr (w3, push_stats p (ucast (now - ts)), 0))
       else Some (guard_res (\<exists>b. rx = Some b \<and> 0 \<in> set b) OutOfBounds (Inr (w2, p, - 9)))) = Some (Inr (w', h', r))"
    unfolding push_send_def by (rule run_bind_InrE)
  obtain w2 b err where "a = (w2, b, err)" by (cases a)
  with a k show ?thesis
    by (cases "err = 0") (simp_all add: getEpoch_def guard_res_eq_Inr_iff)
qed

lemma push_cu_int_sends:
  assumes "push_cu_int mem junk w p uid mode dtype = Some (Inr (w', h', r))"
  shows "(bad_uid p uid \<and> w' = w \<and> h' = p \<and> r = - 8)
    \<or> (\<not> bad_uid p uid \<and> (\<exists>url text. push_send junk (epoch_of (w_clock w (w_ticks w))) (w\<lparr>w_ticks := Suc (w_ticks w)\<rparr>)
          (if mode > 0 then p else p\<lparr>h_npush := 0\<rparr>) url text = Some (Inr (w', h', r))))"
proof (cases "bad_uid p uid")
  case True
  with assms show ?thesis by (simp add: push_cu_int_def)
next
  case False
  have "push_cu_int mem junk w p uid mode dtype = run_bind (Some (cu_slot p (unat uid - 1))) (\<lambda>cu.
      run_bind (Some (push_text mem mode (cu_name cu) dtype (h_npush (if mode > 0 then p else p\<lparr>h_npush := 0\<rparr>))
          (epoch_of (w_clock w (w_ticks w))) (if dtype = 0 then cu_outds cu else cu_inds cu)
          (if dtype = 0 then cu_nout cu else cu_nin cu)))
        (push_send junk (epoch_of (w_clock w (w_ticks w))) (w\<lparr>w_ticks := Suc (w_ticks w)\<rparr>)
          (if mode > 0 then p else p\<lparr>h_npush := 0\<rparr>)
          (if mode > 0 then ''/api/v1/producer/jsoninsert'' else ''/api/v1/producer/jsonregister'')))"
    using False by (simp add: push_cu_int_def getEpoch_def Let_def)
  then have run: "run_bind (Some (cu_slot p (unat uid - 1))) (\<lambda>cu.
      run_bind (Some (push_text mem mode (cu_name cu) dtype (h_npush (if mode > 0 then p else p\<lparr>h_npush := 0\<rparr>))
          (epoch_of (w_clock w (w_ticks w))) (if dtype = 0 then cu_outds cu else cu_inds cu)
          (if dtype = 0 then cu_nout cu else cu_nin cu)))
        (push_send junk (epoch_of (w_clock w (w_ticks w))) (w\<lparr>w_ticks := Suc (w_ticks w)\<rparr>)
          (if mode > 0 then p else p\<lparr>h_npush := 0\<rparr>)
          (if mode > 0 then ''/api/v1/producer/jsoninsert'' else ''/api/v1/producer/jsonregister''))) = Some (Inr (w', h', r))"
    using assms by (rule subst)
  show ?thesis
    by (rule run_bind_InrE [OF run], erule run_bind_InrE, rule disjI2, rule conjI [OF False], rule exI, rule exI, assumption)
qed

section \<open>Properties\<close>

definition push_object :: "world \<Rightarrow> handle \<Rightarrow> cu \<Rightarrow> string \<Rightarrow> string list \<Rightarrow> string" where
  "push_object w h c nm ts =
     push_header 1 nm 0 (h_npush h) (epoch_of (w_clock w (w_ticks w))) (cu_nout c) @ joined ts @ ''}''"

lemma push_text_object:
  assumes "wf_cu c" and "list_all2 (\<lambda>a t. ds_data a = Some t) (cu_outds c) ts"
    and "sz = sum_list (map ds_alloc_size (cu_outds c))" and "sz < 2 ^ 31" and "mem (nat sz)"
    and "int (length (push_object w h c nm ts)) + 1 \<le> sz"
  shows "push_text mem 1 (Some nm) 0 (h_npush h) (epoch_of (w_clock w (w_ticks w))) (cu_outds c) (cu_nout c)
     = Inr (push_object w h c nm ts)"
proof -
  let ?hd = "push_header 1 nm 0 (h_npush h) (epoch_of (w_clock w (w_ticks w))) (cu_nout c)"
  have fit: "length ?hd + length (joined ts) + 2 \<le> nat sz"
    using assms(6) unfolding push_object_def by simp
  then have hd: "sn_store (nat sz) ?hd = ?hd" by (intro sn_store_fits) linarith
  have "dump_values (nat sz) (cu_outds c) (cu_nout c) 0 ?hd = Inr (?hd @ joined ts)"
    using assms(1,2) fit by (intro dump_values_eq) (simp_all add: wf_cu_def)
  moreover have "sz \<noteq> 0" using fit by auto
  moreover have "alloc_int mem sz" using assms(5) fit by (simp add: alloc_int_def)
  ultimately show ?thesis
    using wf_cu_sum_alloc [OF assms(1)] assms(3,4) fit
    by (simp add: push_text_def hd push_object_def)
qed

text \<open>
  C13. A push of a control unit whose object fits its buffer: one request goes out, with the
  whole JSON object - the header with uid, sequence number and time, then the texts of all
  output attributes in order. On the answer 200 the result is 0 and the statistics are
  updated with the elapsed milliseconds; on any other answer (its text has to be
  terminated, as it is printed) the result is -9 and the handle is unchanged.
\<close>

theorem push_posts_object:
  assumes "wf_handle h" and "\<not> bad_uid h uid" and "cu_slot h (unat uid - 1) = Inr c"
    and "cu_name c = Some nm" and "list_all2 (\<lambda>a t. ds_data a = Some t) (cu_outds c) ts"
    and "sz = sum_list (map ds_alloc_size (cu_outds c))" and "sz < 2 ^ 31" and "mem (nat sz)"
    and "int (length (push_object w h c nm ts)) + 1 \<le> sz"
    and "h_wan_url h = Some url" and "length junk = 8192" and "code \<noteq> 0"
    and "\<And>k. k < m \<Longrightarrow> list_all idle_event (w_net w (length (w_posts w)) k)"
    and "w_net w (length (w_posts w)) m = pre @ EvReply code body # post"
    and "list_all idle_event pre" and "list_all idle_event post"
    and "rx = take 8192 body @ drop (length body) (junk[0 := 0])"
    and "w' = w\<lparr>w_posts := w_posts w @ [(sn_store 256 (url @ ''/api/v1/producer/jsoninsert''), push_object w h c nm ts)],
                w_user_set := True, w_ticks := w_ticks w + 1\<rparr>"
  shows "(code = 200 \<longrightarrow> chaos_crest_push mem junk w h uid 0
            = Some (Inr (w'\<lparr>w_ticks := w_ticks w + 2\<rparr>,
                push_stats h (ucast (epoch_of (w_clock w (w_ticks w + 1)) - epoch_of (w_clock w (w_ticks w)))), 0)))
       \<and> (code \<noteq> 200 \<and> 0 \<in> set rx \<longrightarrow> chaos_crest_push mem junk w h uid 0 = Some (Inr (w', h, - 9)))"
proof -
  have c: "wf_cu c" using slot_ok [OF assms(1,2)] assms(3) by (metis sum.inject(2))
  have ptext: "push_text mem 1 (Some nm) 0 (h_npush h) (epoch_of (w_clock w (w_ticks w))) (cu_outds c) (cu_nout c)
     = Inr (push_object w h c nm ts)"
    by (rule push_text_object [where sz = sz and mem = mem, OF c assms(5-9)])
  let ?w1 = "w\<lparr>w_ticks := Suc (w_ticks w)\<rparr>"
  have "junk \<noteq> []" using assms(11) by auto
  then have post: "http_post ?w1 h ''/api/v1/producer/jsoninsert'' (push_object w h c nm ts) (Some junk) 8192
     = Some (Inr (w', Some rx, if code = 200 then 0 else code))"
    using http_post_reply_aux [OF assms(10) _ _ assms(12), of junk m ?w1 pre body post] assms(11,13-18) by simp
  have "uid \<noteq> 0" using assms(2) by (simp add: bad_uid_def)
  then show ?thesis
    using assms(2-4,12) assms(18)
    by (simp add: chaos_crest_push_def push_cu_def push_cu_int_def push_send_def getEpoch_def ptext post)
qed

definition ex_text :: string where
  "ex_text = ''\"temp\":42''"

definition ex_big_attr :: ds where
  "ex_big_attr = ex_attr\<lparr>ds_data := Some ex_text, ds_alloc_size := 300\<rparr>"

definition ex_big_cu :: cu where
  "ex_big_cu = ex_cu\<lparr>cu_outds := [ex_big_attr]\<rparr>"

definition ex_big_handle :: handle where
  "ex_big_handle = ex_handle\<lparr>h_cus := [Some ex_big_cu], h_ncus := 1\<rparr>"

definition ex_net :: world where
  "ex_net = \<lparr>w_net = (\<lambda>_ _. [] @ EvReply 200 [79, 75] # []), w_clock = (\<lambda>n. (1, of_nat n)), w_ticks = 0,
             w_posts = [], w_user_set = False\<rparr>"

lemma typeToFormat_1 [simp]: "typeToFormat 1 = Inr ''%d''"
  by (simp add: typeToFormat_def crest_consts)

lemma ex_big_facts:
  "wf_handle ex_big_handle" "\<not> bad_uid ex_big_handle 1" "cu_slot ex_big_handle 0 = Inr ex_big_cu"
proof -
  have "wf_out ex_big_attr" by (auto simp: wf_out_def ex_big_attr_def ex_attr_def ex_text_def)
  then show "wf_handle ex_big_handle"
    by (simp add: wf_handle_def ex_big_handle_def wf_cu_def ex_big_cu_def ex_cu_def)
  show "\<not> bad_uid ex_big_handle 1" by (simp add: bad_uid_def ex_big_handle_def)
  show "cu_slot ex_big_handle 0 = Inr ex_big_cu" by (simp add: cu_slot_def ex_big_handle_def)
qed

lemma ex_object:
  "push_object ex_net ex_big_handle ex_big_cu ''CU'' [ex_text] =
     ''{\"ndk_uid\":\"CU\",\"dpck_ds_type\":0,\"dpck_seq_id\":{\"$numberLong\":\"0\"},\"dpck_ats\":{\"$numberLong\":\"1000\"},\"temp\":42}''"
proof -
  have n: "show_nat 0 = ''0''" "show_nat 1000 = ''1000''" "show_int 0 = ''0''"
    by (simp_all add: show_int_def show_nat.simps digit_chars)
  have e: "epoch_of (w_clock ex_net (w_ticks ex_net)) = 1000"
    by (simp add: epoch_of_def ex_net_def)
  show ?thesis
    unfolding push_object_def push_header_def e
    by (simp add: n ex_big_handle_def ex_handle_def ex_big_cu_def ex_cu_def ex_text_def)
qed

theorem push_posts_object_witness:
  "\<exists>w' h'. chaos_crest_push (\<lambda>n. True) (replicate 8192 1) ex_net ex_big_handle 1 0 = Some (Inr (w', h', 0))
     \<and> w_posts w' = [(''localhost:8081/api/v1/producer/jsoninsert'',
         ''{\"ndk_uid\":\"CU\",\"dpck_ds_type\":0,\"dpck_seq_id\":{\"$numberLong\":\"0\"},\"dpck_ats\":{\"$numberLong\":\"1000\"},\"temp\":42}'')]
     \<and> h_npush h' = 1"
proof -
  have url: "h_wan_url ex_big_handle = Some ''localhost:8081''" by (simp add: ex_big_handle_def ex_handle_def)
  have net: "w_net ex_net (length (w_posts ex_net)) 0 = [] @ EvReply 200 [79, 75] # []" by (simp add: ex_net_def)
  have slot: "cu_slot ex_big_handle (unat (1::u32) - 1) = Inr ex_big_cu" using ex_big_facts by simp
  have nm: "cu_name ex_big_cu = Some ''CU''" by (simp add: ex_big_cu_def ex_cu_def)
  have ts: "list_all2 (\<lambda>a t. ds_data a = Some t) (cu_outds ex_big_cu) [ex_text]"
    by (simp add: ex_big_cu_def ex_big_attr_def)
  have sz: "300 = sum_list (map ds_alloc_size (cu_outds ex_big_cu))" by (simp add: ex_big_cu_def ex_big_attr_def)
  have fit: "int (length (push_object ex_net ex_big_handle ex_big_cu ''CU'' [ex_text])) + 1 \<le> 300"
    unfolding ex_object by simp
  show ?thesis
    using push_posts_object [OF ex_big_facts(1,2) slot nm ts sz _ _ fit url _ _ _ net _ _ refl refl, of "\<lambda>n. True" "replicate 8192 1"]
    unfolding ex_object by (simp add: push_stats_def ex_big_handle_def ex_handle_def ex_net_def)
qed

text \<open>
  C14. The size of the heap buffer takes no account of the header: a control unit whose
  output buffers sum up to at most 97 bytes, such as one with a single scalar output (64
  bytes), cannot be pushed or registered; appending the closing brace writes past the end
  of the buffer, before anything is posted.
\<close>

theorem push_small_overflows:
  assumes "wf_handle h" and "\<not> bad_uid h uid" and "cu_slot h (unat uid - 1) = Inr c"
    and "cu_name c = Some nm" and "sz = sum_list (map ds_alloc_size (cu_outds c))"
    and "0 < sz" and "sz \<le> 97" and "mem (nat sz)"
  shows "push_cu_int mem junk w h uid mode 0 = Some (Inl OutOfBounds)"
proof -
  have c: "wf_cu c" using slot_ok [OF assms(1,2)] assms(3) by (metis sum.inject(2))
  have sum: "sum_alloc (cu_outds c) (cu_nout c) 0 0 = Inr sz"
    using wf_cu_sum_alloc [OF c] assms(5,7) by simp
  have "cu_outds c \<noteq> []" using assms(5,6) by auto
  then have n: "0 < cu_nout c" using c by (simp add: wf_cu_def)
  have "push_text mem mode (Some nm) 0 np ts (cu_outds c) (cu_nout c) = Inl OutOfBounds" for np ts
  proof -
    let ?b = "sn_store (nat sz) (push_header mode nm 0 np ts (cu_nout c))"
    have len: "length ?b + 1 = nat sz"
      using push_header_length [OF n, of mode nm 0 np ts] assms(6,7) by (simp add: sn_store_length)
    have "\<And>a. a \<in> set (cu_outds c) \<Longrightarrow> ds_data a \<noteq> None"
      using c by (auto simp: wf_cu_def wf_out_def list_all_iff)
    then obtain b where b: "dump_values (nat sz) (cu_outds c) (cu_nout c) 0 ?b = Inr b"
      using dump_values_total [of "cu_nout c" "cu_outds c" 0 "nat sz" ?b] c by (auto simp: wf_cu_def)
    from dump_values_full [OF b len] have "\<not> length b + 2 \<le> nat sz" by linarith
    then show ?thesis using b sum assms(6,8) by (simp add: push_text_def alloc_int_def)
  qed
  then show ?thesis using assms(2-4)
    by (simp add: push_cu_int_def getEpoch_def)
qed

theorem push_small_overflows_witness:
  "push_cu_int (\<lambda>n. True) [] ex_net ex_h1 1 1 0 = Some (Inl OutOfBounds)"
proof (rule push_small_overflows [where nm = "''CU''" and sz = 64, OF ex_h1_facts(1,3)])
  show "cu_slot ex_h1 (unat (1::u32) - 1) = Inr ex_cu" using ex_h1_facts by simp
qed (simp_all add: ex_cu_def ex_attr_def)

text \<open>
  C15. Input attributes have neither format nor buffer: pushing the input data set of any
  control unit never returns normally, and registering a control unit that has an input
  never returns normally either.
\<close>

theorem inputs_never_sent:
  assumes "wf_handle h" and "\<not> bad_uid h uid" and "cu_slot h (unat uid - 1) = Inr c"
  shows "(dtype \<noteq> 0 \<longrightarrow> (\<exists>e. chaos_crest_push mem junk w h uid dtype = Some (Inl e)))
    \<and> (cu_inds c \<noteq> [] \<longrightarrow> (\<forall>r. chaos_crest_register dbl mem junk w h uid \<noteq> Some (Inr r)))"
proof
  have u: "uid \<noteq> 0" using assms(2) by (simp add: bad_uid_def)
  have c: "wf_cu c" using slot_ok [OF assms(1,2)] assms(3) by (metis sum.inject(2))
  have zero: "sum_list (map ds_alloc_size (cu_inds c)) = 0"
  proof -
    have "x = 0" if "x \<in> set (map ds_alloc_size (cu_inds c))" for x
      using c that by (auto simp: wf_cu_def wf_in_def list_all_iff)
    then show ?thesis using sum_list_0 by (metis map_idI sum_list_replicate map_replicate_const map_eq_conv mult_zero_right)
  qed
  have "sum_alloc (cu_inds c) (cu_nin c) 0 0 = Inr 0"
    using sum_alloc_eq [of "cu_nin c" "cu_inds c" 0 0] c zero by (auto simp: wf_cu_def wf_in_def list_all_iff)
  then have "\<exists>e. push_text mem 1 (cu_name c) dtype np ts (cu_inds c) (cu_nin c) = Inl e" for np ts
    by (simp add: push_text_def split: option.splits)
  then show "dtype \<noteq> 0 \<longrightarrow> (\<exists>e. chaos_crest_push mem junk w h uid dtype = Some (Inl e))"
    using u assms(2,3) by (auto simp: chaos_crest_push_def push_cu_def push_cu_int_def getEpoch_def intro!: run_bind_fault)
next
  have u: "uid \<noteq> 0" using assms(2) by (simp add: bad_uid_def)
  have c: "wf_cu c" using slot_ok [OF assms(1,2)] assms(3) by (metis sum.inject(2))
  show "cu_inds c \<noteq> [] \<longrightarrow> (\<forall>r. chaos_crest_register dbl mem junk w h uid \<noteq> Some (Inr r))"
  proof (intro impI allI)
    fix r assume ne: "cu_inds c \<noteq> []"
    then have n: "0 < cu_nin c" "0 < length (cu_inds c)" using c by (simp_all add: wf_cu_def)
    then have "ds_format (cu_inds c ! 0) = None" using c by (simp add: wf_cu_def wf_in_def list_all_length)
    then have "store_fmt dbl (cu_inds c ! 0) arg = Inl NullDeref" for arg by (simp add: store_fmt_def)
    then have "reset_values dbl (cu_nin c) 0 (cu_inds c) = Inl NullDeref"
      using n by (subst reset_values.simps) simp
    then show "chaos_crest_register dbl mem junk w h uid \<noteq> Some (Inr r)"
      using u assms(2,3) by (auto simp: chaos_crest_register_def register_cu_def Let_def run_bind_eq_Inr_iff)
  qed
qed

definition ex_in_handle :: handle where
  "ex_in_handle = fst (projr (chaos_crest_add_cu (\<lambda>n. True) (0, 0) ex_handle ''CU'' ex_rows 2))"

theorem inputs_never_sent_witness:
  "\<exists>c. cu_slot ex_in_handle 0 = Inr c \<and> cu_inds c \<noteq> []
     \<and> (\<exists>e. chaos_crest_push (\<lambda>n. True) [] ex_net ex_in_handle 1 1 = Some (Inl e))
     \<and> (\<forall>r. chaos_crest_register (\<lambda>d. []) (\<lambda>n. True) [] ex_net ex_in_handle 1 \<noteq> Some (Inr r))"
proof -
  have u: "\<not> bad_uid ex_in_handle 1" and w: "wf_handle ex_in_handle"
    and s: "\<exists>c. cu_slot ex_in_handle (unat (1::u32) - 1) = Inr c \<and> cu_inds c \<noteq> []"
    by (auto simp: ex_in_handle_def chaos_crest_add_cu_def Let_def ex_rows_def is_input_def is_output_def crest_consts
        out_attr_def typeToFormat_def c_strdup_def alloc_int_def out_alloc_size_def is_blob_def is_vector_def
        bad_uid_def ex_handle_def cu_slot_def wf_handle_def wf_cu_def wf_out_def wf_in_def in_attr_def)
  then obtain c where c: "cu_slot ex_in_handle (unat (1::u32) - 1) = Inr c" "cu_inds c \<noteq> []" by blast
  show ?thesis
    using inputs_never_sent [OF w u c(1), of 1 "\<lambda>n. True" "[]" ex_net "\<lambda>d. []"] c by auto
qed

end
