(* ===== verification/CrestApi.thy ===== *)
theory CrestApi
  imports CrestPush
begin

text \<open>
  The library as its client sees it: sequences of calls on one handle, as a step relation,
  and what holds after every such sequence.
\<close>

section \<open>Steps\<close>

text \<open>
  The rows of a table as a client writes them: an input and an output among them (so that
  both counters of the control unit are set), sizes from 0 to 2 ^ 24 elements.
\<close>

definition sane_table :: "chaos_ds list \<Rightarrow> int \<Rightarrow> bool" where
  "sane_table dsin n \<longleftrightarrow>
     list_all (\<lambda>d. 0 \<le> cds_size d \<and> cds_size d \<le> 2 ^ 24) dsin
     \<and> list_ex is_input (take (nat n) dsin) \<and> list_ex is_output (take (nat n) dsin)"

text \<open>
  A call of the client, with what it meets: the allocator, the memory behind its pointers
  and the contents of uninitialised memory.
\<close>

datatype call =
    CallAdd allocator "int \<times> int" string "chaos_ds list" int
  | CallUpdate allocator u32 int "u8 list"
  | CallUpdateByName allocator u32 string "u8 list"
  | CallRegister allocator "u8 list" u32
  | CallPush allocator "u8 list" u32 int

fun do_call :: "(u64 \<Rightarrow> string) \<Rightarrow> bool \<Rightarrow> call \<Rightarrow> world \<Rightarrow> handle \<Rightarrow> (world \<times> handle) run" where
  "do_call dbl le (CallAdd mem junk name dsin n) w h =
     Some (rbind (chaos_crest_add_cu mem junk h name dsin n) (\<lambda>(h', _, _). Inr (w, h')))"
| "do_call dbl le (CallUpdate mem uid i m) w h =
     Some (rbind (chaos_crest_update dbl le mem h uid i m) (\<lambda>(h', _). Inr (w, h')))"
| "do_call dbl le (CallUpdateByName mem uid name m) w h =
     Some (rbind (chaos_crest_update_by_name dbl le mem h uid name m) (\<lambda>(h', _). Inr (w, h')))"
| "do_call dbl le (CallRegister mem rx uid) w h =
     run_bind (chaos_crest_register dbl mem rx w h uid) (\<lambda>(w', h', _). Some (Inr (w', h')))"
| "do_call dbl le (CallPush mem rx uid dstype) w h =
     run_bind (chaos_crest_push mem rx w h uid dstype) (\<lambda>(w', h', _). Some (Inr (w', h')))"

fun do_calls :: "(u64 \<Rightarrow> string) \<Rightarrow> bool \<Rightarrow> call list \<Rightarrow> world \<Rightarrow> handle \<Rightarrow> (world \<times> handle) run" where
  "do_calls dbl le [] w h = Some (Inr (w, h))"
| "do_calls dbl le (c # cs) w h = run_bind (do_call dbl le c w h) (\<lambda>(w', h'). do_calls dbl le cs w' h')"

text \<open>The calls of a client that keeps to sane tables and meets an array that can grow.\<close>

fun sane_call :: "call \<Rightarrow> bool" where
  "sane_call (CallAdd mem junk name dsin n) \<longleftrightarrow> sane_table dsin n \<and> (\<forall>k. mem (k * sizeof_cu))"
| "sane_call _ \<longleftrightarrow> True"

section \<open>The invariant\<close>

definition handle_ok :: "handle \<Rightarrow> bool" where
  "handle_ok h \<longleftrightarrow> wf_handle h \<and> small_handle h"

definition stats_dead :: "handle \<Rightarrow> bool" where
  "stats_dead h \<longleftrightarrow> h_min_push h = 0 \<and> h_nreg h = 0 \<and> h_tot_registration_time h = 0"

definition api_inv :: "handle \<Rightarrow> bool" where
  "api_inv h \<longleftrightarrow> handle_ok h \<and> stats_dead h"

lemma api_inv_open: "chaos_crest_open mem n url = Inr h \<Longrightarrow> api_inv h"
  by (auto simp: chaos_crest_open_def guard_res_eq_Inr_iff api_inv_def handle_ok_def stats_dead_def
      wf_handle_def small_handle_def)

lemma good_out_small:
  assumes "good_out mem d a" and "0 \<le> cds_size d" and "cds_size d \<le> 2 ^ 24"
  shows "small_out a"
proof -
  define y where "y = cds_size d * elem_size (cds_type d)"
  have e: "1 \<le> elem_size (cds_type d)" "elem_size (cds_type d) \<le> 8" by (auto simp: elem_size_def)
  have y: "0 \<le> y" "y \<le> 2 ^ 24 * 8"
    unfolding y_def using assms(2,3) e mult_mono [of "cds_size d" "2 ^ 24" "elem_size (cds_type d)" 8] by simp_all
  have c1: "c_int y = y" by (rule c_int_id) (use y in simp_all)
  have c2: "c_int (y * 3 + MAXDIGITS) = y * 3 + MAXDIGITS"
    by (rule c_int_id) (use y in \<open>simp_all add: MAXDIGITS_def\<close>)
  obtain f where f: "ds_size a = out_size d (out_format (cds_name d) f)" "ds_alloc_size a = out_alloc_size d"
    using assms(1) by (auto simp: good_out_def out_attr_def rbind_eq_Inr_iff Let_def)
  define l where "l = int (length (out_format (cds_name d) f))"
  have l: "0 \<le> l" "l < 256" using out_format_length [of "cds_name d" f] by (simp_all add: l_def)
  have c3: "c_int (l + 1 + cds_size d + MAXDIGITS) = l + 1 + cds_size d + MAXDIGITS"
    by (rule c_int_id) (use assms(2,3) l in \<open>simp_all add: MAXDIGITS_def\<close>)
  have "ds_size a = (if is_blob (cds_type d) then y else l + 1 + cds_size d + MAXDIGITS)"
    unfolding f out_size_def by (simp only: c1 c3 flip: y_def l_def)
  moreover have "ds_alloc_size a = (if is_blob (cds_type d) then y * 3 + MAXDIGITS else 64)"
    unfolding f out_alloc_size_def by (simp only: c2 flip: y_def)
  ultimately show ?thesis
    using assms(3) y l by (simp add: small_out_def MAXDIGITS_def)
qed

text \<open>Adding a control unit from a sane table.\<close>

lemma list_all2_good_small:
  "list_all2 (good_out mem) ds os \<Longrightarrow> list_all (\<lambda>d. 0 \<le> cds_size d \<and> cds_size d \<le> 2 ^ 24) ds \<Longrightarrow> list_all small_out os"
  by (induction rule: list_all2_induct) (auto intro: good_out_small)

lemma add_cu_inv:
  assumes run: "chaos_crest_add_cu mem junk h name dsin n = Inr (h', dsin', uid)"
    and mem: "mem ((h_ncus h + 1) * sizeof_cu)" and sane: "sane_table dsin n" and inv: "api_inv h"
  shows "api_inv h'"
proof -
  let ?rows = "take (nat n) dsin"
  have wf: "wf_handle h" "small_handle h" using inv by (simp_all add: api_inv_def handle_ok_def)
  then have len: "length (h_cus h) = h_ncus h" by (simp add: wf_handle_def)
  have ne: "filter is_input ?rows \<noteq> []" "filter is_output ?rows \<noteq> []"
    using sane by (auto simp: sane_table_def list_ex_iff filter_empty_conv)
  have sz: "list_all (\<lambda>d. 0 \<le> cds_size d \<and> cds_size d \<le> 2 ^ 24) (filter is_output ?rows)"
    using sane by (auto simp: sane_table_def list_all_iff dest: in_set_takeD)
  have split: "h' = h \<or> (\<exists>iok ook tbl ins outs. add_items mem iok ook ?rows [] [] [] = Inr (tbl, Some (ins, outs))
      \<and> h' = h\<lparr>h_cus := h_cus h @ [Some \<lparr>cu_name = c_strdup mem name, cu_inds = ins,
           cu_nin = int (length (filter is_input ?rows)), cu_outds = outs,
           cu_nout = int (length (filter is_output ?rows)), cu_maxbufsize = 0\<rparr>], h_ncus := h_ncus h + 1\<rparr>)"
    using add_cu_result [OF run mem] len ne by simp
  then consider (same) "h' = h"
    | (added) iok ook tbl ins outs c where "add_items mem iok ook ?rows [] [] [] = Inr (tbl, Some (ins, outs))"
      and "c = \<lparr>cu_name = c_strdup mem name, cu_inds = ins, cu_nin = int (length (filter is_input ?rows)),
         cu_outds = outs, cu_nout = int (length (filter is_output ?rows)), cu_maxbufsize = 0\<rparr>"
      and "h' = h\<lparr>h_cus := h_cus h @ [Some c], h_ncus := h_ncus h + 1\<rparr>"
    by blast
  then show ?thesis
  proof cases
    case same
    with inv show ?thesis by simp
  next
    case added
    from add_items_Some [OF added(1)] have ins: "ins = map (in_attr mem) (filter is_input ?rows)"
      and outs: "list_all2 (good_out mem) (filter is_output ?rows) outs" by auto
    have "wf_cu c" using list_all2_good_wf [OF outs] list_all2_lengthD [OF outs]
      by (auto simp: wf_cu_def added(2) ins list_all_iff intro: in_attr_wf)
    moreover have "list_all small_out (cu_outds c)"
      using list_all2_good_small [OF outs sz] by (simp add: added(2))
    ultimately show ?thesis
      using wf_handle_snoc [OF wf(1)] wf(2) inv
      by (simp add: added(3) api_inv_def handle_ok_def small_handle_def stats_dead_def)
  qed
qed

section \<open>Registering keeps the invariant\<close>

lemma reset_values_wf:
  "reset_values dbl n cnt dss = Inr dss' \<Longrightarrow> list_all wf_out dss \<Longrightarrow> list_all small_out dss \<Longrightarrow>
     list_all wf_out dss' \<and> list_all small_out dss' \<and> length dss' = length dss"
proof (induction dbl n cnt dss arbitrary: dss' rule: reset_values.induct)
  case (1 dbl n cnt dss)
  show ?case
  proof (cases "cnt < n")
    case False
    with "1.prems" show ?thesis by (subst (asm) reset_values.simps) simp
  next
    case True
    with "1.prems"(1) obtain a a' where a: "attr_at dss (nat cnt) = Inr a"
      and s: "store_fmt dbl a (default_arg (ds_type a)) = Inr a'"
      and r: "reset_values dbl n (cnt + 1) (dss[nat cnt := a']) = Inr dss'"
      by (subst (asm) reset_values.simps) (auto simp: rbind_eq_Inr_iff)
    from a have i: "nat cnt < length dss" and "a = dss ! nat cnt" by (auto simp: attr_at_eq_Inr_iff)
    then have "wf_out a" "small_out a" using "1.prems"(2,3) by (auto simp: list_all_length)
    then have "wf_out a'" "small_out a'"
      using store_fmt_wf [OF s] store_fmt_frame [OF s] by (auto simp: small_out_def)
    then show ?thesis using "1.IH" [OF True r] "1.prems"(2,3) by (simp add: list_all_update)
  qed
qed

lemma reset_values_nil: "n = 0 \<Longrightarrow> reset_values dbl n 0 dss = Inr dss' \<Longrightarrow> dss' = dss"
  by (subst (asm) reset_values.simps) simp

lemma api_inv_same:
  assumes "api_inv p" and "h_cus q = h_cus p" and "h_ncus q = h_ncus p" and "h_min_push q = h_min_push p"
    and "h_nreg q = h_nreg p" and "h_tot_registration_time q = h_tot_registration_time p"
  shows "api_inv q"
  using assms by (simp only: api_inv_def handle_ok_def stats_dead_def wf_handle_def small_handle_def)

lemma push_stats_fields:
  "h_cus (push_stats p t) = h_cus p" "h_ncus (push_stats p t) = h_ncus p" "h_nreg (push_stats p t) = h_nreg p"
  "h_tot_registration_time (push_stats p t) = h_tot_registration_time p"
  "h_min_push (push_stats p t) = (if t < h_min_push p \<and> t > 0 then t else h_min_push p)"
  unfolding push_stats_def by simp_all

lemma push_stats_inv:
  assumes "api_inv p"
  shows "api_inv (push_stats p t)"
proof (rule api_inv_same [OF assms])
  have "h_min_push p = 0" using assms by (simp add: api_inv_def stats_dead_def)
  then show "h_min_push (push_stats p t) = h_min_push p" unfolding push_stats_fields by simp
qed (simp_all only: push_stats_fields)

lemma push_cu_int_inv:
  "push_cu_int mem rx w h uid mode dtype = Some (Inr (w', h', r)) \<Longrightarrow> api_inv h \<Longrightarrow>
     api_inv h' \<and> h_cus h' = h_cus h \<and> h_ncus h' = h_ncus h"
proof -
  assume a: "push_cu_int mem rx w h uid mode dtype = Some (Inr (w', h', r))" and i: "api_inv h"
  let ?p = "if mode > 0 then h else h\<lparr>h_npush := 0\<rparr>"
  have p: "api_inv ?p" by (rule api_inv_same [OF i]) simp_all
  have f: "h_cus ?p = h_cus h" "h_ncus ?p = h_ncus h" by simp_all
  from push_cu_int_sends [OF a] consider "h' = h" | "h' = ?p" | t where "h' = push_stats ?p t"
    using push_send_result by blast
  then show ?thesis
  proof cases
    case 1
    with i show ?thesis by simp
  next
    case 2
    show ?thesis unfolding 2 using p f by blast
  next
    case 3
    show ?thesis unfolding 3 push_stats_fields using push_stats_inv [OF p] f by blast
  qed
qed

lemma set_cu_inv:
  "api_inv h \<Longrightarrow> wf_cu c \<Longrightarrow> list_all small_out (cu_outds c) \<Longrightarrow> api_inv (set_cu h i c)"
  using set_cu_wf by (auto simp: api_inv_def handle_ok_def stats_dead_def) (simp_all add: set_cu_def)

lemma register_cu_inv:
  assumes "register_cu dbl mem rx w h uid = Some (Inr (w', h', r))" and inv: "api_inv h"
  shows "api_inv h' \<and> h_ncus h' = h_ncus h"
proof (cases "bad_uid h uid")
  case True
  with assms show ?thesis by (auto simp: register_cu_def)
next
  case False
  have wf: "wf_handle h" "small_handle h" using inv by (simp_all add: api_inv_def handle_ok_def)
  obtain c where c: "cu_slot h (unat uid - 1) = Inr c" "wf_cu c" "unat uid - 1 < length (h_cus h)"
    "h_cus h ! (unat uid - 1) = Some c" using slot_ok [OF wf(1) False] by blast
  have small: "list_all small_out (cu_outds c)" using small_slot [OF wf(2) c(3,4)] .
  from assms(1) False c(1) obtain outs w1 p1 ret ins where
    o: "reset_values dbl (cu_nout c) 0 (cu_outds c) = Inr outs"
    and p: "push_cu_int mem rx w (set_cu h (unat uid - 1) (c\<lparr>cu_outds := outs\<rparr>)) uid 0 0 = Some (Inr (w1, p1, ret))"
    and i: "reset_values dbl (cu_nin c) 0 (cu_inds c) = Inr ins"
    and rest: "(h' = set_cu p1 (unat uid - 1) (c\<lparr>cu_outds := outs, cu_inds := ins\<rparr>) \<and> cu_nin c = 0) \<or>
       cu_nin c \<noteq> 0"
    by (auto simp: register_cu_def Let_def run_bind_eq_Inr_iff split: if_splits)
  have n: "cu_nin c = 0"
  proof (rule ccontr)
    assume "cu_nin c \<noteq> 0"
    then have n: "0 < cu_nin c" "0 < length (cu_inds c)" using c(2) by (simp_all add: wf_cu_def)
    then have "ds_format (cu_inds c ! 0) = None" using c(2) by (simp add: wf_cu_def wf_in_def list_all_length)
    then show False using i n by (subst (asm) reset_values.simps) (simp add: store_fmt_def)
  qed
  have outs: "list_all wf_out outs" "list_all small_out outs" "length outs = length (cu_outds c)"
    using reset_values_wf [OF o] c(2) small by (simp_all add: wf_cu_def)
  have ins: "ins = cu_inds c" by (rule reset_values_nil [OF n i])
  have w: "wf_cu (c\<lparr>cu_outds := outs\<rparr>)" using c(2) outs by (simp add: wf_cu_def)
  have "api_inv (set_cu h (unat uid - 1) (c\<lparr>cu_outds := outs\<rparr>))"
    by (rule set_cu_inv [OF inv w]) (simp add: outs)
  from push_cu_int_inv [OF p this] have p1: "api_inv p1" "h_ncus p1 = h_ncus h" by (simp_all add: set_cu_def)
  have "h' = set_cu p1 (unat uid - 1) (c\<lparr>cu_outds := outs\<rparr>)" using rest n ins by simp
  then show ?thesis using set_cu_inv [OF p1(1) w] outs p1(2) by (simp add: set_cu_def)
qed

lemma each_cu_inv:
  assumes "\<And>w p u w' p' r. f w p u = Some (Inr (w', p', r)) \<Longrightarrow> api_inv p \<Longrightarrow> api_inv p'"
  shows "each_cu f cnt n w p = Some (Inr (w', p', r)) \<Longrightarrow> api_inv p \<Longrightarrow> api_inv p'"
proof (induction n arbitrary: cnt w p)
  case (Suc n)
  then obtain w1 p1 r1 where f: "f w p (of_nat (cnt + 1)) = Some (Inr (w1, p1, r1))"
    and k: "(if r1 \<noteq> 0 then Some (Inr (w1, p1, r1)) else each_cu f (cnt + 1) n w1 p1) = Some (Inr (w', p', r))"
    by (auto simp: run_bind_eq_Inr_iff)
  from assms [OF f Suc.prems(2)] k Suc.IH show ?case by (auto split: if_splits)
qed simp

lemma register_inv:
  assumes "chaos_crest_register dbl mem rx w h uid = Some (Inr (w', h', r))" and "api_inv h"
  shows "api_inv h'"
proof (cases "uid = 0")
  case True
  with assms(1) have "each_cu (register_cu dbl mem rx) 0 (h_ncus h) w h = Some (Inr (w', h', r))"
    by (simp add: chaos_crest_register_def)
  from each_cu_inv [OF _ this] register_cu_inv assms(2) show ?thesis by blast
next
  case False
  with assms(1) have "register_cu dbl mem rx w h uid = Some (Inr (w', h', r))"
    by (simp add: chaos_crest_register_def)
  from register_cu_inv [OF this] assms(2) show ?thesis by simp
qed

lemma push_inv:
  assumes "chaos_crest_push mem rx w h uid dstype = Some (Inr (w', h', r))" and "api_inv h"
  shows "api_inv h'"
proof (cases "uid = 0")
  case True
  with assms(1) have "each_cu (push_cu mem rx dstype) 0 (h_ncus h) w h = Some (Inr (w', h', r))"
    by (simp add: chaos_crest_push_def)
  from each_cu_inv [OF _ this] push_cu_int_inv [of mem rx] assms(2) show ?thesis unfolding push_cu_def by blast
next
  case False
  with assms(1) have "push_cu mem rx dstype w h uid = Some (Inr (w', h', r))"
    by (simp add: chaos_crest_push_def)
  from push_cu_int_inv [OF this [unfolded push_cu_def]] assms(2) show ?thesis by simp
qed

lemma update_inv:
  assumes "chaos_crest_update dbl le mem h uid i m = Inr (h', r)
      \<or> chaos_crest_update_by_name dbl le mem h uid name m = Inr (h', r)" and "api_inv h"
  shows "api_inv h'"
proof -
  have "h_min_push h' = h_min_push h \<and> h_nreg h' = h_nreg h \<and> h_tot_registration_time h' = h_tot_registration_time h"
    using assms(1)
    by (auto simp: chaos_crest_update_def chaos_crest_update_by_name_def rbind_eq_Inr_iff Let_def set_cu_def
        split: if_splits option.splits)
  moreover have "wf_handle h' \<and> small_handle h'"
    using assms(2) by (intro update_keeps_wf_aux [OF _ _ assms(1)]) (simp_all add: api_inv_def handle_ok_def)
  ultimately show ?thesis using assms(2) by (simp add: api_inv_def handle_ok_def stats_dead_def)
qed

lemma do_call_inv:
  assumes "do_call dbl le c w h = Some (Inr (w', h'))" and "sane_call c" and "api_inv h"
  shows "api_inv h'"
proof (cases c)
  case (CallAdd mem junk name dsin n)
  with assms(1) obtain d u where "chaos_crest_add_cu mem junk h name dsin n = Inr (h', d, u)"
    by (auto simp: rbind_eq_Inr_iff)
  moreover have "mem ((h_ncus h + 1) * sizeof_cu)" and "sane_table dsin n"
    using assms(2) unfolding CallAdd sane_call.simps by blast+
  ultimately show ?thesis using add_cu_inv assms(3) by blast
next
  case (CallUpdate mem uid i m)
  with assms(1) obtain r where "chaos_crest_update dbl le mem h uid i m = Inr (h', r)"
    by (auto simp: rbind_eq_Inr_iff)
  from update_inv [OF disjI1 [OF this] assms(3)] show ?thesis .
next
  case (CallUpdateByName mem uid name m)
  with assms(1) obtain r where "chaos_crest_update_by_name dbl le mem h uid name m = Inr (h', r)"
    by (auto simp: rbind_eq_Inr_iff)
  from update_inv [OF disjI2 [OF this] assms(3)] show ?thesis .
next
  case (CallRegister mem rx uid)
  with assms(1) obtain r where "chaos_crest_register dbl mem rx w h uid = Some (Inr (w', h', r))"
    by (auto simp: run_bind_eq_Inr_iff)
  from register_inv [OF this assms(3)] show ?thesis .
next
  case (CallPush mem rx uid dstype)
  with assms(1) obtain r where "chaos_crest_push mem rx w h uid dstype = Some (Inr (w', h', r))"
    by (auto simp: run_bind_eq_Inr_iff)
  from push_inv [OF this assms(3)] show ?thesis .
qed

lemma do_calls_inv:
  "do_calls dbl le cs w h = Some (Inr (w', h')) \<Longrightarrow> list_all sane_call cs \<Longrightarrow> api_inv h \<Longrightarrow> api_inv h'"
proof (induction cs arbitrary: w h)
  case (Cons c cs)
  from Cons.prems(1) obtain a where a: "do_call dbl le c w h = Some (Inr a)"
    and k: "(case a of (w', h') \<Rightarrow> do_calls dbl le cs w' h') = Some (Inr (w', h'))"
    unfolding do_calls.simps by (rule run_bind_InrE)
  obtain w1 h1 where [simp]: "a = (w1, h1)" by (cases a)
  have "api_inv h1" using do_call_inv [OF a [unfolded \<open>a = _\<close>]] Cons.prems(2,3) by simp
  with k Cons.IH Cons.prems(2) show ?case by simp
qed simp

section \<open>One post per push\<close>

lemma http_post_posts:
  "http_post w h api trx rx n = Some (Inr (w', b, r)) \<Longrightarrow>
     length (w_posts w') = length (w_posts w) + 1 \<and> w_clock w' = w_clock w \<and> w_net w' = w_net w"
  by (auto simp: http_post_def Let_def split: option.splits list.splits sum.splits)

lemma push_cu_int_posts:
  assumes "push_cu_int mem rx w h uid mode dtype = Some (Inr (w', h', r))"
  shows "length (w_posts w') = length (w_posts w) + (if bad_uid h uid then 0 else 1) \<and> h_ncus h' = h_ncus h"
proof (cases "bad_uid h uid")
  case True
  with assms show ?thesis by (simp add: push_cu_int_def)
next
  case False
  let ?p = "if mode > 0 then h else h\<lparr>h_npush := 0\<rparr>"
  have f: "h_ncus ?p = h_ncus h" by simp
  from push_cu_int_sends [OF assms] False obtain url body where
    "push_send rx (epoch_of (w_clock w (w_ticks w))) (w\<lparr>w_ticks := Suc (w_ticks w)\<rparr>) ?p url body = Some (Inr (w', h', r))"
    by blast
  from push_send_result [OF this] obtain w2 b err t where
    post: "http_post (w\<lparr>w_ticks := Suc (w_ticks w)\<rparr>) ?p url body (Some rx) 8192 = Some (Inr (w2, b, err))"
    and w': "w' = w2\<lparr>w_ticks := w_ticks w2 + 1\<rparr> \<or> w' = w2" and h': "h' = push_stats ?p t \<or> h' = ?p"
    by blast
  have "h_ncus h' = h_ncus h" using h' by (rule disjE) (simp_all only: push_stats_fields f)
  moreover have "w_posts w' = w_posts w2" using w' by (rule disjE) simp_all
  moreover have "length (w_posts w2) = length (w_posts w) + 1" using http_post_posts [OF post] by simp
  ultimately show ?thesis using False by simp
qed

lemma each_push_posts:
  assumes "each_cu (push_cu mem rx dstype) cnt n w h = Some (Inr (w', h', 0))"
    and "cnt + n \<le> h_ncus h" and "h_ncus h < 2 ^ 32"
  shows "length (w_posts w') = length (w_posts w) + n"
  using assms
proof (induction n arbitrary: cnt w h)
  case (Suc n)
  from Suc.prems(1) obtain a where a: "push_cu mem rx dstype w h (of_nat (cnt + 1)) = Some (Inr a)"
    and k: "(case a of (w', p', ret) \<Rightarrow> if ret \<noteq> 0 then Some (Inr (w', p', ret))
        else each_cu (push_cu mem rx dstype) (cnt + 1) n w' p') = Some (Inr (w', h', 0))"
    unfolding each_cu.simps by (rule run_bind_InrE)
  obtain w1 h1 r where [simp]: "a = (w1, h1, r)" by (cases a)
  note p = a [unfolded \<open>a = _\<close>]
  have k: "each_cu (push_cu mem rx dstype) (cnt + 1) n w1 h1 = Some (Inr (w', h', 0))"
    using k by (cases "r = 0") simp_all
  have u: "unat (of_nat (cnt + 1) :: u32) = cnt + 1"
    using Suc.prems(2,3) by (simp only: unat_of_nat) (simp add: take_bit_nat_eq_self)
  then have "(of_nat (cnt + 1) :: u32) \<noteq> 0" by (metis add_is_0 one_neq_zero unat_0)
  then have "\<not> bad_uid h (of_nat (cnt + 1))" using u Suc.prems(2) by (simp add: bad_uid_def del: of_nat_Suc)
  with push_cu_int_posts [OF p [unfolded push_cu_def]]
  have "length (w_posts w1) = length (w_posts w) + 1" "h_ncus h1 = h_ncus h" by simp_all
  with Suc.IH [OF k] Suc.prems(2,3) show ?case by simp
qed simp

section \<open>Properties\<close>


definition ex_calls :: "call list" where
  "ex_calls = [CallAdd (\<lambda>n. True) (0, 0) ''CU'' ex_rows 2]"



definition ex_push_all :: "(world \<times> handle \<times> int) run" where
  "ex_push_all = chaos_crest_push (\<lambda>n. True) (replicate 8192 1) ex_net ex_big_handle 0 0"

lemma ex_push_all_run: "\<exists>w' h'. ex_push_all = Some (Inr (w', h', 0))"
proof -
  have slot: "cu_slot ex_big_handle (unat (1::u32) - 1) = Inr ex_big_cu" using ex_big_facts by simp
  have fit: "int (length (push_object ex_net ex_big_handle ex_big_cu ''CU'' [ex_text])) + 1 \<le> 300"
    unfolding ex_object by simp
  have ptext: "push_text (\<lambda>n. True) 1 (Some ''CU'') 0 (h_npush ex_big_handle) (epoch_of (w_clock ex_net (w_ticks ex_net)))
      (cu_outds ex_big_cu) (cu_nout ex_big_cu) = Inr (push_object ex_net ex_big_handle ex_big_cu ''CU'' [ex_text])"
    by (rule push_text_object [where sz = 300])
      (use ex_big_facts fit in \<open>auto simp: ex_big_cu_def ex_big_attr_def wf_handle_def ex_big_handle_def\<close>)
  obtain w2 b where post: "http_post (ex_net\<lparr>w_ticks := Suc (w_ticks ex_net)\<rparr>) ex_big_handle ''/api/v1/producer/jsoninsert''
      (push_object ex_net ex_big_handle ex_big_cu ''CU'' [ex_text]) (Some (replicate 8192 1)) 8192 = Some (Inr (w2, b, 0))"
    using http_post_reply_aux [of ex_big_handle "''localhost:8081''" "replicate 8192 1" 200 0
      "ex_net\<lparr>w_ticks := Suc (w_ticks ex_net)\<rparr>" "[]" "[79, 75]" "[]"]
    by (simp add: ex_net_def ex_big_handle_def ex_handle_def)
  have "cu_name ex_big_cu = Some ''CU''" by (simp add: ex_big_cu_def ex_cu_def)
  then have "\<exists>w' h'. push_cu (\<lambda>n. True) (replicate 8192 1) 0 ex_net ex_big_handle 1 = Some (Inr (w', h', 0))"
    using ex_big_facts(2) slot ptext post
    by (simp add: push_cu_def push_cu_int_def push_send_def getEpoch_def)
  moreover have "h_ncus ex_big_handle = Suc 0" by (simp add: ex_big_handle_def)
  ultimately show ?thesis by (auto simp: ex_push_all_def chaos_crest_push_def)
qed


end
