(* ===== verification/HttpLib.thy ===== *)
theory HttpLib
  imports CrestHttp
begin

text \<open>
  The HTTP client \<open>http_lib.c\<close>: the request text, the byte-wise state machines that read
  the header and the body of a response from the socket, and the calls that wait for and
  copy the answer. A socket is the list of results that successive calls of \<open>read\<close> of one
  byte give; after its end every call returns 0. The other thread appears as what it does
  between two points of the caller.
\<close>

section \<open>Reading from the socket\<close>

datatype rd = RByte char | RNone | RFail

fun sock_read :: "rd list \<Rightarrow> rd \<times> rd list" where
  "sock_read [] = (RNone, [])"
| "sock_read (r # rds) = (r, rds)"

definition HTTP_GET_FILE_RETRY :: int where "HTTP_GET_FILE_RETRY = 50"
definition HTTP_POST_FILE_RETRY :: int where "HTTP_POST_FILE_RETRY = 30"
definition HTTP_ERROR_TIMEOUT :: int where "HTTP_ERROR_TIMEOUT = - 100"
definition HTTP_ERROR_PARSING_HEADER :: int where "HTTP_ERROR_PARSING_HEADER = - 111"
definition HTTP_ERROR_CONNECTION_DROP :: int where "HTTP_ERROR_CONNECTION_DROP = - 6"

lemmas http_consts = HTTP_GET_FILE_RETRY_def HTTP_POST_FILE_RETRY_def HTTP_ERROR_TIMEOUT_def
  HTTP_ERROR_PARSING_HEADER_def HTTP_ERROR_CONNECTION_DROP_def

abbreviation CR :: char where "CR \<equiv> CHR 0x0D"
abbreviation LF :: char where "LF \<equiv> CHR 0x0A"

section \<open>The part of \<open>sscanf\<close> that is used\<close>

datatype 'a scan = Matched 'a string | Mismatch | InputEnd

fun scan_lit :: "string \<Rightarrow> string \<Rightarrow> unit scan" where
  "scan_lit [] s = Matched () s"
| "scan_lit (c # f) [] = InputEnd"
| "scan_lit (c # f) (d # s) = (if c = d then scan_lit f s else Mismatch)"

text \<open>\<open>%d\<close>: glibc clamps the number to a \<open>long\<close> and converts it to \<open>int\<close>.\<close>

definition clamp64 :: "int \<Rightarrow> int" where
  "clamp64 i = max (- (2 ^ 63)) (min (2 ^ 63 - 1) i)"

definition scan_d :: "string \<Rightarrow> int scan" where
  "scan_d s0 =
     (let s = dropWhile c_isspace s0 in
      if s = [] then InputEnd
      else let neg = (hd s = CHR ''-'');
               t = (if hd s = CHR ''-'' \<or> hd s = CHR ''+'' then tl s else s);
               ds = takeWhile c_isdigit t
           in if ds = [] then Mismatch
              else Matched (c_int (clamp64 (if neg then - int (read_nat ds) else int (read_nat ds))))
                     (dropWhile c_isdigit t))"

definition scan_s :: "string \<Rightarrow> string scan" where
  "scan_s s0 =
     (let s = dropWhile c_isspace s0 in
      if s = [] then InputEnd else Matched (takeWhile (\<lambda>c. \<not> c_isspace c) s) (dropWhile (\<lambda>c. \<not> c_isspace c) s))"

text \<open>\<open>sscanf (stringa, "HTTP/1.%d %d", &minor, &retcode) == 2\<close>\<close>

definition scan_status :: "string \<Rightarrow> int option" where
  "scan_status s =
     (case scan_lit ''HTTP/1.'' s of Matched _ r \<Rightarrow>
        (case scan_d r of Matched minor r2 \<Rightarrow>
           (case scan_d r2 of Matched code _ \<Rightarrow> Some code | _ \<Rightarrow> None) | _ \<Rightarrow> None) | _ \<Rightarrow> None)"

definition scan_length :: "string \<Rightarrow> int option" where
  "scan_length s =
     (case scan_lit ''Content-Length:'' s of Matched _ r \<Rightarrow>
        (case scan_d r of Matched n _ \<Rightarrow> Some n | _ \<Rightarrow> None) | _ \<Rightarrow> None)"

text \<open>\<open>sscanf (stringa, "Transfer-Encoding:%s", sencoding)\<close>, which is also true when it is \<open>EOF\<close>.\<close>

definition scan_encoding :: "string \<Rightarrow> string scan" where
  "scan_encoding s =
     (case scan_lit ''Transfer-Encoding:'' s of Matched _ r \<Rightarrow> scan_s r
      | Mismatch \<Rightarrow> Mismatch | InputEnd \<Rightarrow> InputEnd)"

section \<open>The response header\<close>

text \<open>
  The locals of \<open>getResponseHeader\<close>: \<open>hd_str\<close> are the 256 characters of \<open>stringa\<close>,
  \<open>hd_last\<close> and \<open>hd_senc\<close> are \<open>None\<close> until they are assigned.
\<close>

record hdr =
  hd_str :: string
  hd_cnt :: nat
  hd_last :: "char option"
  hd_senc :: "string option"
  hd_code :: int
  hd_size :: int
  hd_enc :: int
  hd_retry :: int
  hd_recvb :: u64

definition hdr_init :: "string \<Rightarrow> int \<Rightarrow> u64 \<Rightarrow> hdr" where
  "hdr_init junk retryn recvb =
     \<lparr>hd_str = junk, hd_cnt = 0, hd_last = None, hd_senc = None, hd_code = HTTP_ERROR_PARSING_HEADER,
      hd_size = 0, hd_enc = 0, hd_retry = retryn, hd_recvb = recvb\<rparr>"

text \<open>A complete line: \<open>Some\<close> code is a return from the function.\<close>

definition hdr_line :: "string \<Rightarrow> hdr \<Rightarrow> (int option \<times> hdr) res" where
  "hdr_line line st =
     (case scan_status line of Some code \<Rightarrow> Inr (None, st\<lparr>hd_code := code\<rparr>)
      | None \<Rightarrow>
     (case scan_length line of Some n \<Rightarrow> Inr (None, st\<lparr>hd_size := n\<rparr>)
      | None \<Rightarrow>
        let chunk = (\<lambda>e. if find_sub ''chunked'' e \<noteq> None then st\<lparr>hd_senc := Some e, hd_enc := 1\<rparr>
                         else st\<lparr>hd_senc := Some e\<rparr>)
        in case scan_encoding line of
             Matched e _ \<Rightarrow> Inr (None, chunk e)
           | InputEnd \<Rightarrow> (case hd_senc st of None \<Rightarrow> Inl Uninit | Some e \<Rightarrow> Inr (None, chunk e))
           | Mismatch \<Rightarrow>
               if find_sub ''NO CARRIER'' line \<noteq> None then Inr (Some HTTP_ERROR_CONNECTION_DROP, st)
               else Inr (None, st)))"

text \<open>The string in \<open>stringa\<close>: without a NUL in the array the scans run out of it.\<close>

definition hdr_string :: "string \<Rightarrow> string res" where
  "hdr_string a = (if NUL \<in> set a then Inr (cstr a) else Inl OutOfBounds)"

definition is_term :: "char \<Rightarrow> char option \<Rightarrow> bool res" where
  "is_term c last_char =
     (if c = LF then (case last_char of None \<Rightarrow> Inl Uninit | Some l \<Rightarrow> Inr (l = CR)) else Inr False)"

definition hdr_byte :: "char \<Rightarrow> hdr \<Rightarrow> (int option \<times> hdr) res" where
  "hdr_byte c st0 =
     rbind (is_term c (hd_last st0)) (\<lambda>term.
       let st = st0\<lparr>hd_retry := HTTP_GET_FILE_RETRY, hd_last := Some c\<rparr> in
       rbind (if hd_cnt st < 256 then
                (if term then
                   guard_res (0 < hd_cnt st) OutOfBounds
                     (Inr (st\<lparr>hd_str := (hd_str st)[hd_cnt st - 1 := NUL]\<rparr>))
                 else Inr (st\<lparr>hd_str := (hd_str st)[hd_cnt st := c], hd_cnt := hd_cnt st + 1\<rparr>))
              else Inr st) (\<lambda>st1.
       if hd_cnt st < 256 \<and> hd_str st1 ! 0 = NUL then Inr (Some (hd_code st1), st1)
       else if term then
         rbind (hdr_string (hd_str st1)) (\<lambda>line. hdr_line line (st1\<lparr>hd_cnt := 0\<rparr>))
       else Inr (None, st1)))"

definition hdr_result :: "hdr \<Rightarrow> int" where
  "hdr_result st = (if hd_retry st < 0 then HTTP_ERROR_TIMEOUT else hd_code st)"

text \<open>The loop reads first and looks at the retries afterwards.\<close>

function hdr_loop :: "hdr \<Rightarrow> rd list \<Rightarrow> (hdr \<times> rd list \<times> int) res" where
  "hdr_loop st rds =
     (case sock_read rds of
        (RFail, rds') \<Rightarrow> Inr (st, rds', hdr_result st)
      | (RNone, rds') \<Rightarrow>
          if hd_retry st \<le> 0 then Inr (st, rds', hdr_result st)
          else hdr_loop (st\<lparr>hd_retry := hd_retry st - 1\<rparr>) rds'
      | (RByte c, rds') \<Rightarrow>
          if hd_retry st \<le> 0 then Inr (st, rds', hdr_result st)
          else (case hdr_byte c (st\<lparr>hd_recvb := hd_recvb st + 1\<rparr>) of
                  Inl e \<Rightarrow> Inl e
                | Inr (Some code, st') \<Rightarrow> Inr (st', rds', code)
                | Inr (None, st') \<Rightarrow> hdr_loop st' rds'))"
  by pat_completeness auto

termination
proof (relation "measures [\<lambda>(st, rds). length rds, \<lambda>(st, rds). nat (hd_retry st)]", goal_cases)
  case (2 st rds x rds' )
  then show ?case by (cases rds) auto
next
  case (3 st rds x rds')
  then show ?case by (cases rds) auto
qed simp

declare hdr_loop.simps [simp del]

definition getResponseHeader :: "string \<Rightarrow> u64 \<Rightarrow> rd list \<Rightarrow> int \<Rightarrow> (hdr \<times> rd list \<times> int) res" where
  "getResponseHeader junk recvb rds retryn = hdr_loop (hdr_init junk retryn recvb) rds"

section \<open>The response body\<close>

text \<open>The number \<open>strtoul (s, 0, 16)\<close>, as it is assigned to an \<open>int\<close>.\<close>

definition hex_val :: "char \<Rightarrow> nat option" where
  "hex_val c =
     (let n = char_code c in
      if 48 \<le> n \<and> n \<le> 57 then Some (n - 48)
      else if 65 \<le> n \<and> n \<le> 70 then Some (n - 55)
      else if 97 \<le> n \<and> n \<le> 102 then Some (n - 87) else None)"

definition read_hex :: "string \<Rightarrow> nat" where
  "read_hex s = foldl (\<lambda>acc c. 16 * acc + the (hex_val c)) 0 s"

definition strtoul16 :: "string \<Rightarrow> int" where
  "strtoul16 s0 =
     (let s = dropWhile c_isspace s0;
          neg = (s \<noteq> [] \<and> hd s = CHR ''-'');
          t = (if s \<noteq> [] \<and> (hd s = CHR ''-'' \<or> hd s = CHR ''+'') then tl s else s);
          u = (if length t > 2 \<and> t ! 0 = CHR ''0'' \<and> (t ! 1 = CHR ''x'' \<or> t ! 1 = CHR ''X'')
                  \<and> hex_val (t ! 2) \<noteq> None then drop 2 t else t);
          v = int (read_hex (takeWhile (\<lambda>c. hex_val c \<noteq> None) u));
          ulong = (if v < 2 ^ 64 then (if neg then (- v) mod 2 ^ 64 else v) else 2 ^ 64 - 1)
      in c_int ulong)"

text \<open>
  The locals of \<open>getResponse\<close>. \<open>bd_buf\<close> is the string in the caller's buffer, so that
  \<open>cnt\<close> is its length; \<open>bd_enc\<close> are the characters of \<open>encoding_buf\<close> up to \<open>enc_cnt\<close>.
\<close>

record body_st =
  bd_buf :: string
  bd_copy :: int
  bd_enc :: string
  bd_retry :: int
  bd_last :: char
  bd_fetch_term :: bool
  bd_fetch_blank :: bool
  bd_recvb :: u64

text \<open>One byte of the body; the flag is the \<open>break\<close> out of the loop.\<close>

definition body_byte :: "int \<Rightarrow> int \<Rightarrow> int \<Rightarrow> char \<Rightarrow> body_st \<Rightarrow> bool \<times> body_st" where
  "body_byte encoding response_size max_size c st0 =
     (let term = (c = LF \<and> bd_last st0 = CR);
          st = st0\<lparr>bd_last := c\<rparr>
      in if bd_fetch_blank st \<and> term then (True, st)
         else if bd_fetch_term st \<and> term then (False, st\<lparr>bd_fetch_term := False\<rparr>)
         else let st = st\<lparr>bd_retry := HTTP_POST_FILE_RETRY\<rparr> in
           if bd_copy st > 0 then
             (let buf = (if int (length (bd_buf st)) < max_size - 1 then bd_buf st @ [c] else bd_buf st);
                  st' = st\<lparr>bd_buf := buf, bd_copy := bd_copy st - 1\<rparr>
              in if int (length buf) = response_size then (True, st') else (False, st'\<lparr>bd_fetch_term := True\<rparr>))
           else if encoding = 1 then
             (if term then
                (if bd_enc st \<noteq> [] then
                   (let n = strtoul16 (cstr (butlast (bd_enc st)))
                    in (False, st\<lparr>bd_copy := n, bd_fetch_blank := bd_fetch_blank st \<or> n = 0, bd_enc := []\<rparr>))
                 else (False, st))
              else (False, if length (bd_enc st) < 255 then st\<lparr>bd_enc := bd_enc st @ [c]\<rparr> else st))
           else (False, st\<lparr>bd_fetch_blank := True\<rparr>))"

text \<open>
  The loop ends at a negative result of \<open>read\<close>: the branch that handles it inside the loop
  is never taken.
\<close>

function body_loop :: "int \<Rightarrow> int \<Rightarrow> int \<Rightarrow> body_st \<Rightarrow> rd list \<Rightarrow> body_st \<times> rd list" where
  "body_loop encoding response_size max_size st rds =
     (case sock_read rds of
        (RFail, rds') \<Rightarrow> (st, rds')
      | (RNone, rds') \<Rightarrow>
          if bd_retry st \<le> 0 then (st, rds')
          else body_loop encoding response_size max_size (st\<lparr>bd_retry := bd_retry st - 1\<rparr>) rds'
      | (RByte c, rds') \<Rightarrow>
          if bd_retry st \<le> 0 then (st, rds')
          else (case body_byte encoding response_size max_size c (st\<lparr>bd_recvb := bd_recvb st + 1\<rparr>) of
                  (True, st') \<Rightarrow> (st', rds')
                | (False, st') \<Rightarrow> body_loop encoding response_size max_size st' rds'))"
  by pat_completeness auto

termination
proof (relation "measures [\<lambda>(e, r, m, st, rds). length rds, \<lambda>(e, r, m, st, rds). nat (bd_retry st)]", goal_cases)
  case (2 e r m st rds x rds')
  then show ?case by (cases rds) auto
next
  case (3 e r m st rds x rds')
  then show ?case by (cases rds) auto
qed simp

declare body_loop.simps [simp del]

section \<open>The handle\<close>

text \<open>\<open>_http_handle_t\<close> without the thread and its synchronisation objects.\<close>

record http_handle =
  hh_sock :: int
  hh_answer :: string
  hh_retcode :: int
  hh_exit :: int
  hh_sendid :: u64
  hh_recvid :: u64
  hh_sentb :: u64
  hh_recvb :: u64

definition http_client_init :: "bool \<Rightarrow> bool \<Rightarrow> int \<Rightarrow> http_handle option res" where
  "http_client_init calloc_ok thread_ok sock =
     guard_res (calloc_ok \<and> sock \<noteq> 0) AssertFail
       (Inr (if thread_ok
             then Some \<lparr>hh_sock = sock, hh_answer = [], hh_retcode = 0, hh_exit = 0, hh_sendid = 0,
                        hh_recvid = 0, hh_sentb = 0, hh_recvb = 0\<rparr>
             else None))"

text \<open>The answer is stored in \<open>buffer\<close>, the string of a buffer of \<open>max_size\<close> bytes.\<close>

definition getResponse ::
  "string \<Rightarrow> http_handle \<Rightarrow> rd list \<Rightarrow> string \<Rightarrow> int \<Rightarrow> (http_handle \<times> rd list \<times> string \<times> int) res" where
  "getResponse junk p rds buffer max_size =
     rbind (getResponseHeader junk (hh_recvb p) rds HTTP_POST_FILE_RETRY) (\<lambda>(hd, rds1, retcode).
       let p1 = p\<lparr>hh_recvb := hd_recvb hd\<rparr> in
       if retcode > 0 then
         (let (bd, rds2) = body_loop (hd_enc hd) (hd_size hd) max_size
                \<lparr>bd_buf = [], bd_copy = (if hd_enc hd = 1 then 0 else hd_size hd), bd_enc = [],
                 bd_retry = HTTP_POST_FILE_RETRY, bd_last = NUL, bd_fetch_term = False,
                 bd_fetch_blank = False, bd_recvb = hh_recvb p1\<rparr> rds1
          in Inr (p1\<lparr>hh_recvid := hh_recvid p1 + 1, hh_recvb := bd_recvb bd\<rparr>, rds2, bd_buf bd,
                  if bd_retry bd < 0 then HTTP_ERROR_TIMEOUT else retcode))
       else Inr (p1, rds1, buffer, retcode))"

text \<open>One round of the receiving thread.\<close>

definition receive_round :: "string \<Rightarrow> http_handle \<Rightarrow> rd list \<Rightarrow> (http_handle \<times> rd list) res" where
  "receive_round junk p rds =
     rbind (getResponse junk p rds (hh_answer p) (int MAXBUFFER)) (\<lambda>(p', rds', answer, ret).
       Inr (p'\<lparr>hh_answer := answer, hh_retcode := ret\<rparr>, rds'))"

text \<open>
  \<open>http_get_answer\<close> on a message buffer of \<open>cap\<close> bytes: the bytes that are copied. The
  comparison of the \<open>int\<close> with the \<open>size_t\<close> is unsigned.
\<close>

definition http_get_answer :: "http_handle \<Rightarrow> nat \<Rightarrow> int \<Rightarrow> (string \<times> int) res" where
  "http_get_answer p cap sz =
     (let l = length (hh_answer p);
          n = (if size_of_int sz < l then size_of_int sz else l + 1)
      in guard_res (n \<le> cap) OutOfBounds (Inr (take n (hh_answer p @ [NUL]), hh_retcode p)))"

text \<open>\<open>wake\<close> is the handle when \<open>pthread_cond_wait\<close> returns, if it does.\<close>

definition http_wait_answer ::
  "(http_handle \<Rightarrow> http_handle option) \<Rightarrow> http_handle \<Rightarrow> nat \<Rightarrow> int \<Rightarrow> (string \<times> int) res" where
  "http_wait_answer wake p cap sz =
     (if hh_sendid p \<ge> hh_recvid p then
        (case wake p of None \<Rightarrow> Inl NoReturn | Some p' \<Rightarrow> http_get_answer p' cap sz)
      else http_get_answer p cap sz)"

section \<open>The request\<close>

text \<open>
  \<open>ADD_HEADER_STR\<close> on the local buffer of 4096 bytes that holds the string \<open>buf\<close>. The bound
  it gives to \<open>snprintf\<close> is the size of the whole buffer, whatever is in it. (A first line that
  is cut at 4095 characters still moves the pointer by its full length, out of the buffer, where
  the next call takes its \<open>strlen\<close>.)
\<close>

definition add_header :: "string \<Rightarrow> string \<Rightarrow> string res" where
  "add_header s buf = guard_res (length buf + length s + 1 \<le> 4096) OutOfBounds (Inr (buf @ s))"

fun add_headers :: "string list \<Rightarrow> string \<Rightarrow> string res" where
  "add_headers [] buf = Inr buf"
| "add_headers (s # ss) buf = rbind (add_header s buf) (add_headers ss)"

definition crlf :: string where "crlf = [CR, LF]"

definition request_lines :: "string \<Rightarrow> string \<Rightarrow> string \<Rightarrow> string \<Rightarrow> string \<Rightarrow> string option \<Rightarrow> string list" where
  "request_lines meth hostname agent api content parameters =
     [meth @ '' '' @ api @ '' HTTP/1.1'' @ crlf, ''Accept: */*'' @ crlf, ''User-Agent: '' @ agent @ crlf,
      ''Connection: keep-alive'' @ crlf, ''Host:'' @ hostname @ crlf]
     @ (case parameters of
          Some ps \<Rightarrow>
            if ps \<noteq> [] then
              [''Accept-Language: en-us'' @ crlf, ''Accept-Encoding: gzip, deflate'' @ crlf,
               ''Content-Type: '' @ content @ crlf,
               ''Content-Length: '' @ show_int (c_int (int (length ps))) @ crlf, crlf @ ps @ crlf]
            else [crlf]
        | None \<Rightarrow> [crlf])"

text \<open>\<open>wr\<close> is the result of \<open>write\<close> for the bytes given to it.\<close>

definition http_perform_request ::
  "(string \<Rightarrow> int) \<Rightarrow> http_handle \<Rightarrow> string \<Rightarrow> string \<Rightarrow> string \<Rightarrow> string \<Rightarrow> string \<Rightarrow> string option
     \<Rightarrow> (http_handle \<times> int) res" where
  "http_perform_request wr p meth hostname agent api content parameters =
     rbind (add_headers (request_lines meth hostname agent api content parameters) []) (\<lambda>buf.
       let ret = wr buf in
       if size_of_int ret \<noteq> length buf then Inr (p, - 4)
       else Inr (p\<lparr>hh_sentb := hh_sentb p + of_int ret, hh_sendid := hh_sendid p + 1\<rparr>, ret))"

definition http_request ::
  "(string \<Rightarrow> int) \<Rightarrow> (http_handle \<Rightarrow> http_handle option) \<Rightarrow> http_handle \<Rightarrow> string \<Rightarrow> string \<Rightarrow> string \<Rightarrow> string
     \<Rightarrow> string \<Rightarrow> string option \<Rightarrow> nat \<Rightarrow> int \<Rightarrow> (string option \<times> int) res" where
  "http_request wr wake p meth hostname agent api content parameters cap sz =
     rbind (http_perform_request wr p meth hostname agent api content parameters) (\<lambda>(p', ret).
       if ret > 0 then rbind (http_wait_answer wake p' cap sz) (\<lambda>(m, code). Inr (Some m, code))
       else Inr (None, ret))"

section \<open>Lines of the header\<close>

definition header_line :: "string \<Rightarrow> bool" where
  "header_line l \<longleftrightarrow> l \<noteq> [] \<and> no_nul l \<and> LF \<notin> set l \<and> length l < 255"

lemma no_nul_hd: "no_nul l \<Longrightarrow> l \<noteq> [] \<Longrightarrow> hd l \<noteq> NUL"
  by (cases l) simp_all

lemma hdr_loop_byte:
  assumes "0 < hd_retry st" and "hdr_byte c (st\<lparr>hd_recvb := hd_recvb st + 1\<rparr>) = Inr (None, st')"
  shows "hdr_loop st (RByte c # rds) = hdr_loop st' rds"
  using assms by (subst hdr_loop.simps) simp

lemma hdr_byte_plain:
  assumes "c \<noteq> LF" and "hd_cnt st < 256" and "(hd_str st)[hd_cnt st := c] ! 0 \<noteq> NUL"
  shows "hdr_byte c st = Inr (None, st\<lparr>hd_retry := 50, hd_last := Some c,
           hd_str := (hd_str st)[hd_cnt st := c], hd_cnt := hd_cnt st + 1\<rparr>)"
  using assms by (simp add: hdr_byte_def is_term_def http_consts Let_def)

lemma hdr_byte_line:
  assumes "hd_last st = Some CR" and "hd_cnt st = Suc n" and "n < 255"
    and "(hd_str st)[n := NUL] ! 0 \<noteq> NUL" and "hdr_string ((hd_str st)[n := NUL]) = Inr l"
  shows "hdr_byte LF st = hdr_line l (st\<lparr>hd_retry := 50, hd_last := Some LF, hd_str := (hd_str st)[n := NUL], hd_cnt := 0\<rparr>)"
  using assms by (simp add: hdr_byte_def is_term_def http_consts Let_def)

lemma hdr_byte_blank:
  assumes "hd_last st = Some CR" and "hd_cnt st = 1" and "hd_str st \<noteq> []"
  shows "hdr_byte LF st = Inr (Some (hd_code st), st\<lparr>hd_retry := 50, hd_last := Some LF, hd_str := (hd_str st)[0 := NUL]\<rparr>)"
  using assms by (simp add: hdr_byte_def is_term_def http_consts Let_def)

lemma take_nth_0: "take n a = l \<Longrightarrow> l \<noteq> [] \<Longrightarrow> a ! 0 = hd l"
  by (cases a; cases n) auto

text \<open>Characters inside a line are stored one after the other.\<close>

definition stored :: "hdr \<Rightarrow> string \<Rightarrow> hdr \<Rightarrow> bool" where
  "stored st cs st' \<longleftrightarrow>
     length (hd_str st') = 256 \<and> take (length cs) (hd_str st') = cs \<and> hd_cnt st' = length cs
     \<and> hd_last st' = Some (last cs) \<and> hd_senc st' = hd_senc st \<and> hd_code st' = hd_code st \<and> hd_size st' = hd_size st
     \<and> hd_enc st' = hd_enc st \<and> hd_retry st' = 50 \<and> hd_recvb st' = hd_recvb st + of_nat (length cs)"

lemma hdr_store:
  assumes "length (hd_str st) = 256" and "hd_cnt st = 0" and "0 < hd_retry st"
    and "cs \<noteq> []" and "no_nul cs" and "LF \<notin> set cs" and "length cs \<le> 255"
  shows "\<exists>st'. hdr_loop st (map RByte cs @ rds) = hdr_loop st' rds \<and> stored st cs st'"
  using assms(4-7)
proof (induction cs arbitrary: rds rule: rev_induct)
  case (snoc c cs)
  show ?case
  proof (cases "cs = []")
    case True
    let ?s = "st\<lparr>hd_recvb := hd_recvb st + 1, hd_retry := 50, hd_last := Some c, hd_str := (hd_str st)[0 := c], hd_cnt := 1\<rparr>"
    have "c \<noteq> LF" "c \<noteq> NUL" using snoc.prems by auto
    then have "hdr_byte c (st\<lparr>hd_recvb := hd_recvb st + 1\<rparr>) = Inr (None, ?s)"
      using hdr_byte_plain [of c "st\<lparr>hd_recvb := hd_recvb st + 1\<rparr>"] assms(1,2) by (cases "hd_str st") simp_all
    then have "hdr_loop st (RByte c # rds) = hdr_loop ?s rds" by (rule hdr_loop_byte [OF assms(3)])
    moreover have "stored st [c] ?s" using assms(1) by (cases "hd_str st") (simp_all add: stored_def)
    ultimately show ?thesis using True by auto
  next
    case False
    with snoc obtain st1 where run: "hdr_loop st (map RByte cs @ (RByte c # rds)) = hdr_loop st1 (RByte c # rds)"
      and st1: "stored st cs st1" by fastforce
    let ?s = "st1\<lparr>hd_recvb := hd_recvb st1 + 1, hd_retry := 50, hd_last := Some c,
        hd_str := (hd_str st1)[length cs := c], hd_cnt := length cs + 1\<rparr>"
    have len: "length (hd_str st1) = 256" "hd_cnt st1 = length cs" "0 < hd_retry st1"
      and t: "take (length cs) (hd_str st1) = cs" using st1 by (simp_all add: stored_def)
    have "(hd_str st1) ! 0 = hd cs" using take_nth_0 [OF t False] .
    then have "(hd_str st1)[length cs := c] ! 0 \<noteq> NUL" using False no_nul_hd [of cs] snoc.prems by simp
    moreover have "c \<noteq> LF" using snoc.prems by auto
    ultimately have "hdr_byte c (st1\<lparr>hd_recvb := hd_recvb st1 + 1\<rparr>) = Inr (None, ?s)"
      using snoc.prems(4) len hdr_byte_plain [of c "st1\<lparr>hd_recvb := hd_recvb st1 + 1\<rparr>"] by simp
    then have "hdr_loop st1 (RByte c # rds) = hdr_loop ?s rds" by (rule hdr_loop_byte [OF len(3)])
    moreover have "take (Suc (length cs)) ((hd_str st1)[length cs := c]) = cs @ [c]"
      using t len(1) snoc.prems by (simp add: take_Suc_conv_app_nth)
    then have "stored st (cs @ [c]) ?s" using st1 by (simp add: stored_def)
    ultimately show ?thesis using run by auto
  qed
qed simp

text \<open>What follows a complete line.\<close>

definition after_line :: "hdr \<Rightarrow> nat \<Rightarrow> hdr \<Rightarrow> bool" where
  "after_line st n st' \<longleftrightarrow>
     length (hd_str st') = 256 \<and> hd_cnt st' = 0 \<and> hd_last st' = Some LF \<and> hd_retry st' = 50
     \<and> hd_senc st' = hd_senc st \<and> hd_code st' = hd_code st \<and> hd_size st' = hd_size st
     \<and> hd_enc st' = hd_enc st \<and> hd_recvb st' = hd_recvb st + of_nat n"

lemma cstr_stored:
  "no_nul cs \<Longrightarrow> length cs < length a \<Longrightarrow> take (length cs) a = cs \<Longrightarrow> cstr (a[length cs := NUL]) = cs"
proof -
  assume n: "no_nul cs" and l: "length cs < length a" and t: "take (length cs) a = cs"
  have "a[length cs := NUL] = cs @ NUL # drop (Suc (length cs)) a"
    using l t by (simp add: upd_conv_take_nth_drop)
  then show ?thesis using n by simp
qed

lemma hdr_run_line:
  assumes "length (hd_str st) = 256" and "hd_cnt st = 0" and "0 < hd_retry st" and "header_line l"
  shows "\<exists>st'. after_line st (length l + 2) st' \<and> hdr_loop st (map RByte (l @ crlf) @ rds) =
     (case hdr_line l st' of Inl e \<Rightarrow> Inl e | Inr (Some code, st'') \<Rightarrow> Inr (st'', rds, code)
      | Inr (None, st'') \<Rightarrow> hdr_loop st'' rds)"
proof -
  have l: "l \<noteq> []" "no_nul l" "LF \<notin> set l" "length l < 255" using assms(4) by (simp_all add: header_line_def)
  obtain st1 where run: "hdr_loop st (map RByte (l @ [CR]) @ (RByte LF # rds)) = hdr_loop st1 (RByte LF # rds)"
    and st1: "stored st (l @ [CR]) st1"
    using hdr_store [OF assms(1-3), of "l @ [CR]" "RByte LF # rds"] l by auto
  have f: "length (hd_str st1) = 256" "hd_cnt st1 = Suc (length l)" "hd_last st1 = Some CR" "0 < hd_retry st1"
    and t: "take (Suc (length l)) (hd_str st1) = l @ [CR]" using st1 by (simp_all add: stored_def)
  have "take (length l) (take (Suc (length l)) (hd_str st1)) = take (length l) (l @ [CR])" using t by (rule arg_cong)
  then have tl: "take (length l) (hd_str st1) = l" by simp
  let ?a = "(hd_str st1)[length l := NUL]"
  have a: "cstr ?a = l" using cstr_stored [OF l(2) _ tl] f(1) l(4) by simp
  have "?a ! 0 = hd_str st1 ! 0" using l(1) by (intro nth_list_update_neq) simp
  also have "\<dots> = hd l" by (rule take_nth_0 [OF tl l(1)])
  finally have "?a ! 0 = hd l" .
  then have z: "?a ! 0 \<noteq> NUL" using no_nul_hd [OF l(2,1)] by simp
  have "NUL \<in> set ?a" using f(1) l(4) by (intro set_update_memI) simp
  then have str: "hdr_string ?a = Inr l" using a by (simp add: hdr_string_def)
  let ?s = "st1\<lparr>hd_recvb := hd_recvb st1 + 1, hd_retry := 50, hd_last := Some LF, hd_str := ?a, hd_cnt := 0\<rparr>"
  have b: "hdr_byte LF (st1\<lparr>hd_recvb := hd_recvb st1 + 1\<rparr>) = hdr_line l ?s"
    using hdr_byte_line [of "st1\<lparr>hd_recvb := hd_recvb st1 + 1\<rparr>" "length l" l] f l(4) z str by simp
  have "hdr_loop st1 (RByte LF # rds) =
     (case hdr_line l ?s of Inl e \<Rightarrow> Inl e | Inr (Some code, st'') \<Rightarrow> Inr (st'', rds, code)
      | Inr (None, st'') \<Rightarrow> hdr_loop st'' rds)"
    using f(4) b by (subst hdr_loop.simps) simp
  moreover have "after_line st (length l + 2) ?s"
    using st1 f(1) by (simp add: after_line_def stored_def algebra_simps)
  moreover have "map RByte (l @ crlf) @ rds = map RByte (l @ [CR]) @ (RByte LF # rds)" by (simp add: crlf_def)
  ultimately show ?thesis using run by (intro exI [of _ ?s]) simp
qed

text \<open>The empty line ends the header.\<close>

lemma hdr_run_blank:
  assumes "length (hd_str st) = 256" and "hd_cnt st = 0" and "0 < hd_retry st"
  shows "\<exists>st'. hdr_loop st (map RByte crlf @ rds) = Inr (st', rds, hd_code st)
    \<and> hd_size st' = hd_size st \<and> hd_enc st' = hd_enc st \<and> hd_recvb st' = hd_recvb st + 2"
proof -
  obtain st1 where run: "hdr_loop st (map RByte [CR] @ (RByte LF # rds)) = hdr_loop st1 (RByte LF # rds)"
    and st1: "stored st [CR] st1"
    using hdr_store [OF assms, of "[CR]" "RByte LF # rds"] by auto
  have f: "length (hd_str st1) = 256" "hd_cnt st1 = 1" "hd_last st1 = Some CR" "0 < hd_retry st1"
    using st1 by (simp_all add: stored_def)
  then have "hd_str st1 \<noteq> []" by auto
  then have "hdr_byte LF (st1\<lparr>hd_recvb := hd_recvb st1 + 1\<rparr>)
     = Inr (Some (hd_code st1), st1\<lparr>hd_recvb := hd_recvb st1 + 1, hd_retry := 50, hd_last := Some LF, hd_str := (hd_str st1)[0 := NUL]\<rparr>)"
    using hdr_byte_blank [of "st1\<lparr>hd_recvb := hd_recvb st1 + 1\<rparr>"] f by simp
  then have "hdr_loop st1 (RByte LF # rds) = Inr (st1\<lparr>hd_recvb := hd_recvb st1 + 1, hd_retry := 50, hd_last := Some LF,
     hd_str := (hd_str st1)[0 := NUL]\<rparr>, rds, hd_code st1)"
    using f(4) by (subst hdr_loop.simps) simp
  then show ?thesis using run st1 by (simp add: crlf_def stored_def)
qed

section \<open>The whole header\<close>

text \<open>What a line says, as the three values the header yields: code, length, chunked flag.\<close>

definition line_effect :: "string \<Rightarrow> int \<times> int \<times> int \<Rightarrow> int \<times> int \<times> int" where
  "line_effect l v = (case v of (code, sz, enc) \<Rightarrow>
     (case scan_status l of Some c \<Rightarrow> (c, sz, enc)
      | None \<Rightarrow> (case scan_length l of Some n \<Rightarrow> (code, n, enc)
      | None \<Rightarrow> (case scan_encoding l of
          Matched e _ \<Rightarrow> (code, sz, if find_sub ''chunked'' e \<noteq> None then 1 else enc)
        | _ \<Rightarrow> v))))"

definition quiet_line :: "string \<Rightarrow> bool" where
  "quiet_line l \<longleftrightarrow> header_line l \<and> scan_encoding l \<noteq> InputEnd \<and> find_sub ''NO CARRIER'' l = None"

lemma hdr_line_quiet:
  assumes "quiet_line l"
  shows "\<exists>st'. hdr_line l st = Inr (None, st')
    \<and> (hd_code st', hd_size st', hd_enc st') = line_effect l (hd_code st, hd_size st, hd_enc st)
    \<and> hd_str st' = hd_str st \<and> hd_cnt st' = hd_cnt st \<and> hd_retry st' = hd_retry st \<and> hd_recvb st' = hd_recvb st"
  using assms
  by (cases "scan_status l"; cases "scan_length l"; cases "scan_encoding l")
    (simp_all add: hdr_line_def line_effect_def quiet_line_def Let_def)

lemma hdr_run:
  assumes "list_all quiet_line ls" and "length (hd_str st) = 256" and "hd_cnt st = 0" and "0 < hd_retry st"
  shows "\<exists>st' code. hdr_loop st (map RByte (concat (map (\<lambda>l. l @ crlf) ls) @ crlf) @ rds) = Inr (st', rds, code)
    \<and> (code, hd_size st', hd_enc st') = fold line_effect ls (hd_code st, hd_size st, hd_enc st)
    \<and> hd_recvb st' = hd_recvb st + of_nat (length (concat (map (\<lambda>l. l @ crlf) ls) @ crlf))"
  using assms
proof (induction ls arbitrary: st)
  case Nil
  from hdr_run_blank [OF Nil.prems(2-4), of rds] show ?case by (auto simp: crlf_def)
next
  case (Cons l ls)
  let ?tl = "map RByte (concat (map (\<lambda>l. l @ crlf) ls) @ crlf) @ rds"
  have q: "quiet_line l" and h: "header_line l" using Cons.prems(1) by (simp_all add: quiet_line_def)
  obtain st1 where st1: "after_line st (length l + 2) st1" and run: "hdr_loop st (map RByte (l @ crlf) @ ?tl) =
     (case hdr_line l st1 of Inl e \<Rightarrow> Inl e | Inr (Some code, st'') \<Rightarrow> Inr (st'', ?tl, code)
      | Inr (None, st'') \<Rightarrow> hdr_loop st'' ?tl)"
    using hdr_run_line [OF Cons.prems(2-4) h] by blast
  obtain st2 where st2: "hdr_line l st1 = Inr (None, st2)"
    "(hd_code st2, hd_size st2, hd_enc st2) = line_effect l (hd_code st1, hd_size st1, hd_enc st1)"
    "hd_str st2 = hd_str st1" "hd_cnt st2 = hd_cnt st1" "hd_retry st2 = hd_retry st1" "hd_recvb st2 = hd_recvb st1"
    using hdr_line_quiet [OF q, of st1] by blast
  have "length (hd_str st2) = 256" "hd_cnt st2 = 0" "0 < hd_retry st2"
    using st1 st2 by (simp_all add: after_line_def)
  then obtain st' code where r: "hdr_loop st2 ?tl = Inr (st', rds, code)"
    and e: "(code, hd_size st', hd_enc st') = fold line_effect ls (hd_code st2, hd_size st2, hd_enc st2)"
    and b: "hd_recvb st' = hd_recvb st2 + of_nat (length (concat (map (\<lambda>l. l @ crlf) ls) @ crlf))"
    using Cons.IH Cons.prems(1) by fastforce
  have "hdr_loop st (map RByte (l @ crlf) @ ?tl) = Inr (st', rds, code)"
    using run st2(1) r by simp
  moreover have "(code, hd_size st', hd_enc st') = fold line_effect (l # ls) (hd_code st, hd_size st, hd_enc st)"
    using e st2(2) st1 by (simp add: after_line_def)
  moreover have "hd_recvb st' = hd_recvb st + of_nat (length (concat (map (\<lambda>l. l @ crlf) (l # ls)) @ crlf))"
    using b st2(6) st1 by (simp add: after_line_def crlf_def algebra_simps)
  ultimately show ?case by (intro exI [of _ st'] exI [of _ code]) simp
qed

section \<open>The body\<close>

text \<open>The characters that are stored: a line feed after a carriage return is dropped.\<close>

fun strip_lf :: "char \<Rightarrow> string \<Rightarrow> string" where
  "strip_lf l [] = []"
| "strip_lf l (c # s) = (if l = CR \<and> c = LF then strip_lf c s else c # strip_lf c s)"

lemma body_copy:
  assumes "bd_copy st = rsize - int (length (bd_buf st))" and "bd_last st = CR \<longrightarrow> bd_fetch_term st"
    and "\<not> bd_fetch_blank st" and "0 < bd_retry st" and "rsize < max_size"
    and "int (length (bd_buf st @ strip_lf (bd_last st) cs)) = rsize"
    and "cs \<noteq> []" and "length (strip_lf (bd_last st) (butlast cs)) < length (strip_lf (bd_last st) cs)"
  shows "\<exists>st'. body_loop enc rsize max_size st (map RByte cs @ rds) = (st', rds)
    \<and> bd_buf st' = bd_buf st @ strip_lf (bd_last st) cs \<and> 0 < bd_retry st'
    \<and> bd_recvb st' = bd_recvb st + of_nat (length cs)"
  using assms
proof (induction cs arbitrary: st)
  case (Cons c cs)
  let ?st = "st\<lparr>bd_recvb := bd_recvb st + 1\<rparr>"
  show ?case
  proof (cases "c = LF \<and> bd_last st = CR")
    case True
    let ?s = "?st\<lparr>bd_last := c, bd_fetch_term := False\<rparr>"
    have ne: "cs \<noteq> []" using Cons.prems(8) True by (auto split: if_splits)
    have "body_byte enc rsize max_size c ?st = (False, ?s)"
      using True Cons.prems(2,3) by (simp add: body_byte_def Let_def)
    then have "body_loop enc rsize max_size st (map RByte (c # cs) @ rds) = body_loop enc rsize max_size ?s (map RByte cs @ rds)"
      using Cons.prems(4) by (subst body_loop.simps) simp
    moreover have "\<exists>st'. body_loop enc rsize max_size ?s (map RByte cs @ rds) = (st', rds)
        \<and> bd_buf st' = bd_buf ?s @ strip_lf (bd_last ?s) cs \<and> 0 < bd_retry st' \<and> bd_recvb st' = bd_recvb ?s + of_nat (length cs)"
      using Cons.prems True ne by (intro Cons.IH) auto
    ultimately show ?thesis using True by (auto simp: algebra_simps)
  next
    case False
    have s: "strip_lf (bd_last st) (c # cs) = c # strip_lf c cs" using False by auto
    have pos: "0 < bd_copy st" "int (length (bd_buf st)) < max_size - 1"
      using Cons.prems(1,5,6) unfolding s by simp_all
    let ?s = "?st\<lparr>bd_last := c, bd_retry := HTTP_POST_FILE_RETRY, bd_buf := bd_buf st @ [c], bd_copy := bd_copy st - 1\<rparr>"
    have byte: "body_byte enc rsize max_size c ?st =
       (if int (length (bd_buf st @ [c])) = rsize then (True, ?s) else (False, ?s\<lparr>bd_fetch_term := True\<rparr>))"
      using False pos Cons.prems(3) by (auto simp: body_byte_def Let_def)
    show ?thesis
    proof (cases "cs = []")
      case True
      then have "int (length (bd_buf st @ [c])) = rsize" using Cons.prems(6) unfolding s by simp
      then have "body_loop enc rsize max_size st (map RByte (c # cs) @ rds) = (?s, rds)"
        using Cons.prems(4) byte True by (subst body_loop.simps) simp
      then show ?thesis using True False by (auto simp: http_consts)
    next
      case ne: False
      have lt: "length (strip_lf c (butlast cs)) < length (strip_lf c cs)"
        using Cons.prems(8) False ne unfolding s by (auto split: if_splits)
      then have "int (length (bd_buf st @ [c])) \<noteq> rsize" using Cons.prems(6) unfolding s by auto
      then have "body_loop enc rsize max_size st (map RByte (c # cs) @ rds)
          = body_loop enc rsize max_size (?s\<lparr>bd_fetch_term := True\<rparr>) (map RByte cs @ rds)"
        using Cons.prems(4) byte by (subst body_loop.simps) simp
      moreover have "\<exists>st'. body_loop enc rsize max_size (?s\<lparr>bd_fetch_term := True\<rparr>) (map RByte cs @ rds) = (st', rds)
        \<and> bd_buf st' = bd_buf (?s\<lparr>bd_fetch_term := True\<rparr>) @ strip_lf (bd_last (?s\<lparr>bd_fetch_term := True\<rparr>)) cs
        \<and> 0 < bd_retry st' \<and> bd_recvb st' = bd_recvb (?s\<lparr>bd_fetch_term := True\<rparr>) + of_nat (length cs)"
        using Cons.prems(1,3,5,6) ne lt unfolding s by (intro Cons.IH) (simp_all add: http_consts)
      ultimately show ?thesis unfolding s by (auto simp: algebra_simps)
    qed
  qed
qed simp

text \<open>As long as characters are missing, the loop only stores.\<close>

lemma body_prefix:
  assumes "bd_copy st = rsize - int (length (bd_buf st))" and "bd_last st = CR \<longrightarrow> bd_fetch_term st"
    and "\<not> bd_fetch_blank st" and "0 < bd_retry st" and "rsize < max_size"
    and "int (length (bd_buf st @ strip_lf (bd_last st) cs)) < rsize"
  shows "\<exists>st'. body_loop enc rsize max_size st (map RByte cs @ rds) = body_loop enc rsize max_size st' rds
    \<and> bd_buf st' = bd_buf st @ strip_lf (bd_last st) cs \<and> 0 < bd_retry st'
    \<and> bd_recvb st' = bd_recvb st + of_nat (length cs)"
  using assms
proof (induction cs arbitrary: st)
  case (Cons c cs)
  let ?st = "st\<lparr>bd_recvb := bd_recvb st + 1\<rparr>"
  show ?case
  proof (cases "c = LF \<and> bd_last st = CR")
    case True
    let ?s = "?st\<lparr>bd_last := c, bd_fetch_term := False\<rparr>"
    have "body_byte enc rsize max_size c ?st = (False, ?s)"
      using True Cons.prems(2,3) by (simp add: body_byte_def Let_def)
    then have "body_loop enc rsize max_size st (map RByte (c # cs) @ rds) = body_loop enc rsize max_size ?s (map RByte cs @ rds)"
      using Cons.prems(4) by (subst body_loop.simps) simp
    moreover have "\<exists>st'. body_loop enc rsize max_size ?s (map RByte cs @ rds) = body_loop enc rsize max_size st' rds
        \<and> bd_buf st' = bd_buf ?s @ strip_lf (bd_last ?s) cs \<and> 0 < bd_retry st' \<and> bd_recvb st' = bd_recvb ?s + of_nat (length cs)"
      using Cons.prems True by (intro Cons.IH) auto
    ultimately show ?thesis using True by (auto simp: algebra_simps)
  next
    case False
    have s: "strip_lf (bd_last st) (c # cs) = c # strip_lf c cs" using False by auto
    have pos: "0 < bd_copy st" "int (length (bd_buf st)) < max_size - 1" "int (length (bd_buf st @ [c])) \<noteq> rsize"
      using Cons.prems(1,5,6) unfolding s by simp_all
    let ?s = "?st\<lparr>bd_last := c, bd_retry := HTTP_POST_FILE_RETRY, bd_buf := bd_buf st @ [c], bd_copy := bd_copy st - 1,
       bd_fetch_term := True\<rparr>"
    have "body_byte enc rsize max_size c ?st = (False, ?s)"
      using False pos Cons.prems(3) by (auto simp: body_byte_def Let_def)
    then have "body_loop enc rsize max_size st (map RByte (c # cs) @ rds) = body_loop enc rsize max_size ?s (map RByte cs @ rds)"
      using Cons.prems(4) by (subst body_loop.simps) simp
    moreover have "\<exists>st'. body_loop enc rsize max_size ?s (map RByte cs @ rds) = body_loop enc rsize max_size st' rds
        \<and> bd_buf st' = bd_buf ?s @ strip_lf (bd_last ?s) cs \<and> 0 < bd_retry st' \<and> bd_recvb st' = bd_recvb ?s + of_nat (length cs)"
      using Cons.prems(1,3,5,6) unfolding s by (intro Cons.IH) (simp_all add: http_consts)
    ultimately show ?thesis unfolding s by (auto simp: algebra_simps)
  qed
qed auto

lemma body_loop_idle:
  "0 \<le> bd_retry st \<Longrightarrow> body_loop enc rsize max_size st [] = (st\<lparr>bd_retry := 0\<rparr>, [])"
proof (induction "nat (bd_retry st)" arbitrary: st)
  case 0
  then have "bd_retry st = 0" by simp
  then show ?case by (subst body_loop.simps) simp
next
  case (Suc n)
  then have "body_loop enc rsize max_size (st\<lparr>bd_retry := bd_retry st - 1\<rparr>) [] = (st\<lparr>bd_retry := 0\<rparr>, [])"
    using Suc.hyps(1) [of "st\<lparr>bd_retry := bd_retry st - 1\<rparr>"] by simp
  moreover have "0 < bd_retry st" using Suc.hyps(2) by simp
  ultimately show ?case by (subst body_loop.simps) simp
qed

lemma hdr_loop_idle:
  "0 \<le> hd_retry st \<Longrightarrow> hdr_loop st [] = Inr (st\<lparr>hd_retry := 0\<rparr>, [], hd_code st)"
proof (induction "nat (hd_retry st)" arbitrary: st)
  case 0
  then have "hd_retry st = 0" by simp
  then show ?case by (subst hdr_loop.simps) (simp add: hdr_result_def)
next
  case (Suc n)
  then have "hdr_loop (st\<lparr>hd_retry := hd_retry st - 1\<rparr>) [] = Inr (st\<lparr>hd_retry := 0\<rparr>, [], hd_code st)"
    using Suc.hyps(1) [of "st\<lparr>hd_retry := hd_retry st - 1\<rparr>"] by simp
  moreover have "0 < hd_retry st" using Suc.hyps(2) by simp
  ultimately show ?case by (subst hdr_loop.simps) simp
qed

section \<open>Properties\<close>

definition header_text :: "string list \<Rightarrow> string" where
  "header_text ls = concat (map (\<lambda>l. l @ crlf) ls) @ crlf"

lemma header_read:
  assumes "list_all quiet_line ls" and "length junk = 256"
    and "fold line_effect ls (HTTP_ERROR_PARSING_HEADER, 0, 0) = (code, n, enc)"
  shows "\<exists>hd. getResponseHeader junk recvb (map RByte (header_text ls) @ rds) HTTP_POST_FILE_RETRY = Inr (hd, rds, code)
    \<and> hd_size hd = n \<and> hd_enc hd = enc \<and> hd_recvb hd = recvb + of_nat (length (header_text ls))"
  using hdr_run [OF assms(1), of "hdr_init junk HTTP_POST_FILE_RETRY recvb" rds] assms(2,3)
  by (auto simp: getResponseHeader_def header_text_def hdr_init_def http_consts)

text \<open>
  C18. A complete response with a \<open>Content-Length\<close>: the code of the status line is returned,
  the answer is the body without each line feed that follows a carriage return, and exactly
  the bytes of the response are consumed. (The length has to count the body without those
  line feeds: with the length that HTTP prescribes, a body that contains an end of line is
  read past its end.) A body without ends of lines is stored as it is.
\<close>

theorem response_received:
  assumes "list_all quiet_line ls" and "length junk = 256"
    and "fold line_effect ls (HTTP_ERROR_PARSING_HEADER, 0, 0) = (code, n, 0)" and "0 < code"
    and "n = int (length (strip_lf NUL cs))" and "n < max_size" and "cs \<noteq> []"
    and "length (strip_lf NUL (butlast cs)) < length (strip_lf NUL cs)"
  shows "getResponse junk p (map RByte (header_text ls @ cs) @ rds) buffer max_size
     = Inr (p\<lparr>hh_recvid := hh_recvid p + 1, hh_recvb := hh_recvb p + of_nat (length (header_text ls @ cs))\<rparr>,
            rds, strip_lf NUL cs, code)"
proof -
  obtain hd where hd: "getResponseHeader junk (hh_recvb p) (map RByte (header_text ls) @ (map RByte cs @ rds)) HTTP_POST_FILE_RETRY
      = Inr (hd, map RByte cs @ rds, code)"
    "hd_size hd = n" "hd_enc hd = 0" "hd_recvb hd = hh_recvb p + of_nat (length (header_text ls))"
    using header_read [OF assms(1-3)] by blast
  let ?st = "\<lparr>bd_buf = [], bd_copy = n, bd_enc = [], bd_retry = HTTP_POST_FILE_RETRY, bd_last = NUL,
      bd_fetch_term = False, bd_fetch_blank = False, bd_recvb = hd_recvb hd\<rparr>"
  obtain st' where "body_loop 0 n max_size ?st (map RByte cs @ rds) = (st', rds)"
    "bd_buf st' = strip_lf NUL cs" "0 < bd_retry st'" "bd_recvb st' = hd_recvb hd + of_nat (length cs)"
    using body_copy [of ?st n max_size cs 0 rds] assms(5-8) by (auto simp: http_consts)
  then show ?thesis using hd assms(4)
    by (simp add: getResponse_def Let_def algebra_simps)
qed

definition ex_http :: http_handle where
  "ex_http = \<lparr>hh_sock = 3, hh_answer = [], hh_retcode = 0, hh_exit = 0, hh_sendid = 1, hh_recvid = 0, hh_sentb = 0, hh_recvb = 0\<rparr>"

definition ex_lines :: "string list" where
  "ex_lines = [''HTTP/1.1 200 OK'', ''Content-Length: 2'']"

lemma ex_lines_ok: "list_all quiet_line ex_lines"
  "fold line_effect ex_lines (HTTP_ERROR_PARSING_HEADER, 0, 0) = (200, 2, 0)"
  by code_simp+

theorem response_received_witness:
  "getResponse (replicate 256 NUL) ex_http (map RByte (header_text ex_lines @ ''{}'') @ [RNone]) [] 8192
     = Inr (ex_http\<lparr>hh_recvid := hh_recvid ex_http + 1, hh_recvb := hh_recvb ex_http + of_nat (length (header_text ex_lines @ ''{}''))\<rparr>,
            [RNone], strip_lf NUL ''{}'', 200)"
  by (rule response_received [OF ex_lines_ok(1) _ ex_lines_ok(2)]) simp_all

text \<open>
  Timeouts are never reported as such: on a socket where nothing arrives the result is
  the code of an unparsable header, not \<open>HTTP_ERROR_TIMEOUT\<close>, and the old answer stays; a
  body that stops before its length is returned cut, with the code of its status line.
\<close>

theorem timeout_not_reported:
  assumes "list_all quiet_line ls" and "length junk = 256"
    and "fold line_effect ls (HTTP_ERROR_PARSING_HEADER, 0, 0) = (code, n, 0)" and "0 < code"
    and "int (length (strip_lf NUL cs)) < n" and "n < max_size"
  shows "getResponse junk p [] buffer max_size = Inr (p, [], buffer, HTTP_ERROR_PARSING_HEADER)
    \<and> (\<exists>p'. getResponse junk p (map RByte (header_text ls @ cs)) buffer max_size = Inr (p', [], strip_lf NUL cs, code))"
proof
  have "getResponseHeader junk (hh_recvb p) [] HTTP_POST_FILE_RETRY
     = Inr ((hdr_init junk HTTP_POST_FILE_RETRY (hh_recvb p))\<lparr>hd_retry := 0\<rparr>, [], HTTP_ERROR_PARSING_HEADER)"
    unfolding getResponseHeader_def by (subst hdr_loop_idle) (simp_all add: hdr_init_def http_consts)
  then show "getResponse junk p [] buffer max_size = Inr (p, [], buffer, HTTP_ERROR_PARSING_HEADER)"
    by (simp add: getResponse_def http_consts hdr_init_def)
  obtain hd where hd: "getResponseHeader junk (hh_recvb p) (map RByte (header_text ls) @ map RByte cs) HTTP_POST_FILE_RETRY
      = Inr (hd, map RByte cs, code)" "hd_size hd = n" "hd_enc hd = 0"
    using header_read [OF assms(1-3)] by blast
  let ?st = "\<lparr>bd_buf = [], bd_copy = n, bd_enc = [], bd_retry = HTTP_POST_FILE_RETRY, bd_last = NUL,
      bd_fetch_term = False, bd_fetch_blank = False, bd_recvb = hd_recvb hd\<rparr>"
  obtain st' where st': "body_loop 0 n max_size ?st (map RByte cs) = body_loop 0 n max_size st' []"
    "bd_buf st' = strip_lf NUL cs" "0 < bd_retry st'"
    using body_prefix [of ?st n max_size cs 0 "[]"] assms(5,6) by (auto simp: http_consts)
  then have "body_loop 0 n max_size ?st (map RByte cs) = (st'\<lparr>bd_retry := 0\<rparr>, [])"
    by (simp add: body_loop_idle)
  then show "\<exists>p'. getResponse junk p (map RByte (header_text ls @ cs)) buffer max_size = Inr (p', [], strip_lf NUL cs, code)"
    using hd assms(4) st'(2) by (simp add: getResponse_def)
qed

theorem timeout_not_reported_witness:
  "getResponse (replicate 256 NUL) ex_http [] ''old'' 8192 = Inr (ex_http, [], ''old'', HTTP_ERROR_PARSING_HEADER)
   \<and> (\<exists>p'. getResponse (replicate 256 NUL) ex_http (map RByte (header_text ex_lines @ ''{'')) ''old'' 8192
        = Inr (p', [], strip_lf NUL ''{'', 200))"
  by (rule timeout_not_reported [OF ex_lines_ok(1) _ ex_lines_ok(2)]) simp_all

text \<open>
  Copying the answer out: the terminated answer when it is shorter than the size that
  the caller gives, its first \<open>size\<close> bytes without a terminator when it is longer; an
  answer of exactly that size writes one byte past a buffer of that size. Waiting adds
  nothing to it, but when the answer has already arrived, the ids are equal and the call
  still waits for another signal.
\<close>

theorem get_answer_outcomes:
  assumes "0 \<le> sz" and "sz < 2 ^ 31" and "cap = nat sz"
  shows "http_get_answer p cap sz =
      (if int (length (hh_answer p)) < sz then Inr (hh_answer p @ [NUL], hh_retcode p)
       else if int (length (hh_answer p)) = sz then Inl OutOfBounds
       else Inr (take cap (hh_answer p), hh_retcode p))
    \<and> (hh_sendid p = hh_recvid p \<longrightarrow> http_wait_answer (\<lambda>h. None) p cap sz = Inl NoReturn)"
proof -
  have "size_of_int sz = nat sz" using assms(1,2) size_of_int_nat [of "nat sz"] by simp
  then show ?thesis
    using assms by (auto simp: http_get_answer_def Let_def http_wait_answer_def)
qed

theorem get_answer_outcomes_witness:
  "http_get_answer (ex_http\<lparr>hh_answer := ''abc''\<rparr>) 3 3 = Inl OutOfBounds
   \<and> http_get_answer (ex_http\<lparr>hh_answer := ''abc''\<rparr>) 2 2 = Inr (''ab'', 0)
   \<and> http_get_answer (ex_http\<lparr>hh_answer := ''abc''\<rparr>) 4 4 = Inr (''abc'' @ [NUL], 0)"
  using get_answer_outcomes [of 3 3 "ex_http\<lparr>hh_answer := ''abc''\<rparr>"]
    get_answer_outcomes [of 2 2 "ex_http\<lparr>hh_answer := ''abc''\<rparr>"]
    get_answer_outcomes [of 4 4 "ex_http\<lparr>hh_answer := ''abc''\<rparr>"]
  by (simp add: ex_http_def)

lemma add_headers_eq:
  "add_headers ss buf = (if ss = [] \<or> length buf + length (concat ss) + 1 \<le> 4096 then Inr (buf @ concat ss) else Inl OutOfBounds)"
proof (induction ss arbitrary: buf)
  case (Cons s ss)
  then show ?case by (auto simp: add_header_def guard_res_def)
qed simp

text \<open>
  A request is the concatenation of its header lines and, with parameters, of the body:
  it is written in one call, counted, and its length returned when all of it was taken,
  otherwise the result is -4; a request of 4096 bytes or more is written past the end of
  the local buffer, as every line is given the size of the whole buffer as its bound.
\<close>

theorem request_outcomes:
  assumes "req = concat (request_lines meth hostname agent api content parameters)"
  shows "http_perform_request wr p meth hostname agent api content parameters =
     (if 4096 \<le> length req then Inl OutOfBounds
      else if size_of_int (wr req) = length req
        then Inr (p\<lparr>hh_sentb := hh_sentb p + of_int (wr req), hh_sendid := hh_sendid p + 1\<rparr>, wr req)
      else Inr (p, - 4))"
proof -
  have "request_lines meth hostname agent api content parameters \<noteq> []" by (simp add: request_lines_def)
  then have "add_headers (request_lines meth hostname agent api content parameters) []
      = (if 4096 \<le> length req then Inl OutOfBounds else Inr req)"
    by (auto simp: add_headers_eq assms)
  then show ?thesis by (simp add: http_perform_request_def Let_def)
qed

theorem request_outcomes_witness:
  "\<exists>p'. http_perform_request (\<lambda>b. int (length b)) ex_http ''GET'' ''h'' ''a'' ''/x'' ''t'' None = Inr (p', 79) \<and> hh_sendid p' = 2"
  using request_outcomes [of _ "''GET''" "''h''" "''a''" "''/x''" "''t''" None "\<lambda>b. int (length b)" ex_http, OF refl]
  by (simp add: request_lines_def crlf_def ex_http_def size_of_int_def)

end
