(* ===== verification/CrestBson.thy ===== *)
theory CrestBson
  imports HttpLib CrestDs
begin

text \<open>
  Reading data sets back: the text search \<open>getBsonValue_r\<close>, \<open>clean_bson\<close>, and the calls
  \<open>chaos_crest_cu_get\<close>, \<open>chaos_crest_cu_get_key_value\<close>, \<open>chaos_crest_cu_get_channel\<close> and
  \<open>chaos_crest_cu_cmd\<close>. In this build the code that would send a request is left out and
  the local \<open>ret\<close> is never assigned: its indeterminate value is the parameter \<open>ret\<close>, and
  the contents of uninitialised buffers are parameters too.
\<close>

section \<open>Searching a value\<close>

text \<open>
  The loop of \<open>getBsonValue_r\<close> from \<open>pnt\<close> on; \<open>out\<close> is what is in the buffer, so that
  \<open>cnt\<close> is its length.
\<close>

fun bson_loop :: "int \<Rightarrow> string \<Rightarrow> int \<Rightarrow> string \<Rightarrow> string" where
  "bson_loop maxsize [] brace out = out"
| "bson_loop maxsize (c # s) brace out =
     (if c = CHR '','' \<or> maxsize \<le> int (length out) then out
      else if c = CHR '' '' \<or> c = CHR 0x22 then bson_loop maxsize s brace out
      else if c = CHR ''{'' then
        (if brace + 1 = 1 then bson_loop maxsize s (brace + 1) out
         else bson_loop maxsize s (brace + 1) (out @ [c]))
      else if c = CHR ''}'' then
        (if brace = 1 then out else bson_loop maxsize s (brace - 1) (out @ [c]))
      else bson_loop maxsize s brace (out @ [c]))"

definition bson_find :: "string \<Rightarrow> string \<Rightarrow> string option" where
  "bson_find input key =
     (let m1 = sn_store 256 (''\"'' @ key @ ''\" :'');
          m2 = sn_store 256 (key @ '':'')
      in case find_sub m1 input of
           Some t \<Rightarrow> Some (drop (length m1) t)
         | None \<Rightarrow> (case find_sub m2 input of Some t \<Rightarrow> Some (drop (length m2) t) | None \<Rightarrow> None))"

text \<open>The terminator is written at \<open>buffer[cnt]\<close>, also when \<open>cnt\<close> has reached the size.\<close>

definition getBsonValue_r :: "string \<Rightarrow> string \<Rightarrow> nat \<Rightarrow> int \<Rightarrow> string res" where
  "getBsonValue_r input key cap maxsize =
     (let out = (case bson_find input key of None \<Rightarrow> [] | Some pnt \<Rightarrow> bson_loop maxsize pnt 0 [])
      in guard_res (length out < cap) OutOfBounds (Inr out))"

text \<open>\<open>getBsonValue\<close> with its static buffer of 1024 bytes.\<close>

definition getBsonValue :: "string \<Rightarrow> string \<Rightarrow> string res" where
  "getBsonValue input key = getBsonValue_r input key 1024 1024"

text \<open>
  The same loop when input and buffer are one array, as in the second call of
  \<open>chaos_crest_cu_get\<close>: \<open>buf\<close> is the array, \<open>i\<close> the index of \<open>pnt\<close>. The index has to stay
  inside the array for the read.
\<close>

function bson_inplace :: "int \<Rightarrow> string \<Rightarrow> nat \<Rightarrow> nat \<Rightarrow> int \<Rightarrow> (string \<times> nat) res" where
  "bson_inplace maxsize buf i cnt brace =
     (if length buf \<le> i then Inl OutOfBounds
      else let c = buf ! i in
        if c = NUL \<or> c = CHR '','' \<or> maxsize \<le> int cnt then Inr (buf, cnt)
        else if c = CHR '' '' \<or> c = CHR 0x22 then bson_inplace maxsize buf (i + 1) cnt brace
        else if c = CHR ''{'' then
          (if brace + 1 = 1 then bson_inplace maxsize buf (i + 1) cnt (brace + 1)
           else bson_inplace maxsize (buf[cnt := c]) (i + 1) (cnt + 1) (brace + 1))
        else if c = CHR ''}'' then
          (if brace = 1 then Inr (buf[cnt := NUL], cnt)
           else bson_inplace maxsize (buf[cnt := c]) (i + 1) (cnt + 1) (brace - 1))
        else bson_inplace maxsize (buf[cnt := c]) (i + 1) (cnt + 1) brace)"
  by auto

termination by (relation "measure (\<lambda>(m, buf, i, cnt, brace). length buf - i)") (auto simp: Let_def)

declare bson_inplace.simps [simp del]

section \<open>Cleaning\<close>

text \<open>\<open>clean_bson\<close> copies every character but the quotes down the same array.\<close>

definition clean_bson :: "string \<Rightarrow> string" where
  "clean_bson buf = filter (\<lambda>c. c \<noteq> CHR 0x22) buf"

section \<open>The calls\<close>

definition c_sprintf :: "nat \<Rightarrow> string \<Rightarrow> string res" where
  "c_sprintf cap s = guard_res (length s < cap) OutOfBounds (Inr s)"

definition chaos_crest_cu_cmd :: "int \<Rightarrow> string option \<Rightarrow> string option \<Rightarrow> string option \<Rightarrow> int res" where
  "chaos_crest_cu_cmd ret cuname cmd args =
     (case (cmd, cuname) of
        (Some cm, Some cu) \<Rightarrow>
          rbind (case args of
                   Some a \<Rightarrow> c_sprintf 1024 (''/CU?dev='' @ cu @ ''&cmd='' @ cm @ ''&parm='' @ a)
                 | None \<Rightarrow> c_sprintf 1024 (''/CU?dev='' @ cu @ ''&cmd='' @ cm))
            (\<lambda>command. Inr (if ret = 200 then 0 else ret))
      | _ \<Rightarrow> Inr (- 1))"

text \<open>\<open>atoll\<close>, clamped to a \<open>long long\<close>, as \<open>uint64_t\<close>.\<close>

definition c_atoll :: "string \<Rightarrow> u64" where
  "c_atoll s0 =
     (let s = dropWhile c_isspace s0;
          neg = (s \<noteq> [] \<and> hd s = CHR ''-'');
          t = (if s \<noteq> [] \<and> (hd s = CHR ''-'' \<or> hd s = CHR ''+'') then tl s else s);
          n = int (read_nat (takeWhile c_isdigit t))
      in of_int (clamp64 (if neg then - n else n)))"

text \<open>\<open>output\<close> is the string that the caller's buffer holds already.\<close>

definition chaos_crest_cu_get :: "int \<Rightarrow> string option \<Rightarrow> string option \<Rightarrow> u64 res" where
  "chaos_crest_cu_get ret cuname output =
     (case (output, cuname) of
        (Some out, Some cu) \<Rightarrow>
          rbind (c_sprintf 256 (''/CU?dev='' @ cu @ ''&cmd=status'')) (\<lambda>cmd.
            if ret = 200 then
              rbind (getBsonValue out ''dpck_ts'') (\<lambda>tmp.
              rbind (getBsonValue tmp ''$numberLong'') (\<lambda>tmp.
              Inr (if tmp \<noteq> [] then c_atoll tmp else 0)))
            else Inr 0)
      | _ \<Rightarrow> Inr 0)"

lemma length_dropWhile_hd: "t \<noteq> [] \<Longrightarrow> P (hd t) \<Longrightarrow> length (dropWhile P t) < length t"
  by (cases t) (auto simp: less_Suc_eq_le length_dropWhile_le)

text \<open>\<open>strtok\<close> with the delimiter ','.\<close>

function tokens :: "string \<Rightarrow> string list" where
  "tokens s =
     (let t = dropWhile (\<lambda>c. c = CHR '','') s in
      if t = [] then []
      else takeWhile (\<lambda>c. c \<noteq> CHR '','') t # tokens (dropWhile (\<lambda>c. c \<noteq> CHR '','') t))"
  by auto

termination
proof (relation "measure length", goal_cases)
  case (2 s t)
  then have "hd t \<noteq> CHR '',''" using hd_dropWhile [of "\<lambda>c. c = CHR '',''" s] by simp
  with 2 have "length (dropWhile (\<lambda>c. c \<noteq> CHR '','') t) < length t" by (intro length_dropWhile_hd)
  moreover have "length t \<le> length s" using 2 by (simp add: length_dropWhile_le)
  ultimately show ?case by simp
qed simp

text \<open>\<open>sscanf\<close> with white space and a literal character, and with \<open>%s\<close> into 256 bytes.\<close>

definition scan_ch :: "char \<Rightarrow> string \<Rightarrow> string option" where
  "scan_ch c s0 = (case dropWhile c_isspace s0 of d # s \<Rightarrow> if c = d then Some s else None | [] \<Rightarrow> None)"

definition scan_tok :: "string \<Rightarrow> (string \<times> string) option res" where
  "scan_tok s =
     (case scan_s s of
        Matched t r \<Rightarrow> guard_res (length t < 256) OutOfBounds (Inr (Some (t, r)))
      | _ \<Rightarrow> Inr None)"

definition scan_pair :: "string \<Rightarrow> (string \<times> string) option res" where
  "scan_pair pnt =
     rbind (scan_tok pnt) (\<lambda>k. case k of None \<Rightarrow> Inr None
     | Some (key, r) \<Rightarrow>
        rbind (case Option.bind (scan_ch CHR '':'' r) (scan_ch CHR ''{'') of
                 None \<Rightarrow> Inr None
               | Some r \<Rightarrow> rbind (scan_tok r) (\<lambda>ty. case ty of None \<Rightarrow> Inr None
                  | Some (_, r) \<Rightarrow>
                     (case scan_ch CHR '':'' r of None \<Rightarrow> Inr None
                      | Some r \<Rightarrow> rbind (scan_tok r) (\<lambda>v. Inr (map_option fst v)))))
          (\<lambda>v3. case v3 of Some v \<Rightarrow> Inr (Some (key, v))
           | None \<Rightarrow>
              (case scan_ch CHR '':'' r of None \<Rightarrow> Inr None
               | Some r \<Rightarrow> rbind (scan_tok r) (\<lambda>v. Inr (map_option (\<lambda>(v, _). (key, v)) v)))))"

definition add_csv :: "nat \<Rightarrow> string \<Rightarrow> string \<Rightarrow> string res" where
  "add_csv cap acc s = c_sprintf cap (if acc = [] then s else acc @ '','' @ s)"

fun collect_pairs :: "nat \<Rightarrow> string list \<Rightarrow> string \<Rightarrow> string \<Rightarrow> (string \<times> string) res" where
  "collect_pairs cap [] keys values = Inr (keys, values)"
| "collect_pairs cap (pnt # ps) keys values =
     rbind (scan_pair pnt) (\<lambda>kv. case kv of
       None \<Rightarrow> collect_pairs cap ps keys values
     | Some (k, v) \<Rightarrow>
         rbind (add_csv cap keys k) (\<lambda>keys'.
         rbind (add_csv cap values v) (\<lambda>values'.
         collect_pairs cap ps keys' values')))"

text \<open>
  \<open>junk\<close> is the string that the uninitialised \<open>tmpbuffer\<close> holds; \<open>cap\<close> is the size of the
  two buffers of the caller. The result is \<open>None\<close> for buffers that are left alone.
\<close>

definition chaos_crest_cu_get_key_value ::
  "int \<Rightarrow> string \<Rightarrow> string option \<Rightarrow> bool \<Rightarrow> nat \<Rightarrow> ((string \<times> string) option \<times> u64) res" where
  "chaos_crest_cu_get_key_value ret junk cuname have_buffers cap =
     (if \<not> have_buffers \<or> cuname = None then Inr (None, 0)
      else rbind (chaos_crest_cu_get ret cuname (Some junk)) (\<lambda>rett.
        if rett > 0 then
          rbind (collect_pairs cap (tokens (clean_bson junk)) [] []) (\<lambda>kv. Inr (Some kv, rett))
        else Inr (None, 0)))"

definition chaos_crest_cu_get_channel ::
  "int \<Rightarrow> string \<Rightarrow> string option \<Rightarrow> string \<Rightarrow> nat \<Rightarrow> int \<Rightarrow> (string option \<times> u64) res" where
  "chaos_crest_cu_get_channel ret junk cuname channame cap maxsize =
     rbind (chaos_crest_cu_get ret cuname (Some junk)) (\<lambda>r.
       if r > 0 then
         rbind (getBsonValue_r junk channame cap maxsize) (\<lambda>v. Inr (Some v, if v \<noteq> [] then r else 0))
       else Inr (None, 0))"

section \<open>Lemmas\<close>

lemma find_sub_None: "pat \<noteq> [] \<Longrightarrow> hd pat \<notin> set s \<Longrightarrow> find_sub pat s = None"
proof (induction s)
  case Nil
  then show ?case by (simp add: find_sub.simps)
next
  case (Cons c s)
  then have "take (length pat) (c # s) \<noteq> pat" by (cases pat) auto
  with Cons show ?case by (subst find_sub.simps) simp
qed

lemma find_sub_here: "find_sub pat (pat @ s) = Some (pat @ s)"
  by (subst find_sub.simps) simp

definition plain_char :: "char \<Rightarrow> bool" where
  "plain_char c \<longleftrightarrow> c \<noteq> CHR '','' \<and> c \<noteq> CHR '' '' \<and> c \<noteq> CHR 0x22 \<and> c \<noteq> CHR ''{'' \<and> c \<noteq> CHR ''}''"

lemma bson_loop_plain:
  "list_all plain_char cs \<Longrightarrow> int (length (out @ cs)) \<le> maxsize \<Longrightarrow>
     bson_loop maxsize (cs @ s) brace out = bson_loop maxsize s brace (out @ cs)"
proof (induction cs arbitrary: out)
  case (Cons c cs)
  then have "bson_loop maxsize ((c # cs) @ s) brace out = bson_loop maxsize (cs @ s) brace (out @ [c])"
    by (simp add: plain_char_def)
  also have "\<dots> = bson_loop maxsize s brace ((out @ [c]) @ cs)" using Cons by (intro Cons.IH) simp_all
  finally show ?case by simp
qed simp

lemma digit_plain: "c_isdigit c \<Longrightarrow> plain_char c"
  by (auto simp: plain_char_def c_isdigit_def char_code_def)

lemma digits_plain: "list_all plain_char (show_nat n)"
  using show_nat_digits [of n] by (auto simp: list_all_iff digit_plain)

lemma digit_not_special: "c_isdigit c \<Longrightarrow> \<not> c_isspace c \<and> c \<noteq> CHR ''-'' \<and> c \<noteq> CHR ''+''"
  by (auto simp: c_isdigit_def c_isspace_def char_code_def)

lemma atoll_show_nat: "n < 2 ^ 63 \<Longrightarrow> c_atoll (show_nat n) = of_nat n"
proof -
  assume n: "n < 2 ^ 63"
  obtain c s where cs: "show_nat n = c # s" using show_nat_not_Nil [of n] by (cases "show_nat n") auto
  have d: "list_all c_isdigit (show_nat n)" by (rule show_nat_digits)
  then have c: "\<not> c_isspace c" "c \<noteq> CHR ''-''" "c \<noteq> CHR ''+''" using digit_not_special [of c] by (simp_all add: cs)
  have tw: "takeWhile c_isdigit (show_nat n) = show_nat n" using d by (simp add: takeWhile_eq_all_conv list_all_iff)
  have "dropWhile c_isspace (show_nat n) = show_nat n" using c by (simp add: cs)
  moreover have "clamp64 (int n) = int n" using n by (simp add: clamp64_def)
  moreover have "hd (show_nat n) = c" by (simp add: cs)
  ultimately show ?thesis using c by (simp add: c_atoll_def Let_def tw read_show_nat)
qed

lemma inplace_eq:
  assumes "i < length buf" and "NUL \<in> set (drop i buf)" and "cnt \<le> i"
    and "out = bson_loop maxsize (cstr (drop i buf)) brace (take cnt buf)"
  shows "\<exists>buf'. bson_inplace maxsize buf i cnt brace = Inr (buf', length out) \<and> take (length out) buf' = out"
  using assms
proof (induction maxsize buf i cnt brace arbitrary: out rule: bson_inplace.induct)
  case (1 maxsize buf i cnt brace)
  let ?c = "buf ! i"
  have d: "drop i buf = ?c # drop (Suc i) buf" using "1.prems"(1) by (simp add: Cons_nth_drop_Suc)
  have len: "length (take cnt buf) = cnt" using "1.prems"(1,3) by simp
  have i: "\<not> length buf \<le> i" using "1.prems"(1) by simp
  show ?case
  proof (cases "?c = NUL \<or> ?c = CHR '','' \<or> maxsize \<le> int cnt")
    case True
    then have "out = take cnt buf" using "1.prems"(4) d len by (cases "?c = NUL") (auto simp: cstr_def)
    moreover have "bson_inplace maxsize buf i cnt brace = Inr (buf, cnt)"
      using True i by (subst bson_inplace.simps) auto
    ultimately show ?thesis using len by auto
  next
    case False
    then have nz: "?c \<noteq> NUL" by simp
    have cs: "cstr (drop i buf) = ?c # cstr (drop (Suc i) buf)" using d nz by (simp add: cstr_def)
    have nul: "NUL \<in> set (drop (Suc i) buf)" using "1.prems"(2) d nz by auto
    then have lt: "Suc i < length buf" by (metis drop_eq_Nil linorder_not_less empty_iff list.set(1))
    have st: "take (Suc cnt) (buf[cnt := ?c]) = take cnt buf @ [?c]"
      using "1.prems"(1,3) by (simp add: take_Suc_conv_app_nth)
    have dr: "drop (Suc i) (buf[cnt := ?c]) = drop (Suc i) buf" using "1.prems"(3) by simp
    show ?thesis
    proof (cases "?c = CHR '' '' \<or> ?c = CHR 0x22")
      case True
      then have "bson_inplace maxsize buf i cnt brace = bson_inplace maxsize buf (i + 1) cnt brace"
        using False i by (subst bson_inplace.simps) auto
      moreover have "\<exists>buf'. bson_inplace maxsize buf (i + 1) cnt brace = Inr (buf', length out) \<and> take (length out) buf' = out"
        using False True nul lt "1.prems" cs len i by (intro "1.IH"(1)) auto
      ultimately show ?thesis by simp
    next
      case s: False
      show ?thesis
      proof (cases "?c = CHR ''{''")
        case True
        show ?thesis
        proof (cases "brace + 1 = 1")
          case b: True
          then have "bson_inplace maxsize buf i cnt brace = bson_inplace maxsize buf (i + 1) cnt (brace + 1)"
            using False i True by (subst bson_inplace.simps) (simp add: Let_def)
          moreover have "\<exists>buf'. bson_inplace maxsize buf (i + 1) cnt (brace + 1) = Inr (buf', length out) \<and> take (length out) buf' = out"
            using False True b s nul lt "1.prems" cs len i by (intro "1.IH"(2)) auto
          ultimately show ?thesis by simp
        next
          case b: False
          then have "bson_inplace maxsize buf i cnt brace = bson_inplace maxsize (buf[cnt := ?c]) (i + 1) (cnt + 1) (brace + 1)"
            using False i True by (subst bson_inplace.simps) (simp add: Let_def)
          moreover have "\<exists>buf'. bson_inplace maxsize (buf[cnt := ?c]) (i + 1) (cnt + 1) (brace + 1) = Inr (buf', length out)
              \<and> take (length out) buf' = out"
            using False True b s nul lt "1.prems" cs len i st dr by (intro "1.IH"(3)) auto
          ultimately show ?thesis by simp
        qed
      next
        case o: False
        show ?thesis
        proof (cases "?c = CHR ''}''")
          case True
          show ?thesis
          proof (cases "brace = 1")
            case b: True
            then have "bson_inplace maxsize buf i cnt brace = Inr (buf[cnt := NUL], cnt)"
              using False i True s by (subst bson_inplace.simps) (simp add: Let_def)
            moreover have "out = take cnt buf" using "1.prems"(4) cs True b False len by simp
            ultimately show ?thesis using len by simp
          next
            case b: False
            then have "bson_inplace maxsize buf i cnt brace = bson_inplace maxsize (buf[cnt := ?c]) (i + 1) (cnt + 1) (brace - 1)"
              using False i True s by (subst bson_inplace.simps) (simp add: Let_def)
            moreover have "\<exists>buf'. bson_inplace maxsize (buf[cnt := ?c]) (i + 1) (cnt + 1) (brace - 1) = Inr (buf', length out)
                \<and> take (length out) buf' = out"
              using False True b s o nul lt "1.prems" cs len i st dr by (intro "1.IH"(4)) auto
            ultimately show ?thesis by simp
          qed
        next
          case c: False
          then have "bson_inplace maxsize buf i cnt brace = bson_inplace maxsize (buf[cnt := ?c]) (i + 1) (cnt + 1) brace"
            using False i o s by (subst bson_inplace.simps) (simp add: Let_def)
          moreover have "\<exists>buf'. bson_inplace maxsize (buf[cnt := ?c]) (i + 1) (cnt + 1) brace = Inr (buf', length out)
              \<and> take (length out) buf' = out"
            using False c s o nul lt "1.prems" cs len i st dr by (intro "1.IH"(5)) auto
          ultimately show ?thesis by simp
        qed
      qed
    qed
  qed
qed

section \<open>Properties\<close>

text \<open>
  The time stamp of a data set: when the first occurrence of the quoted key
  \<open>dpck_ts\<close> with its colon is followed by an object with the number under \<open>$numberLong\<close>,
  \<open>chaos_crest_cu_get\<close> returns that number (if the unassigned \<open>ret\<close> happens to be 200;
  otherwise it returns 0).
\<close>

theorem cu_get_timestamp:
  assumes "find_sub ''\"dpck_ts\" :'' out = Some (''\"dpck_ts\" :'' @ '' { \"$numberLong\" : \"'' @ show_nat t @ ''\" }'' @ post)"
    and "length (show_nat t) < 1000" and "t < 2 ^ 63" and "length cu < 200"
  shows "chaos_crest_cu_get ret (Some cu) (Some out) = Inr (if ret = 200 then of_nat t else 0)"
proof -
  let ?k = "''$numberLong:''"
  have m1: "sn_store 256 (''\"'' @ ''dpck_ts'' @ ''\" :'') = ''\"dpck_ts\" :''" by (simp add: sn_store_def)
  have f1: "bson_find out ''dpck_ts'' = Some ('' { \"'' @ ''$numberLong'' @ ''\" : \"'' @ show_nat t @ ''\" }'' @ post)"
    unfolding bson_find_def Let_def m1 assms(1) by simp
  have pk: "list_all plain_char ''$numberLong''" by (simp add: plain_char_def)
  have "bson_loop 1024 ('' { \"'' @ ''$numberLong'' @ ''\" : \"'' @ show_nat t @ ''\" }'' @ post) 0 []
      = bson_loop 1024 (''$numberLong'' @ ''\" : \"'' @ show_nat t @ ''\" }'' @ post) 1 []" by simp
  also have "\<dots> = bson_loop 1024 (''\" : \"'' @ show_nat t @ ''\" }'' @ post) 1 ''$numberLong''"
    using bson_loop_plain [OF pk, of "[]" 1024] by simp
  also have "\<dots> = bson_loop 1024 (show_nat t @ ''\" }'' @ post) 1 ?k" by simp
  also have "\<dots> = bson_loop 1024 (''\" }'' @ post) 1 (?k @ show_nat t)"
    using assms(2) by (intro bson_loop_plain digits_plain) simp
  also have "\<dots> = ?k @ show_nat t" using assms(2) by simp
  finally have v1: "getBsonValue out ''dpck_ts'' = Inr (?k @ show_nat t)"
    using assms(2) by (simp add: getBsonValue_def getBsonValue_r_def f1)
  have q: "CHR 0x22 \<notin> set (?k @ show_nat t)"
    using show_nat_digits [of t] by (auto simp: list_all_iff c_isdigit_def char_code_def)
  have "find_sub (sn_store 256 (''\"'' @ ''$numberLong'' @ ''\" :'')) (?k @ show_nat t) = None"
    by (rule find_sub_None) (use q in \<open>simp_all add: sn_store_def\<close>)
  moreover have "sn_store 256 (''$numberLong'' @ '':'') = ?k" by (simp add: sn_store_def)
  ultimately have f2: "bson_find (?k @ show_nat t) ''$numberLong'' = Some (show_nat t)"
    unfolding bson_find_def Let_def by (simp only: find_sub_here option.simps) simp
  have "bson_loop 1024 (show_nat t @ []) 0 [] = bson_loop 1024 [] 0 ([] @ show_nat t)"
    using assms(2) by (intro bson_loop_plain digits_plain) simp
  then have v2: "getBsonValue (?k @ show_nat t) ''$numberLong'' = Inr (show_nat t)"
    using assms(2) by (simp only: getBsonValue_def getBsonValue_r_def f2) simp
  show ?thesis
    using assms(3,4) v1 v2 by (simp add: chaos_crest_cu_get_def c_sprintf_def atoll_show_nat)
qed

theorem cu_get_timestamp_witness:
  "chaos_crest_cu_get 200 (Some ''CU'') (Some (''{ \"dpck_ts\" : { \"$numberLong\" : \"'' @ show_nat 17 @ ''\" }, \"x\" : 1 }''))
     = Inr (if (200::int) = 200 then of_nat 17 else 0)"
proof (rule cu_get_timestamp)
  show "length (show_nat 17) < 1000" using length_show_nat [of 2 17] by simp
  show "find_sub ''\"dpck_ts\" :'' (''{ \"dpck_ts\" : { \"$numberLong\" : \"'' @ show_nat 17 @ ''\" }, \"x\" : 1 }'')
     = Some (''\"dpck_ts\" :'' @ '' { \"$numberLong\" : \"'' @ show_nat 17 @ ''\" }'' @ '', \"x\" : 1 }'')"
    by (simp add: find_sub.simps)
qed simp_all

text \<open>
  C21. The second search of \<open>chaos_crest_cu_get\<close> reads and writes one array; as the write
  position never passes the read position, it computes what the search on separate arrays
  computes, and it never runs out of a terminated input.
\<close>

theorem bson_inplace_equivalent:
  assumes "i < length buf" and "NUL \<in> set (drop i buf)"
  shows "\<exists>buf'. bson_inplace maxsize buf i 0 0 = Inr (buf', length (bson_loop maxsize (cstr (drop i buf)) 0 []))
     \<and> take (length (bson_loop maxsize (cstr (drop i buf)) 0 [])) buf' = bson_loop maxsize (cstr (drop i buf)) 0 []"
  using inplace_eq [OF assms, of 0] by simp

theorem bson_inplace_equivalent_witness:
  "\<exists>buf'. bson_inplace 1024 (''k:12,'' @ [NUL]) 2 0 0 = Inr (buf', 2) \<and> take 2 buf' = ''12''"
  using bson_inplace_equivalent [of 2 "''k:12,'' @ [NUL]" 1024] by (simp add: cstr_def eval_nat_numeral)

end
