(* ===== verification/HetDriver.thy ===== *)
theory HetDriver
  imports Prelude
begin

text \<open>
  The driver of the TDC board (\<open>het/src/hetDriver.c\<close>). The board is a parameter: a record of
  functions on its state, one pair for the dereferenced pointers (\<open>READ32\<close>, \<open>WRITE32\<close>) and
  one for the macros \<open>Vme_D32READ\<close> and \<open>Vme_D32WRITE\<close>, which come from \<open>Vme.h\<close> in the
  MOTOROLA build and expand to nothing in every other build. Log output is left out.
\<close>

section \<open>The bus\<close>

text \<open>\<open>b_vread\<close> takes the value the variable of the caller had.\<close>

record 'd bus =
  b_read :: "u32 \<Rightarrow> 'd \<Rightarrow> u32 \<times> 'd"
  b_write :: "u32 \<Rightarrow> u32 \<Rightarrow> 'd \<Rightarrow> 'd"
  b_vread :: "u32 \<Rightarrow> u32 \<Rightarrow> 'd \<Rightarrow> u32 \<times> 'd"
  b_vwrite :: "u32 \<Rightarrow> u32 \<Rightarrow> 'd \<Rightarrow> 'd"

text \<open>The two macros where \<open>MOTOROLA\<close> is not defined.\<close>

definition host_vread :: "u32 \<Rightarrow> u32 \<Rightarrow> 'd \<Rightarrow> u32 \<times> 'd" where
  "host_vread off old d = (old, d)"

definition host_vwrite :: "u32 \<Rightarrow> u32 \<Rightarrow> 'd \<Rightarrow> 'd" where
  "host_vwrite off v d = d"

definition HET_REG_OFF :: "u32 \<Rightarrow> u32" where
  "HET_REG_OFF n = 0x00f80000 + n * 4"

section \<open>Register bits (hetDriver.h)\<close>

definition ENABLE_T1 :: u32 where "ENABLE_T1 = push_bit 31 1"
definition ENABLE_T2 :: u32 where "ENABLE_T2 = push_bit 30 1"
definition GBL_RESET_ENABLE :: u32 where "GBL_RESET_ENABLE = push_bit 29 1"
definition MEM_RESET_ENABLE :: u32 where "MEM_RESET_ENABLE = push_bit 28 1"
definition FSM_RESET_ENABLE :: u32 where "FSM_RESET_ENABLE = push_bit 27 1"
definition PLL_RESET_ENABLE :: u32 where "PLL_RESET_ENABLE = push_bit 26 1"
definition CTRL_RESET_ENABLE :: u32 where "CTRL_RESET_ENABLE = push_bit 25 1"
definition FIFO_NORMAL :: u32 where "FIFO_NORMAL = push_bit 23 0"
definition FIFO_TEST_WPATTERN :: u32 where "FIFO_TEST_WPATTERN = push_bit 23 1"
definition FIFO_TEST_WVME :: u32 where "FIFO_TEST_WVME = push_bit 23 2"
definition FIFO_TEST_WNONE :: u32 where "FIFO_TEST_WNONE = push_bit 23 2"
definition FIFO_TRG_AUTO :: u32 where "FIFO_TRG_AUTO = push_bit 22 1"
definition FIFO_TRG_AUTO_DATA :: u32 where "FIFO_TRG_AUTO_DATA = push_bit 21 1"
definition FIFO_TRG_UKN :: u32 where "FIFO_TRG_UKN = push_bit 20 1"
definition TRIGGER_TEST_REG :: u32 where "TRIGGER_TEST_REG = push_bit 31 1"
definition FIDUCIAL_TURN :: "u32 \<Rightarrow> u32" where "FIDUCIAL_TURN n = push_bit 16 (n AND 0x1F)"
definition ENABLE_ZEROSUPPRESSION :: u32 where "ENABLE_ZEROSUPPRESSION = push_bit 16 9"
definition TRIGGER_DELAY :: "u32 \<Rightarrow> u32" where "TRIGGER_DELAY n = push_bit 8 (n AND 0x7F)"
definition OFFSET_FIDUCIAL :: "u32 \<Rightarrow> u32" where "OFFSET_FIDUCIAL n = n AND 0xFF"
definition GBLRESET_GLOBAL :: u32 where "GBLRESET_GLOBAL = 1"
definition GBLRESET_MEM :: u32 where "GBLRESET_MEM = 2"
definition GBLRESET_FSM :: u32 where "GBLRESET_FSM = 4"
definition GBLRESET_PLL :: u32 where "GBLRESET_PLL = 8"
definition GOLDEN_NUMBER :: "u32 \<Rightarrow> u32" where "GOLDEN_NUMBER x = x AND 0xFFF"
definition SYNCF_INVERT :: u32 where "SYNCF_INVERT = push_bit 12 1"
definition SYNCR_INVERT :: u32 where "SYNCR_INVERT = push_bit 13 1"
definition T2_COUNTER :: "u32 \<Rightarrow> u32" where "T2_COUNTER x = push_bit 16 (x AND 0xFFFF)"
definition GET_T2_DONE :: "u32 \<Rightarrow> u32" where "GET_T2_DONE x = drop_bit 20 x AND 0xFFF"
definition GET_T2_NEXT :: "u32 \<Rightarrow> u32" where "GET_T2_NEXT x = drop_bit 8 x AND 0xFFF"
definition GET_FIFO_STAT :: "u32 \<Rightarrow> u32" where "GET_FIFO_STAT x = x AND 0xFF"

section \<open>Operations\<close>

text \<open>\<open>junk\<close> is the value of the uninitialised variable that a macro read may leave alone.\<close>

definition ResetMemoria :: "'d bus \<Rightarrow> u32 \<Rightarrow> 'd \<Rightarrow> 'd" where
  "ResetMemoria b junk d0 =
     (let (result_save, d1) = b_vread b 0x00f80004 junk d0;
          d2 = b_vwrite b 0x00f80004 0x80000000 d1;
          d3 = b_vwrite b 0x00f80004 0x98000000 d2;
          d4 = b_vwrite b 0x00f80010 0x00000006 d3;
          d5 = b_vwrite b 0x00f80010 0x00000000 d4;
          d6 = b_vwrite b 0x00f80004 result_save d5;
          (r1, d7) = b_vread b 0x00f80004 result_save d6;
          (r6, d8) = b_vread b 0x00f80018 r1 d7
      in d8)"

definition AbilitazioneTriggerAut :: "'d bus \<Rightarrow> u32 \<Rightarrow> 'd \<Rightarrow> 'd" where
  "AbilitazioneTriggerAut b junk d0 =
     (let (result_save, d1) = b_vread b 0x00f80004 junk d0;
          d2 = b_vwrite b 0x00f80004 0x80400000 d1;
          d3 = b_vwrite b 0x00f80004 0xC0400000 d2
      in b_vwrite b 0x00f80004 result_save d3)"

text \<open>The loop of \<open>PollingVme\<close>: the number of reads, the last value, the state.\<close>

function poll_loop :: "'d bus \<Rightarrow> nat \<Rightarrow> 'd \<Rightarrow> nat \<times> u32 \<times> 'd" where
  "poll_loop b retry d =
     (let (result, d1) = b_read b (HET_REG_OFF 6) d in
      if retry + 1 \<le> 10 \<and> result < 1 then poll_loop b (retry + 1) d1
      else (retry + 1, result, d1))"
  by auto

termination by (relation "measure (\<lambda>(b, retry, d). 10 - retry)") auto

declare poll_loop.simps [simp del]

definition fifo_status :: "u32 \<Rightarrow> int" where
  "fifo_status result =
     (let occupancy = result AND 0xFC in
      if occupancy = 0xd8 then 5
      else if occupancy = 0xdc then 4
      else if occupancy = 0xd4 then 3
      else if occupancy = 0xe4 then 2
      else if occupancy = 0xa4 then 1
      else if occupancy = 0x24 then 0
      else 90)"

text \<open>The status, the value stored in \<open>*reg\<close> and the state.\<close>

definition PollingVme :: "'d bus \<Rightarrow> 'd \<Rightarrow> int \<times> u32 \<times> 'd" where
  "PollingVme b d =
     (let (retry, result, d1) = poll_loop b 0 d in
      if retry > 10 then (99, result, d1) else (fifo_status result, result, d1))"

fun read_regs :: "'d bus \<Rightarrow> u32 list \<Rightarrow> 'd \<Rightarrow> u32 list \<times> 'd" where
  "read_regs b [] d = ([], d)"
| "read_regs b (n # ns) d =
     (let (v, d1) = b_read b (HET_REG_OFF n) d; (vs, d2) = read_regs b ns d1 in (v # vs, d2))"

definition StatoCtrlReg :: "'d bus \<Rightarrow> 'd \<Rightarrow> u32 list \<times> 'd" where
  "StatoCtrlReg b d = read_regs b [0, 1, 2, 3, 4, 5, 6] d"

text \<open>Read a register, and write one when the value is not the wanted one.\<close>

definition check_write :: "'d bus \<Rightarrow> u32 \<Rightarrow> u32 \<Rightarrow> u32 \<Rightarrow> u32 \<Rightarrow> 'd \<Rightarrow> 'd" where
  "check_write b off want target v d =
     (let (result, d1) = b_read b off d in if result \<noteq> want then b_write b target v d1 else d1)"

definition InitTDCV5 :: "'d bus \<Rightarrow> 'd \<Rightarrow> 'd" where
  "InitTDCV5 b d0 =
     (let d1 = check_write b (HET_REG_OFF 0) 0xFFFFFFFF (HET_REG_OFF 0) 0xFFFFFFFF d0;
          (r1, d2) = b_read b (HET_REG_OFF 1) d1;
          d3 = (if r1 \<noteq> 0xC0100000
                then b_write b (HET_REG_OFF 1) 0xC0100000 (b_write b (HET_REG_OFF 1) 0x80100000 d2) else d2);
          d4 = check_write b (HET_REG_OFF 3) 0x00090000 (HET_REG_OFF 1) 0x00090000 d3
      in check_write b (HET_REG_OFF 5) 0x0000307a (HET_REG_OFF 5) 0x0000307a d4)"

text \<open>The same through the macros, with the variable \<open>result\<close> carried along.\<close>

definition vcheck_write :: "'d bus \<Rightarrow> u32 \<Rightarrow> u32 \<Rightarrow> u32 \<Rightarrow> u32 \<times> 'd \<Rightarrow> u32 \<times> 'd" where
  "vcheck_write b off want v rd =
     (let (result, d1) = b_vread b off (fst rd) (snd rd)
      in if result \<noteq> want then (v, b_vwrite b off v d1) else (result, d1))"

definition InitTDCV5_KLOE :: "'d bus \<Rightarrow> 'd \<Rightarrow> 'd" where
  "InitTDCV5_KLOE b d0 =
     (let d1 = b_write b (HET_REG_OFF 0) 0xFFFFFFFF d0;
          rd = b_read b (HET_REG_OFF 0) d1
      in snd (vcheck_write b (0x00f80000 + 5 * 4) 0x0000307a 0x0000207b
               (vcheck_write b (0x00f80000 + 3 * 4) 0x00090000 0x00090000
                 (vcheck_write b (0x00f80000 + 1 * 4) 0xC0100000 0xC0100000 rd))))"

definition Disabilita_Trigger_Kloe :: "'d bus \<Rightarrow> u32 \<Rightarrow> 'd \<Rightarrow> 'd" where
  "Disabilita_Trigger_Kloe b junk d0 =
     (let (result, d1) = b_vread b (0x00f80000 + 1 * 4) junk d0
      in if result \<noteq> 0 then b_vwrite b (0x00f80000 + 1 * 4) 0 d1 else d1)"

definition ResetMemoria1 :: "'d bus \<Rightarrow> u32 \<Rightarrow> 'd \<Rightarrow> 'd" where
  "ResetMemoria1 b junk d0 =
     (let (result_save, d1) = b_vread b 0x00f80004 junk d0;
          d2 = b_vwrite b 0x00f80004 0x0 d1;
          d3 = b_vwrite b 0x00f80004 0x38000000 d2;
          d4 = b_vwrite b 0x00f80010 0x00000007 d3;
          d5 = b_vwrite b 0x00f80010 0x00000000 d4;
          d6 = b_vwrite b 0x00f80004 result_save d5;
          d7 = b_vwrite b 0x00f80004 0 d6;
          (r1, d8) = b_vread b 0x00f80004 0 d7;
          (r6, d9) = b_vread b 0x00f80018 r1 d8
      in d9)"

definition DisabilitaScritturaFifo :: "'d bus \<Rightarrow> u32 \<Rightarrow> 'd \<Rightarrow> 'd" where
  "DisabilitaScritturaFifo b junk d0 =
     (let (result, d1) = b_vread b (0x00f80000 + 1 * 4) junk d0
      in if result \<noteq> 0xC1800000 then b_vwrite b (0x00f80000 + 1 * 4) 0xC1800000 d1 else d1)"

section \<open>Boards that behave like memory\<close>

text \<open>
  The registers as a memory: a read gives the value of the register and changes none, a
  write changes its register only. \<open>get\<close> reads the registers off the state of the board.
\<close>

definition register_memory :: "'d bus \<Rightarrow> ('d \<Rightarrow> u32 \<Rightarrow> u32) \<Rightarrow> bool" where
  "register_memory b get \<longleftrightarrow>
     (\<forall>off d. fst (b_read b off d) = get d off \<and> get (snd (b_read b off d)) = get d)
     \<and> (\<forall>off v d. get (b_write b off v d) = (get d)(off := v))"

definition macro_memory :: "'d bus \<Rightarrow> ('d \<Rightarrow> u32 \<Rightarrow> u32) \<Rightarrow> bool" where
  "macro_memory b get \<longleftrightarrow>
     (\<forall>off old d. fst (b_vread b off old d) = get d off \<and> get (snd (b_vread b off old d)) = get d)
     \<and> (\<forall>off v d. get (b_vwrite b off v d) = (get d)(off := v))"

definition memory_bus :: "(u32 \<Rightarrow> u32) bus" where
  "memory_bus = \<lparr>b_read = (\<lambda>off d. (d off, d)), b_write = (\<lambda>off v d. d(off := v)),
     b_vread = (\<lambda>off old d. (d off, d)), b_vwrite = (\<lambda>off v d. d(off := v))\<rparr>"

definition host_bus :: "(u32 \<Rightarrow> u32) bus" where
  "host_bus = memory_bus\<lparr>b_vread := host_vread, b_vwrite := host_vwrite\<rparr>"

lemma memory_bus_ok: "register_memory memory_bus (\<lambda>d. d)" "macro_memory memory_bus (\<lambda>d. d)"
  by (simp_all add: register_memory_def macro_memory_def memory_bus_def)

lemma register_memory_simps:
  assumes "register_memory b get"
  shows "fst (b_read b off d) = get d off" and "get (snd (b_read b off d)) = get d"
    and "get (b_write b off v d) = (get d)(off := v)"
  using assms by (simp_all add: register_memory_def)

lemma macro_memory_simps:
  assumes "macro_memory b get"
  shows "fst (b_vread b off old d) = get d off" and "get (snd (b_vread b off old d)) = get d"
    and "get (b_vwrite b off v d) = (get d)(off := v)"
  using assms by (simp_all add: macro_memory_def)

lemma check_write_get:
  assumes "register_memory b get"
  shows "get (check_write b off want target v d) = (if get d off \<noteq> want then (get d)(target := v) else get d)"
  by (simp add: check_write_def Let_def case_prod_beta register_memory_simps [OF assms])

lemma vcheck_write_get:
  assumes "macro_memory b get"
  shows "get (snd (vcheck_write b off want v rd))
     = (if get (snd rd) off \<noteq> want then (get (snd rd))(off := v) else get (snd rd))"
  by (simp add: vcheck_write_def Let_def case_prod_beta macro_memory_simps [OF assms])

lemma reg_offsets:
  "HET_REG_OFF 0 = 0x00f80000" "HET_REG_OFF 1 = 0x00f80004" "HET_REG_OFF 3 = 0x00f8000c"
  "HET_REG_OFF 5 = 0x00f80014" "HET_REG_OFF 6 = 0x00f80018"
  by (simp_all add: HET_REG_OFF_def)

section \<open>Properties\<close>

text \<open>
  Resetting the memories leaves the board's control register as it was and the reset
  register 0; \<open>ResetMemoria1\<close> restores the control register too, but then clears it; and
  where the VME macros expand to nothing neither of them touches the board.
\<close>

theorem reset_outcomes:
  assumes "macro_memory b get"
  shows "get (ResetMemoria b junk d) = (get d)(0x00f80010 := 0)
    \<and> get (ResetMemoria1 b junk d) = (get d)(0x00f80010 := 0, 0x00f80004 := 0)
    \<and> ResetMemoria (b\<lparr>b_vread := host_vread, b_vwrite := host_vwrite\<rparr>) junk d = d
    \<and> ResetMemoria1 (b\<lparr>b_vread := host_vread, b_vwrite := host_vwrite\<rparr>) junk d = d"
proof (intro conjI)
  show "get (ResetMemoria b junk d) = (get d)(0x00f80010 := 0)"
    unfolding ResetMemoria_def Let_def case_prod_beta macro_memory_simps [OF assms] by (rule ext) simp
  show "get (ResetMemoria1 b junk d) = (get d)(0x00f80010 := 0, 0x00f80004 := 0)"
    unfolding ResetMemoria1_def Let_def case_prod_beta macro_memory_simps [OF assms] by (rule ext) simp
qed (simp_all add: ResetMemoria_def ResetMemoria1_def host_vread_def host_vwrite_def)

theorem reset_outcomes_witness:
  "ResetMemoria memory_bus 7 (\<lambda>n. 5) = (\<lambda>n. 5)(0x00f80010 := 0) \<and> ResetMemoria host_bus 7 (\<lambda>n. 5) = (\<lambda>n. 5)"
  using reset_outcomes [OF memory_bus_ok(2), of 7 "\<lambda>n. 5"] by (simp add: host_bus_def)

text \<open>
  C22. Initialising the board: \<open>InitTDCV5\<close> writes the value meant for register 3 into
  register 1, so that unless register 3 already held it, the trigger enables just written to
  register 1 are lost and register 3 keeps its old value; \<open>InitTDCV5_KLOE\<close> sets register 1
  and register 3 as intended, and both enable all channels in register 0.
\<close>

theorem init_outcomes:
  assumes "register_memory b get" and "macro_memory b get"
  shows "get (InitTDCV5 b d) (HET_REG_OFF 0) = 0xFFFFFFFF
    \<and> get (InitTDCV5 b d) (HET_REG_OFF 1) = (if get d (HET_REG_OFF 3) = 0x00090000 then 0xC0100000 else 0x00090000)
    \<and> get (InitTDCV5 b d) (HET_REG_OFF 3) = get d (HET_REG_OFF 3)
    \<and> get (InitTDCV5 b d) (HET_REG_OFF 5) = 0x0000307a
    \<and> get (InitTDCV5_KLOE b d) (HET_REG_OFF 0) = 0xFFFFFFFF
    \<and> get (InitTDCV5_KLOE b d) (HET_REG_OFF 1) = 0xC0100000
    \<and> get (InitTDCV5_KLOE b d) (HET_REG_OFF 3) = 0x00090000
    \<and> get (InitTDCV5_KLOE b d) (HET_REG_OFF 5) \<in> {0x0000307a, 0x0000207b}"
proof -
  let ?g = "get d" and ?e = "HET_REG_OFF"
  let ?g1 = "?g(?e 0 := 0xFFFFFFFF, ?e 1 := 0xC0100000)"
  let ?g3 = "if ?g (?e 3) = 0x00090000 then ?g1 else ?g1(?e 1 := 0x00090000)"
  have d: "?e 0 \<noteq> ?e 1" "?e 0 \<noteq> ?e 3" "?e 0 \<noteq> ?e 5" "?e 1 \<noteq> ?e 3" "?e 1 \<noteq> ?e 5" "?e 3 \<noteq> ?e 5"
    by (simp_all add: reg_offsets)
  have k: "0x00f80000 + 5 * 4 = ?e 5" "0x00f80000 + 3 * 4 = ?e 3" "0x00f80000 + 1 * 4 = ?e 1"
    by (simp_all add: reg_offsets)
  have i: "get (InitTDCV5 b d) = ?g3(?e 5 := 0x0000307a)"
  proof -
    let ?d1 = "check_write b (?e 0) 0xFFFFFFFF (?e 0) 0xFFFFFFFF d"
    have g1: "get ?d1 = ?g(?e 0 := 0xFFFFFFFF)" by (auto simp: check_write_get [OF assms(1)])
    let ?d3 = "if fst (b_read b (?e 1) ?d1) \<noteq> 0xC0100000
      then b_write b (?e 1) 0xC0100000 (b_write b (?e 1) 0x80100000 (snd (b_read b (?e 1) ?d1))) else snd (b_read b (?e 1) ?d1)"
    have g3: "get ?d3 = ?g1" using d by (auto simp: register_memory_simps [OF assms(1)] g1 fun_eq_iff)
    have "get (check_write b (?e 3) 0x00090000 (?e 1) 0x00090000 ?d3) = ?g3"
      unfolding check_write_get [OF assms(1)] g3 using d by simp
    then show ?thesis unfolding InitTDCV5_def Let_def case_prod_beta check_write_get [OF assms(1)] by auto
  qed
  have kl: "get (InitTDCV5_KLOE b d) = (let h = ?g(?e 0 := 0xFFFFFFFF, ?e 1 := 0xC0100000, ?e 3 := 0x00090000)
      in if h (?e 5) \<noteq> 0x0000307a then h(?e 5 := 0x0000207b) else h)"
    unfolding InitTDCV5_KLOE_def Let_def k vcheck_write_get [OF assms(2)] register_memory_simps [OF assms(1)]
    using d by (auto simp: fun_eq_iff)
  show ?thesis unfolding i kl Let_def using d by simp
qed

theorem init_outcomes_witness:
  "InitTDCV5 memory_bus (\<lambda>n. 0) (HET_REG_OFF 1) = 0x00090000 \<and> InitTDCV5 memory_bus (\<lambda>n. 0) (HET_REG_OFF 3) = 0"
  using init_outcomes [OF memory_bus_ok, of "\<lambda>n. 0"] by simp

text \<open>The state of the board before read number \<open>k\<close> of the status register, and what is read.\<close>

definition before_read :: "'d bus \<Rightarrow> 'd \<Rightarrow> nat \<Rightarrow> 'd" where
  "before_read b d k = ((\<lambda>d. snd (b_read b (HET_REG_OFF 6) d)) ^^ k) d"

definition status_read :: "'d bus \<Rightarrow> 'd \<Rightarrow> nat \<Rightarrow> u32" where
  "status_read b d k = fst (b_read b (HET_REG_OFF 6) (before_read b d k))"

lemma before_read_simps [simp]: "before_read b d 0 = d" "before_read b (snd (b_read b (HET_REG_OFF 6) d)) k = before_read b d (Suc k)"
  by (simp add: before_read_def) (simp only: before_read_def funpow_Suc_right o_apply)

lemma poll_loop_runs:
  "n + j \<le> 10 \<Longrightarrow> (\<And>i. i < j \<Longrightarrow> status_read b d i = 0) \<Longrightarrow> n + j < 10 \<longrightarrow> status_read b d j \<noteq> 0
    \<Longrightarrow> poll_loop b n d = (n + j + 1, status_read b d j, before_read b d (j + 1))"
proof (induction j arbitrary: n d)
  case 0
  then show ?case
    by (subst poll_loop.simps) (auto simp: status_read_def before_read_def case_prod_beta Let_def word_less_1)
next
  case (Suc j)
  let ?d = "snd (b_read b (HET_REG_OFF 6) d)"
  have s: "status_read b ?d i = status_read b d (Suc i)" for i by (simp add: status_read_def)
  have "poll_loop b (n + 1) ?d = (n + 1 + j + 1, status_read b ?d j, before_read b ?d (j + 1))"
    by (rule Suc.IH) (use Suc.prems in \<open>auto simp: s\<close>)
  moreover have "status_read b d 0 = 0" by (rule Suc.prems(2)) simp
  then have "poll_loop b n d = poll_loop b (n + 1) ?d"
    using Suc.prems(1) by (subst poll_loop.simps [of b n]) (simp add: status_read_def Let_def case_prod_beta)
  ultimately show ?case by (simp add: s)
qed

text \<open>The six patterns of the occupancy bits that mean something, from empty to full.\<close>

lemma occupancy_bits:
  "fifo_status r = (case map_of [([True, True, False, True, True, False], 5), ([True, True, False, True, True, True], 4),
        ([True, True, False, True, False, True], 3), ([True, True, True, False, False, True], 2),
        ([True, False, True, False, False, True], 1), ([False, False, True, False, False, True], 0)]
      (List.map (bit r) [7, 6, 5, 4, 3, 2]) of Some n \<Rightarrow> n | None \<Rightarrow> 90)"
proof -
  have eq: "r AND 0xFC = m \<longleftrightarrow> List.map (bit r) [7, 6, 5, 4, 3, 2] = List.map (bit m) [7, 6, 5, 4, 3, 2]"
    if "m AND 0xFC = m" for m :: u32
  proof
    assume l: "List.map (bit r) [7, 6, 5, 4, 3, 2] = List.map (bit m) [7, 6, 5, 4, 3, 2]"
    have m: "bit (0xFC :: u32) n \<longleftrightarrow> n \<in> {2, 3, 4, 5, 6, 7}" for n
    proof -
      have "n < 8 \<longrightarrow> n \<in> {0, 1, 2, 3, 4, 5, 6, 7}" by auto
      moreover have p: "(0xFC :: u32) = push_bit 2 (mask 6)" by (simp add: mask_eq_exp_minus_1)
      have "bit (0xFC :: u32) n \<longleftrightarrow> 2 \<le> n \<and> n < 8" unfolding p by (auto simp: bit_push_bit_iff bit_mask_iff)
      ultimately show ?thesis by auto
    qed
    from l have "\<forall>n \<in> {2, 3, 4, 5, 6, 7}. bit r n = bit m n" by simp
    then have "bit (r AND 0xFC) n = bit (m AND 0xFC) n" for n
      unfolding bit_and_iff m by blast
    then show "r AND 0xFC = m" using that by (simp add: bit_eq_iff)
  next
    assume "r AND 0xFC = m"
    moreover have "bit (r AND 0xFC) n = bit r n" if "n \<in> {2, 3, 4, 5, 6, 7}" for n
      using that by (auto simp: bit_and_iff)
    ultimately show "List.map (bit r) [7, 6, 5, 4, 3, 2] = List.map (bit m) [7, 6, 5, 4, 3, 2]" by auto
  qed
  show ?thesis unfolding fifo_status_def Let_def by (simp add: eq)
qed

text \<open>
  C23. Polling the board, whatever it answers: when read number \<open>k\<close> of the status register, one of
  the first ten, is the first that is not 0, the board is read \<open>k + 1\<close> times, the value is stored, and the
  status is the occupancy that its bits 7 to 2 encode (5 for 110110, empty, down to 0 for
  001001, full, and 90 for any other pattern); when the first ten are all 0, the board is read
  once more, and the status is 99 whatever this eleventh read gives.
\<close>

theorem polling_outcomes:
  "(k < 10 \<and> status_read b d k \<noteq> 0 \<and> (\<forall>i<k. status_read b d i = 0) \<longrightarrow>
      PollingVme b d =
        (case map_of [([True, True, False, True, True, False], 5), ([True, True, False, True, True, True], 4),
            ([True, True, False, True, False, True], 3), ([True, True, True, False, False, True], 2),
            ([True, False, True, False, False, True], 1), ([False, False, True, False, False, True], 0)]
           (List.map (bit (status_read b d k)) [7, 6, 5, 4, 3, 2]) of Some n \<Rightarrow> n | None \<Rightarrow> 90,
         status_read b d k, before_read b d (k + 1)))
   \<and> ((\<forall>i<10. status_read b d i = 0) \<longrightarrow> PollingVme b d = (99, status_read b d 10, before_read b d 11))"
proof (intro conjI impI)
  assume k: "k < 10 \<and> status_read b d k \<noteq> 0 \<and> (\<forall>i<k. status_read b d i = 0)"
  then have "poll_loop b 0 d = (k + 1, status_read b d k, before_read b d (k + 1))"
    using poll_loop_runs [of 0 k b d] by simp
  then show "PollingVme b d =
        (case map_of [([True, True, False, True, True, False], 5), ([True, True, False, True, True, True], 4),
            ([True, True, False, True, False, True], 3), ([True, True, True, False, False, True], 2),
            ([True, False, True, False, False, True], 1), ([False, False, True, False, False, True], 0)]
           (List.map (bit (status_read b d k)) [7, 6, 5, 4, 3, 2]) of Some n \<Rightarrow> n | None \<Rightarrow> 90,
         status_read b d k, before_read b d (k + 1))"
    unfolding occupancy_bits [symmetric] using k by (simp add: PollingVme_def)
next
  assume "\<forall>i<10. status_read b d i = 0"
  then show "PollingVme b d = (99, status_read b d 10, before_read b d 11)"
    using poll_loop_runs [of 0 10 b d] by (simp add: PollingVme_def)
qed

text \<open>A board that answers at read number \<open>n\<close> of the status register.\<close>

definition slow_bus :: "nat \<Rightarrow> u32 \<Rightarrow> nat bus" where
  "slow_bus n v = \<lparr>b_read = (\<lambda>off t. (if t = n then v else 0, t + 1)), b_write = (\<lambda>off v t. t),
     b_vread = (\<lambda>off old t. (old, t)), b_vwrite = (\<lambda>off v t. t)\<rparr>"

lemma slow_reads: "before_read (slow_bus n v) t k = t + k" "status_read (slow_bus n v) t k = (if t + k = n then v else 0)"
proof -
  show "before_read (slow_bus n v) t k = t + k" for t by (induction k) (simp_all add: before_read_def slow_bus_def)
  then show "status_read (slow_bus n v) t k = (if t + k = n then v else 0)" by (simp add: status_read_def slow_bus_def)
qed

theorem polling_outcomes_witness:
  "PollingVme (slow_bus 9 0x26) 0 = (0, 0x26, 10) \<and> PollingVme (slow_bus 0 0xd9) 0 = (5, 0xd9, 1)
   \<and> PollingVme (slow_bus 10 0x24) 0 = (99, 0x24, 11) \<and> PollingVme (slow_bus 3 0xff) 0 = (90, 0xff, 4)"
  using polling_outcomes [of 9 "slow_bus 9 0x26" 0] polling_outcomes [of 0 "slow_bus 0 0xd9" 0]
    polling_outcomes [of 0 "slow_bus 10 0x24" 0] polling_outcomes [of 3 "slow_bus 3 0xff" 0]
  by (simp add: slow_reads)

end
