(* ===== verification/HetAcquire.thy ===== *)
theory HetAcquire
  imports HetDriver HttpLib CrestApi
begin

text \<open>
  The acquisition program \<open>het/src/hetAcquire.c\<close> in its MOTOROLA build: the options, the
  configuration of the board, the search for events in a block of the board's memory, and
  the rounds of the main loop, which drive the board and the library together. (In the other
  build \<open>vme_base\<close> is never assigned, and the first register access goes through it.)
  Text output is left out; the two files are the outcome of opening them.
\<close>

section \<open>Numbers on the command line\<close>

text \<open>The digits of \<open>strtoul\<close> in a base up to 16.\<close>

definition base_digit :: "nat \<Rightarrow> char \<Rightarrow> bool" where
  "base_digit base c = (case hex_val c of Some v \<Rightarrow> v < base | None \<Rightarrow> False)"

definition read_base :: "nat \<Rightarrow> string \<Rightarrow> nat" where
  "read_base base s = foldl (\<lambda>acc c. base * acc + the (hex_val c)) 0 s"

text \<open>\<open>strtoul (s, 0, 0)\<close>: the base is 16 after \<open>0x\<close>, 8 after 0, otherwise 10.\<close>

definition c_strtoul0 :: "string \<Rightarrow> int" where
  "c_strtoul0 s0 =
     (let s = dropWhile c_isspace s0;
          neg = (s \<noteq> [] \<and> hd s = CHR ''-'');
          t = (if s \<noteq> [] \<and> (hd s = CHR ''-'' \<or> hd s = CHR ''+'') then tl s else s);
          hex = (length t > 2 \<and> t ! 0 = CHR ''0'' \<and> (t ! 1 = CHR ''x'' \<or> t ! 1 = CHR ''X'') \<and> hex_val (t ! 2) \<noteq> None);
          base = (if hex then 16 else if t \<noteq> [] \<and> hd t = CHR ''0'' then 8 else 10);
          v = int (read_base base (takeWhile (base_digit base) (if hex then drop 2 t else t)))
      in if 2 ^ 64 \<le> v then 2 ^ 64 - 1
         else if neg then (- v) mod 2 ^ 64 else v)"

section \<open>Options\<close>

text \<open>
  The locals that the options set. The two arrays of 64 characters are the strings stored
  in them: 64 characters leave no terminator.
\<close>

record acq_cfg =
  cfg_server :: string
  cfg_cuname :: string
  cfg_address :: u32
  cfg_cycles :: int
  cfg_offset :: int
  cfg_delay :: int
  cfg_testmode :: bool

definition cfg_init :: acq_cfg where
  "cfg_init = \<lparr>cfg_server = [], cfg_cuname = [], cfg_address = 0x01000000, cfg_cycles = 3,
     cfg_offset = 0, cfg_delay = 0, cfg_testmode = False\<rparr>"

text \<open>
  The loop over \<open>argv\<close>: after an option with a value the loop goes on at the value, which is
  looked at as an option again. \<open>Inl\<close> is the exit code after the usage text.
\<close>

fun parse_args :: "string list \<Rightarrow> acq_cfg \<Rightarrow> int + acq_cfg" where
  "parse_args [] c = Inr c"
| "parse_args (a # rest) c =
     (if a = ''-s'' \<and> rest \<noteq> [] then parse_args rest (c\<lparr>cfg_server := take 64 (hd rest)\<rparr>)
      else if a = ''-n'' \<and> rest \<noteq> [] then parse_args rest (c\<lparr>cfg_cuname := take 64 (hd rest)\<rparr>)
      else if a = ''-a'' \<and> rest \<noteq> [] then parse_args rest (c\<lparr>cfg_address := of_int (c_strtoul0 (hd rest))\<rparr>)
      else if a = ''-c'' \<and> rest \<noteq> [] then parse_args rest (c\<lparr>cfg_cycles := c_int (c_strtoul0 (hd rest))\<rparr>)
      else if a = ''-of'' \<and> rest \<noteq> [] then parse_args rest (c\<lparr>cfg_offset := c_int (c_strtoul0 (hd rest))\<rparr>)
      else if a = ''-td'' \<and> rest \<noteq> [] then parse_args rest (c\<lparr>cfg_delay := c_int (c_strtoul0 (hd rest))\<rparr>)
      else if a = ''-h'' then Inl 0
      else if a = ''-t'' then parse_args rest (c\<lparr>cfg_testmode := True\<rparr>)
      else parse_args rest c)"

definition check_cfg :: "acq_cfg \<Rightarrow> int + acq_cfg" where
  "check_cfg c =
     (if cfg_cycles c > 9 \<or> cfg_cycles c < 0 then Inl (- 1)
      else if cfg_server c = [] then Inl (- 2)
      else if cfg_cuname c = [] then Inl (- 3)
      else Inr c)"

text \<open>The program up to the opening of its files: an exit code or the configuration.\<close>

definition acq_options :: "string list \<Rightarrow> bool \<Rightarrow> int + acq_cfg" where
  "acq_options argv files_ok =
     (case parse_args argv cfg_init of Inl code \<Rightarrow> Inl code
      | Inr c \<Rightarrow> (case check_cfg c of Inl code \<Rightarrow> Inl code
        | Inr c' \<Rightarrow> if files_ok then Inr c' else Inl (- 1)))"

section \<open>Configuration of the board\<close>

definition DMA_WORDS :: nat where
  "DMA_WORDS = (256 * 1024 * (4 - 3) div 4) div 4"

text \<open>The registers written outside the test mode.\<close>

definition het_configure :: "'d bus \<Rightarrow> acq_cfg \<Rightarrow> 'd \<Rightarrow> 'd" where
  "het_configure b c d0 =
     (let d1 = b_write b (HET_REG_OFF 4) 0xFFFFFFFF d0;
          d2 = b_write b (HET_REG_OFF 4) 0 d1;
          d3 = b_write b (HET_REG_OFF 0) 0xFFFFFFFF d2;
          d4 = b_write b (HET_REG_OFF 1) (ENABLE_T1 OR ENABLE_T2 OR FIFO_NORMAL OR FIFO_TRG_UKN) d3;
          d5 = b_write b (HET_REG_OFF 3)
                 (FIDUCIAL_TURN (of_int (cfg_cycles c)) OR TRIGGER_DELAY (of_int (cfg_delay c))
                   OR OFFSET_FIDUCIAL (of_int (cfg_offset c))) d4
      in b_write b (HET_REG_OFF 5) (T2_COUNTER 0 OR SYNCR_INVERT) d5)"

definition het_setup :: "'d bus \<Rightarrow> acq_cfg \<Rightarrow> u32 \<Rightarrow> 'd \<Rightarrow> 'd" where
  "het_setup b c junk d0 =
     (let d1 = snd (StatoCtrlReg b (ResetMemoria b junk d0));
          d2 = (if cfg_testmode c then InitTDCV5 b d1 else het_configure b c d1)
      in snd (StatoCtrlReg b d2))"

section \<open>Events in a block of words\<close>

definition endian_swap :: "u32 \<Rightarrow> u32" where
  "endian_swap x = drop_bit 24 x OR (drop_bit 8 x AND 0x0000ff00)
     OR (push_bit 8 x AND 0x00ff0000) OR push_bit 24 x"

datatype shm = SEARCH_HEADER | HEADER1_FOUND | HEADER2_FOUND | DATA_FOUND | FOOTER1_FOUND | FOOTER2_FOUND

text \<open>One word: the state, the number of events and the T2 of the last header.\<close>

fun scan_word :: "u32 \<Rightarrow> shm \<times> u64 \<times> u32 \<Rightarrow> shm \<times> u64 \<times> u32" where
  "scan_word w (s, eventn, t2) =
     (if w = 0xEFFFFFFF then (HEADER1_FOUND, eventn, t2)
      else if s = HEADER1_FOUND \<and> w AND 0xFFFFF000 = 0xFD000000 then (HEADER2_FOUND, eventn, w AND 0xFFF)
      else if (s = HEADER2_FOUND \<or> s = DATA_FOUND) \<and> w AND 0x80000000 = 0 then (DATA_FOUND, eventn, t2)
      else if s = DATA_FOUND \<and> w AND 0x80000000 \<noteq> 0 then (FOOTER1_FOUND, eventn, t2)
      else if s = FOOTER1_FOUND \<and> w AND 0x80000000 \<noteq> 0 then (FOOTER2_FOUND, eventn, t2)
      else if s = FOOTER2_FOUND \<and> w AND 0xFFF00000 = 0xF7F00000 then (SEARCH_HEADER, eventn + 1, t2)
      else (s, eventn, t2))"

text \<open>The loop over the block, which also copies the words, bytes swapped, to \<open>fifo\<close>.\<close>

fun scan_block :: "u32 list \<Rightarrow> shm \<times> u64 \<times> u32 \<Rightarrow> u32 list \<times> (shm \<times> u64 \<times> u32)" where
  "scan_block [] st = ([], st)"
| "scan_block (w # ws) st = (let (fifo, st') = scan_block ws (scan_word w st) in (endian_swap w # fifo, st'))"

section \<open>The data set\<close>

definition het_cu :: "chaos_ds list" where
  "het_cu =
     [\<lparr>cds_name = ''STATUS'', cds_desc = ''STATUS REGISTER'', cds_dir = CREST_DIR_OUTPUT,
       cds_type = CREST_TYPE_INT32, cds_size = 4, cds_alloc_size = 0\<rparr>,
      \<lparr>cds_name = ''EVENTS'', cds_desc = ''Events Found'', cds_dir = CREST_DIR_OUTPUT,
       cds_type = CREST_TYPE_INT64, cds_size = 8, cds_alloc_size = 0\<rparr>,
      \<lparr>cds_name = ''Config'', cds_desc = ''Config register0'', cds_dir = CREST_DIR_OUTPUT,
       cds_type = CREST_TYPE_INT32 OR CREST_TYPE_VECTOR, cds_size = 7, cds_alloc_size = 0\<rparr>,
      \<lparr>cds_name = ''FIFO'', cds_desc = ''HET Fifo'', cds_dir = CREST_DIR_OUTPUT,
       cds_type = CREST_TYPE_INT32 OR CREST_TYPE_VECTOR, cds_size = int DMA_WORDS, cds_alloc_size = 0\<rparr>]"

text \<open>The memory behind a pointer to words.\<close>

definition words_mem :: "bool \<Rightarrow> u32 list \<Rightarrow> u8 list" where
  "words_mem le ws = concat (map (\<lambda>w. mem_bytes le 4 (unat w)) ws)"

section \<open>The main loop\<close>

text \<open>
  The board with its DMA channel: \<open>b_dma\<close> takes the contents of the buffer and gives the
  result of \<open>VmeDmaRead\<close> and the contents afterwards.
\<close>

record 'd board = "'d bus" +
  b_dma :: "u32 list \<Rightarrow> 'd \<Rightarrow> int \<times> u32 list \<times> 'd"

text \<open>What surrounds the program: the machine, the allocator, the receive buffer of the stack and
  the value of unassigned locals.\<close>

record env =
  e_dbl :: "u64 \<Rightarrow> string"
  e_le :: bool
  e_mem :: allocator
  e_rx :: "u8 list"
  e_junk :: u32

record 'd acq =
  a_dev :: 'd
  a_world :: world
  a_handle :: handle
  a_uid :: u32
  a_evtbuf :: "u32 list"
  a_fifo :: "u32 list"
  a_eventn :: u64
  a_t2 :: u32
  a_r6 :: u32
  a_result :: u32
  a_trig_old :: u32
  a_loop :: u32

definition acq_update :: "env \<Rightarrow> int \<Rightarrow> u8 list \<Rightarrow> 'd acq \<Rightarrow> ('d acq) res" where
  "acq_update e i m s =
     rbind (chaos_crest_update (e_dbl e) (e_le e) (e_mem e) (a_handle s) (a_uid s) i m)
       (\<lambda>(h, ret). Inr (s\<lparr>a_handle := h\<rparr>))"

definition acq_push :: "env \<Rightarrow> 'd acq \<Rightarrow> ('d acq) run" where
  "acq_push e s =
     run_bind (chaos_crest_push (e_mem e) (e_rx e) (a_world s) (a_handle s) (a_uid s) 0)
       (\<lambda>(w, h, ret). Some (Inr (s\<lparr>a_world := w, a_handle := h\<rparr>)))"

text \<open>
  The wait for the trigger of the test mode: the trigger number of the board has to be four
  more than the last one. The thousandth read ends the program, whatever it gives.
\<close>

function wait_trigger :: "'d bus \<Rightarrow> u32 \<Rightarrow> nat \<Rightarrow> u32 \<Rightarrow> 'd \<Rightarrow> u32 option \<times> u32 \<times> 'd" where
  "wait_trigger b trig_old nn result d =
     (let (result', d1) = b_vread b 0xf80018 result d;
          trig_work = drop_bit 20 (result' AND 0xfff00000);
          delta_trig = (trig_old + 4) AND 0x00000FFF
      in if 1000 \<le> nn + 1 then (None, result', d1)
         else if delta_trig \<noteq> trig_work then wait_trigger b trig_old (nn + 1) result' d1
         else (Some trig_work, result', d1))"
  by auto

termination by (relation "measure (\<lambda>(b, t, nn, r, d). 1000 - nn)") auto

declare wait_trigger.simps [simp del]

text \<open>The first part of a round, in the test mode; \<open>Inl\<close> is an exit of the program.\<close>

definition acq_trigger :: "'d bus \<Rightarrow> env \<Rightarrow> bool \<Rightarrow> 'd acq \<Rightarrow> int + 'd acq" where
  "acq_trigger b e testmode s =
     (if testmode then
        (case wait_trigger b (a_trig_old s) 0 (a_result s) (AbilitazioneTriggerAut b (e_junk e) (a_dev s)) of
           (None, r, d) \<Rightarrow> Inl (- 3)
         | (Some t, r, d) \<Rightarrow> Inr (s\<lparr>a_trig_old := t, a_result := r, a_dev := d\<rparr>))
      else Inr s)"

definition HOWTOREAD :: int where "HOWTOREAD = 3"

text \<open>The block is read and searched, or the board is reset after an error.\<close>

definition acq_read :: "'d board \<Rightarrow> env \<Rightarrow> 'd acq \<Rightarrow> ('d acq) res" where
  "acq_read b e s =
     (let (ret, evtbuf, d1) = b_dma b (a_evtbuf s) (a_dev s);
          s1 = s\<lparr>a_evtbuf := evtbuf, a_dev := d1\<rparr>
      in if ret < 0 then
           (let d2 = snd (StatoCtrlReg (bus.truncate b) d1);
                d3 = ResetMemoria (bus.truncate b) (e_junk e) d2
            in Inr (s1\<lparr>a_dev := snd (StatoCtrlReg (bus.truncate b) d3)\<rparr>))
         else
           (let (fifo, shm_state, eventn, t2) = scan_block evtbuf (SEARCH_HEADER, a_eventn s, a_t2 s);
                s2 = s1\<lparr>a_fifo := fifo, a_eventn := eventn, a_t2 := t2\<rparr>
            in rbind (acq_update e 1 (mem_bytes (e_le e) 8 (unat eventn)) s2) (acq_update e 3 (words_mem (e_le e) fifo))))"

definition acq_round :: "'d board \<Rightarrow> env \<Rightarrow> bool \<Rightarrow> 'd acq \<Rightarrow> (int + 'd acq) run" where
  "acq_round b e testmode s0 =
     (case acq_trigger (bus.truncate b) e testmode s0 of
        Inl code \<Rightarrow> Some (Inr (Inl code))
      | Inr s1 \<Rightarrow>
          (let (status, r6, d) = PollingVme (bus.truncate b) (a_dev s1);
               s2 = s1\<lparr>a_r6 := r6, a_dev := d\<rparr>
           in run_bind (Some (acq_update e 0 (mem_bytes (e_le e) 4 (unat r6)) s2)) (\<lambda>s3.
              if status \<le> HOWTOREAD then
                run_bind (Some (acq_read b e (s3\<lparr>a_loop := a_loop s3 + 1\<rparr>))) (\<lambda>s4.
                run_bind (acq_push e s4) (\<lambda>s5. Some (Inr (Inr s5))))
              else Some (Inr (Inr s3)))))"

text \<open>A number of rounds, up to an exit.\<close>

fun acq_rounds :: "'d board \<Rightarrow> env \<Rightarrow> bool \<Rightarrow> nat \<Rightarrow> 'd acq \<Rightarrow> (int + 'd acq) run" where
  "acq_rounds b e testmode 0 s = Some (Inr (Inr s))"
| "acq_rounds b e testmode (Suc n) s =
     run_bind (acq_round b e testmode s) (\<lambda>r.
       case r of Inl code \<Rightarrow> Some (Inr (Inl code)) | Inr s' \<Rightarrow> acq_rounds b e testmode n s')"

section \<open>The start\<close>

text \<open>The first values: the registers read from the board, their bytes swapped.\<close>

definition acq_first_push :: "'d bus \<Rightarrow> env \<Rightarrow> 'd acq \<Rightarrow> ('d acq) run" where
  "acq_first_push b e s0 =
     (let (vs, d) = read_regs b [0, 1, 2, 3, 4, 5, 6] (a_dev s0);
          regs = map endian_swap vs;
          s1 = s0\<lparr>a_dev := d\<rparr>
      in run_bind (Some (acq_update e 0 (words_mem (e_le e) (drop 6 regs)) s1)) (\<lambda>s2.
         run_bind (Some (acq_update e 1 (mem_bytes (e_le e) 8 (unat (a_eventn s2))) s2)) (\<lambda>s3.
         run_bind (Some (acq_update e 2 (words_mem (e_le e) regs) s3)) (\<lambda>s4.
         run_bind (Some (acq_update e 3 (words_mem (e_le e) (a_fifo s4)) s4)) (\<lambda>s5.
         run_bind (acq_push e s5) (acq_push e))))))"

text \<open>
  From the opened files to the main loop. The server name has to be terminated to be
  printed and copied. \<open>hsize\<close> is the size of a handle, \<open>cujunk\<close> what a new slot of the array holds.
\<close>

definition acq_start ::
  "'d bus \<Rightarrow> env \<Rightarrow> nat \<Rightarrow> int \<times> int \<Rightarrow> acq_cfg \<Rightarrow> world \<Rightarrow> 'd \<Rightarrow> (int + 'd acq) run" where
  "acq_start b e hsize cujunk c w d0 =
     run_bind (Some (guard_res (length (cfg_server c) < 64 \<and> length (cfg_cuname c) < 64) OutOfBounds (Inr ()))) (\<lambda>_.
     run_bind (Some (guard_res (e_mem e (4 * DMA_WORDS)) NullDeref (Inr ()))) (\<lambda>_.
     run_bind (Some (chaos_crest_open (e_mem e) hsize (cfg_server c))) (\<lambda>h0.
     run_bind (Some (chaos_crest_add_cu (e_mem e) cujunk h0 (cfg_cuname c) het_cu 4)) (\<lambda>(h1, tbl, cu0).
     if cu0 = 0 then Some (Inr (Inl (- 4)))
     else
       let s0 = \<lparr>a_dev = het_setup b c (e_junk e) d0, a_world = w, a_handle = h1, a_uid = cu0,
                 a_evtbuf = replicate DMA_WORDS 0xdeaddead, a_fifo = replicate DMA_WORDS 0,
                 a_eventn = 0, a_t2 = 0, a_r6 = 0, a_result = e_junk e, a_trig_old = 0, a_loop = 0\<rparr>
       in run_bind (Some (acq_update e 1 (mem_bytes (e_le e) 8 0) s0)) (\<lambda>s1.
          run_bind (Some (acq_update e 3 (words_mem (e_le e) (a_fifo s1)) s1)) (\<lambda>s2.
          run_bind (chaos_crest_register (e_dbl e) (e_mem e) (e_rx e) (a_world s2) (a_handle s2) cu0) (\<lambda>(w', h', ret).
          if ret \<noteq> 0 then Some (Inr (Inl (- 9)))
          else run_bind (acq_first_push b e (s2\<lparr>a_world := w', a_handle := h'\<rparr>)) (\<lambda>s3. Some (Inr (Inr s3))))))))))"

section \<open>Searching a block\<close>

lemma scan_block_fold: "scan_block ws st = (map endian_swap ws, fold scan_word ws st)"
  by (induction ws arbitrary: st) (simp_all add: Let_def)

lemma endian_masks: "0x0000ff00 = push_bit 8 (mask 8 :: u32)" "0x00ff0000 = push_bit 16 (mask 8 :: u32)"
  by (simp_all add: mask_eq_exp_minus_1 push_bit_eq_mult)

lemma endian_swap_bit:
  "n < 32 \<Longrightarrow> bit (endian_swap x) n \<longleftrightarrow>
     (if n < 8 then bit x (n + 24) else if n < 16 then bit x (n + 8)
      else if n < 24 then bit x (n - 8) else bit x (n - 24))"
  unfolding endian_swap_def endian_masks bit_or_iff bit_and_iff bit_drop_bit_eq bit_push_bit_iff bit_mask_iff o_def
  using bit_imp_le_length [of x "8 + n"] bit_imp_le_length [of x "24 + n"]
  by (auto simp: add.commute)

lemma endian_swap_swap [simp]: "endian_swap (endian_swap x) = x"
proof (rule bit_word_eqI)
  fix n
  assume "n < LENGTH(32)"
  then consider "n < 8" | "8 \<le> n" "n < 16" | "16 \<le> n" "n < 24" | "24 \<le> n" "n < 32" by fastforce
  then show "bit (endian_swap (endian_swap x)) n = bit x n"
  proof cases
    case 3
    then have "\<not> n - 8 < 8" "n - 8 < 16" by arith+
    with 3 show ?thesis by (simp add: endian_swap_bit)
  next
    case 4
    then have "n - 24 < 8" by arith
    with 4 show ?thesis by (simp add: endian_swap_bit)
  qed (simp_all add: endian_swap_bit)
qed

datatype event = Event (ev_t2: u32) (ev_data: "u32 list") (ev_foot1: u32) (ev_foot2: u32) (ev_end: u32)

definition event_words :: "event \<Rightarrow> u32 list" where
  "event_words ev = [0xEFFFFFFF, 0xFD000000 OR ev_t2 ev] @ ev_data ev @ [ev_foot1 ev, ev_foot2 ev, ev_end ev]"

definition wf_event :: "event \<Rightarrow> bool" where
  "wf_event ev \<longleftrightarrow> ev_t2 ev AND 0xFFF = ev_t2 ev \<and> ev_data ev \<noteq> []
     \<and> list_all (\<lambda>w. w AND 0x80000000 = 0) (ev_data ev)
     \<and> list_all (\<lambda>w. w AND 0x80000000 \<noteq> 0 \<and> w \<noteq> 0xEFFFFFFF) [ev_foot1 ev, ev_foot2 ev]
     \<and> ev_end ev AND 0xFFF00000 = 0xF7F00000"

lemma event_masks:
  assumes "t AND 0xFFF = t"
  shows "0xFD000000 OR t \<noteq> (0xEFFFFFFF :: u32)" and "(0xFD000000 OR t) AND 0xFFFFF000 = (0xFD000000 :: u32)"
    and "(0xFD000000 OR t) AND 0xFFF = (t :: u32)"
proof -
  have z: "t AND 0xFFFFF000 = 0"
  proof -
    have "t AND 0xFFFFF000 = (t AND 0xFFF) AND 0xFFFFF000" using assms by simp
    also have "\<dots> = t AND (0xFFF AND 0xFFFFF000)" by (simp only: and.assoc)
    finally show ?thesis by simp
  qed
  show a: "(0xFD000000 OR t) AND 0xFFFFF000 = (0xFD000000 :: u32)"
    by (simp add: z bit.conj_disj_distrib2)
  show "0xFD000000 OR t \<noteq> (0xEFFFFFFF :: u32)" using a by auto
  show "(0xFD000000 OR t) AND 0xFFF = (t :: u32)"
    using assms by (simp add: bit.conj_disj_distrib2)
qed

lemma scan_gap: "0xEFFFFFFF \<notin> set g \<Longrightarrow> fold scan_word g (SEARCH_HEADER, n, t) = (SEARCH_HEADER, n, t)"
  by (induction g) auto

lemma scan_data:
  "list_all (\<lambda>w. w AND 0x80000000 = 0) ds \<Longrightarrow> s = HEADER2_FOUND \<or> s = DATA_FOUND
     \<Longrightarrow> fold scan_word ds (s, n, t) = (if ds = [] then s else DATA_FOUND, n, t)"
  by (induction ds arbitrary: s) (auto split: if_splits)

lemma scan_partial:
  assumes "wf_event ev" and "k < length (event_words ev)"
  shows "fst (snd (fold scan_word (take k (event_words ev)) (s, n, t))) = n"
proof -
  have t2: "ev_t2 ev AND 0xFFF = ev_t2 ev" using assms(1) by (simp add: wf_event_def)
  consider "k = 0" | "k = 1" | j where "k = Suc (Suc j)" by (metis One_nat_def not0_implies_Suc)
  then show ?thesis
  proof cases
    case (3 j)
    then have j: "j < length (ev_data ev) + 3" using assms(2) by (simp add: event_words_def)
    have hd: "fold scan_word (take k (event_words ev)) (s, n, t)
        = fold scan_word (take j (ev_data ev @ [ev_foot1 ev, ev_foot2 ev, ev_end ev])) (HEADER2_FOUND, n, ev_t2 ev)"
      using t2 by (simp add: 3 event_words_def event_masks)
    have d: "list_all (\<lambda>w. w AND 0x80000000 = 0) (take j (ev_data ev))"
      using assms(1) by (auto simp: wf_event_def list_all_iff dest: in_set_takeD)
    show ?thesis
    proof (cases "j \<le> length (ev_data ev)")
      case True
      then show ?thesis unfolding hd using d by (simp add: scan_data)
    next
      case False
      then have "j - length (ev_data ev) = 1 \<or> j - length (ev_data ev) = 2" using j by arith
      then show ?thesis unfolding hd using d False assms(1)
        by (auto simp: scan_data wf_event_def eval_nat_numeral)
    qed
  qed (simp_all add: event_words_def)
qed

lemma scan_event:
  assumes "wf_event ev"
  shows "fold scan_word (event_words ev) (s, n, t) = (SEARCH_HEADER, n + 1, ev_t2 ev)"
proof -
  have t2: "ev_t2 ev AND 0xFFF = ev_t2 ev" using assms by (simp add: wf_event_def)
  have e: "ev_end ev \<noteq> 0xEFFFFFFF"
  proof
    assume "ev_end ev = 0xEFFFFFFF"
    with assms show False by (simp add: wf_event_def)
  qed
  show ?thesis
    using assms e by (simp add: event_words_def event_masks [OF t2] scan_data wf_event_def)
qed

lemma scan_events:
  "list_all (\<lambda>(g, ev). 0xEFFFFFFF \<notin> set g \<and> wf_event ev) xs
     \<Longrightarrow> \<exists>t'. fold scan_word (concat (map (\<lambda>(g, ev). g @ event_words ev) xs)) (SEARCH_HEADER, n, t)
           = (SEARCH_HEADER, n + of_nat (length xs), t')"
proof (induction xs arbitrary: n t)
  case (Cons x xs)
  obtain g ev where x: "x = (g, ev)" by (cases x)
  with Cons.prems have "0xEFFFFFFF \<notin> set g" "wf_event ev" by simp_all
  then have "fold scan_word (g @ event_words ev) (SEARCH_HEADER, n, t) = (SEARCH_HEADER, n + 1, ev_t2 ev)"
    by (simp add: scan_gap scan_event del: scan_word.simps)
  moreover obtain t' where "fold scan_word (concat (map (\<lambda>(g, ev). g @ event_words ev) xs)) (SEARCH_HEADER, n + 1, ev_t2 ev)
      = (SEARCH_HEADER, n + 1 + of_nat (length xs), t')" using Cons by fastforce
  ultimately show ?case by (simp add: x add.assoc)
qed simp

lemma scan_bound:
  "\<exists>k. fst (snd (fold scan_word ws (s, n, t))) = n + of_nat k
     \<and> k \<le> count_list ws 0xEFFFFFFF + (if s = SEARCH_HEADER then 0 else 1)"
proof (induction ws arbitrary: s n t)
  case Nil
  show ?case by (rule exI [of _ 0]) simp
next
  case (Cons w ws)
  obtain s' n' t' where st: "scan_word w (s, n, t) = (s', n', t')" by (metis prod_cases3)
  obtain k where k: "fst (snd (fold scan_word ws (s', n', t'))) = n' + of_nat k"
    "k \<le> count_list ws 0xEFFFFFFF + (if s' = SEARCH_HEADER then 0 else 1)" using Cons by blast
  have "(n' = n + 1 \<and> s' = SEARCH_HEADER \<and> s \<noteq> SEARCH_HEADER) \<or> (n' = n \<and> (w = 0xEFFFFFFF \<or> (s' = SEARCH_HEADER \<longleftrightarrow> s = SEARCH_HEADER)))"
    using st by (auto split: if_splits)
  then show ?case
  proof (elim disjE conjE)
    assume "n' = n + 1" "s' = SEARCH_HEADER" "s \<noteq> SEARCH_HEADER"
    then show ?thesis using k st by (intro exI [of _ "Suc k"]) (simp add: add.assoc)
  next
    assume "n' = n" "w = 0xEFFFFFFF"
    then show ?thesis using k st by (intro exI [of _ k]) (auto split: if_splits)
  next
    assume "n' = n" "(s' = SEARCH_HEADER) = (s = SEARCH_HEADER)"
    then show ?thesis using k st by (intro exI [of _ k]) (auto split: if_splits)
  qed
qed

section \<open>Properties\<close>

text \<open>
  C24. Searching a block: \<open>fifo\<close> receives every word with its bytes swapped (swapping again
  gives the block back); complete events between words that are not headers are all
  counted, and an event that the end of the block cuts off is not; and no block, whatever
  is in it, adds more events than it has header words.
\<close>

theorem scan_block_events:
  assumes "list_all (\<lambda>(g, ev). 0xEFFFFFFF \<notin> set g \<and> wf_event ev) xs" and "0xEFFFFFFF \<notin> set tail"
    and "wf_event part" and "k < length (event_words part)"
    and "ws = concat (map (\<lambda>(g, ev). g @ event_words ev) xs) @ tail @ take k (event_words part)"
  shows "map endian_swap (fst (scan_block ws (SEARCH_HEADER, n, t))) = ws
    \<and> fst (snd (snd (scan_block ws (SEARCH_HEADER, n, t)))) = n + of_nat (length xs)
    \<and> (\<exists>j \<le> count_list any 0xEFFFFFFF. fst (snd (snd (scan_block any (SEARCH_HEADER, n, t)))) = n + of_nat j)"
proof (intro conjI)
  show "map endian_swap (fst (scan_block ws (SEARCH_HEADER, n, t))) = ws"
    by (simp add: scan_block_fold o_def)
  show "\<exists>j \<le> count_list any 0xEFFFFFFF. fst (snd (snd (scan_block any (SEARCH_HEADER, n, t)))) = n + of_nat j"
    using scan_bound [of any SEARCH_HEADER n t] by (auto simp: scan_block_fold)
  obtain t' where "fold scan_word (concat (map (\<lambda>(g, ev). g @ event_words ev) xs)) (SEARCH_HEADER, n, t)
      = (SEARCH_HEADER, n + of_nat (length xs), t')" using scan_events [OF assms(1)] by blast
  then show "fst (snd (snd (scan_block ws (SEARCH_HEADER, n, t)))) = n + of_nat (length xs)"
    using scan_gap [OF assms(2)] scan_partial [OF assms(3,4)] by (simp add: scan_block_fold assms(5))
qed

definition ex_event :: event where
  "ex_event = Event 5 [0x00000123, 0x7FFFFFFF] 0x80000001 0x80000002 0xF7F00007"

theorem scan_block_events_witness:
  "fst (snd (snd (scan_block ([1, 2] @ event_words ex_event @ [3] @ take 4 (event_words ex_event)) (SEARCH_HEADER, 9, 0)))) = 10"
proof -
  have "wf_event ex_event" by (simp add: wf_event_def ex_event_def)
  then show ?thesis
    using scan_block_events [of "[([1, 2], ex_event)]" "[3]" ex_event 4 _ 9 0 "[]"] by (simp add: event_words_def ex_event_def)
qed

section \<open>Waiting for the trigger\<close>

definition trigger_reads :: "'d bus \<Rightarrow> nat \<Rightarrow> u32 \<times> 'd \<Rightarrow> u32 \<times> 'd" where
  "trigger_reads b j = (\<lambda>(r, d). b_vread b 0xf80018 r d) ^^ j"

definition trigger_number :: "u32 \<Rightarrow> u32" where
  "trigger_number r = drop_bit 20 (r AND 0xfff00000)"

lemma trigger_reads_Suc: "trigger_reads b (Suc j) (r, d) = trigger_reads b j (b_vread b 0xf80018 r d)"
  by (simp add: trigger_reads_def funpow_swap1)

lemma trigger_reads_0: "trigger_reads b 0 rd = rd"
  by (simp add: trigger_reads_def)

lemma wait_trigger_step:
  "b_vread b 0xf80018 r d = (r1, d1) \<Longrightarrow> wait_trigger b told nn r d =
     (if 1000 \<le> nn + 1 then (None, r1, d1)
      else if (told + 4) AND 0xFFF \<noteq> trigger_number r1 then wait_trigger b told (nn + 1) r1 d1
      else (Some (trigger_number r1), r1, d1))"
  by (subst wait_trigger.simps) (simp add: Let_def trigger_number_def)

lemma wait_trigger_hit:
  assumes "trigger_number (fst (trigger_reads b (Suc j) (r, d))) = (told + 4) AND 0xFFF" and "nn + Suc j \<le> 999"
    and "\<And>i. i < j \<Longrightarrow> trigger_number (fst (trigger_reads b (Suc i) (r, d))) \<noteq> (told + 4) AND 0xFFF"
  shows "wait_trigger b told nn r d = (Some ((told + 4) AND 0xFFF), trigger_reads b (Suc j) (r, d))"
  using assms
proof (induction j arbitrary: nn r d)
  case 0
  obtain r1 d1 where v: "b_vread b 0xf80018 r d = (r1, d1)" by (cases "b_vread b 0xf80018 r d")
  show ?case using 0 v by (simp add: wait_trigger_step [OF v] trigger_reads_Suc trigger_reads_0)
next
  case (Suc j)
  obtain r1 d1 where v: "b_vread b 0xf80018 r d = (r1, d1)" by (cases "b_vread b 0xf80018 r d")
  have "trigger_number r1 \<noteq> (told + 4) AND 0xFFF"
    using Suc.prems(3) [of 0] v by (simp add: trigger_reads_Suc trigger_reads_0)
  moreover have "wait_trigger b told (nn + 1) r1 d1 = (Some ((told + 4) AND 0xFFF), trigger_reads b (Suc j) (r1, d1))"
  proof (rule Suc.IH)
    show "trigger_number (fst (trigger_reads b (Suc i) (r1, d1))) \<noteq> (told + 4) AND 0xFFF" if "i < j" for i
      using Suc.prems(3) [of "Suc i"] that v by (simp add: trigger_reads_Suc)
  qed (use Suc.prems v in \<open>simp_all add: trigger_reads_Suc\<close>)
  ultimately show ?case
    using Suc.prems(2) by (simp add: wait_trigger_step [OF v] trigger_reads_Suc [of b "Suc j"] v)
qed

lemma wait_trigger_miss:
  assumes "nn + n = 999"
    and "\<And>i. i < n \<Longrightarrow> trigger_number (fst (trigger_reads b (Suc i) (r, d))) \<noteq> (told + 4) AND 0xFFF"
  shows "wait_trigger b told nn r d = (None, trigger_reads b (Suc n) (r, d))"
  using assms
proof (induction n arbitrary: nn r d)
  case 0
  obtain r1 d1 where v: "b_vread b 0xf80018 r d = (r1, d1)" by (cases "b_vread b 0xf80018 r d")
  show ?case using 0 v by (simp add: wait_trigger_step [OF v] trigger_reads_Suc trigger_reads_0)
next
  case (Suc n)
  obtain r1 d1 where v: "b_vread b 0xf80018 r d = (r1, d1)" by (cases "b_vread b 0xf80018 r d")
  have "trigger_number r1 \<noteq> (told + 4) AND 0xFFF"
    using Suc.prems(2) [of 0] v by (simp add: trigger_reads_Suc trigger_reads_0)
  moreover have "wait_trigger b told (nn + 1) r1 d1 = (None, trigger_reads b (Suc n) (r1, d1))"
  proof (rule Suc.IH)
    show "trigger_number (fst (trigger_reads b (Suc i) (r1, d1))) \<noteq> (told + 4) AND 0xFFF" if "i < n" for i
      using Suc.prems(2) [of "Suc i"] that v by (simp add: trigger_reads_Suc)
  qed (use Suc.prems(1) in simp)
  ultimately show ?case
    using Suc.prems(1) by (simp add: wait_trigger_step [OF v] trigger_reads_Suc [of b "Suc n"] v)
qed

text \<open>
  C25. Waiting for the trigger in the test mode, on any board: the wait ends at the first of
  999 reads whose trigger number is four more (modulo 4096) than that of the last round, and
  gives this number; when none of them is, a thousandth read is made and the program exits,
  whatever that read gives.
\<close>

theorem wait_trigger_outcomes:
  "(\<forall>j < 999. trigger_number (fst (trigger_reads b (Suc j) (r, d))) = (told + 4) AND 0xFFF
       \<and> (\<forall>i < j. trigger_number (fst (trigger_reads b (Suc i) (r, d))) \<noteq> (told + 4) AND 0xFFF)
       \<longrightarrow> wait_trigger b told 0 r d = (Some ((told + 4) AND 0xFFF), trigger_reads b (Suc j) (r, d)))
   \<and> ((\<forall>j < 999. trigger_number (fst (trigger_reads b (Suc j) (r, d))) \<noteq> (told + 4) AND 0xFFF)
       \<longrightarrow> wait_trigger b told 0 r d = (None, trigger_reads b 1000 (r, d)))"
  using wait_trigger_hit [of b _ r d told 0] wait_trigger_miss [of 0 999 b r d told] by auto

text \<open>A board whose register 6 counts the reads in its trigger number.\<close>

definition count_bus :: "nat bus" where
  "count_bus = \<lparr>b_read = (\<lambda>off d. (0, d)), b_write = (\<lambda>off v d. d),
     b_vread = (\<lambda>off old d. (push_bit 20 (of_nat d), d + 1)), b_vwrite = (\<lambda>off v d. d)\<rparr>"

theorem wait_trigger_outcomes_witness:
  "fst (wait_trigger count_bus 0 0 0 2) = Some 4 \<and> fst (wait_trigger host_bus 0 0 7 (\<lambda>n. 0)) = None"
proof -
  have t: "trigger_number (fst (trigger_reads count_bus (Suc 2) (0, 2))) = (0 + 4) AND 0xFFF"
    "trigger_number (fst (trigger_reads count_bus (Suc 0) (0, 2))) \<noteq> (0 + 4) AND 0xFFF"
    "trigger_number (fst (trigger_reads count_bus (Suc 1) (0, 2))) \<noteq> (0 + 4) AND 0xFFF"
    by code_simp+
  then have "trigger_number (fst (trigger_reads count_bus (Suc i) (0, 2))) \<noteq> (0 + 4) AND 0xFFF" if "i < 2" for i
    using that less_2_cases by auto
  moreover have "trigger_reads host_bus j (7, \<lambda>n. 0) = (7, \<lambda>n. 0)" for j
    by (induction j) (simp_all add: trigger_reads_def host_bus_def host_vread_def)
  then have "trigger_number (fst (trigger_reads host_bus (Suc j) (7, \<lambda>n. 0))) \<noteq> (0 + 4) AND 0xFFF" for j
    by (simp add: trigger_number_def)
  ultimately show ?thesis
    using wait_trigger_outcomes [of count_bus 0 2 0] wait_trigger_outcomes [of host_bus 7 "\<lambda>n. 0" 0] t(1)
    by (auto dest: spec [of _ 2])
qed

section \<open>From the command line to the registers\<close>

datatype opt = OptServer string | OptName string | OptAddress string | OptCycles string
  | OptOffset string | OptDelay string | OptTest

fun opt_args :: "opt \<Rightarrow> string list" where
  "opt_args (OptServer v) = [''-s'', v]"
| "opt_args (OptName v) = [''-n'', v]"
| "opt_args (OptAddress v) = [''-a'', v]"
| "opt_args (OptCycles v) = [''-c'', v]"
| "opt_args (OptOffset v) = [''-of'', v]"
| "opt_args (OptDelay v) = [''-td'', v]"
| "opt_args OptTest = [''-t'']"

fun set_opt :: "opt \<Rightarrow> acq_cfg \<Rightarrow> acq_cfg" where
  "set_opt (OptServer v) c = c\<lparr>cfg_server := take 64 v\<rparr>"
| "set_opt (OptName v) c = c\<lparr>cfg_cuname := take 64 v\<rparr>"
| "set_opt (OptAddress v) c = c\<lparr>cfg_address := of_int (c_strtoul0 v)\<rparr>"
| "set_opt (OptCycles v) c = c\<lparr>cfg_cycles := c_int (c_strtoul0 v)\<rparr>"
| "set_opt (OptOffset v) c = c\<lparr>cfg_offset := c_int (c_strtoul0 v)\<rparr>"
| "set_opt (OptDelay v) c = c\<lparr>cfg_delay := c_int (c_strtoul0 v)\<rparr>"
| "set_opt OptTest c = c\<lparr>cfg_testmode := True\<rparr>"

definition plain_arg :: "string \<Rightarrow> bool" where
  "plain_arg v \<longleftrightarrow> v \<notin> set [''-s'', ''-n'', ''-a'', ''-c'', ''-of'', ''-td'', ''-h'', ''-t'']"

declare parse_args.simps [simp del]

lemma parse_nil [simp]: "parse_args [] c = Inr c"
  by (rule parse_args.simps(1))

lemma parse_plain: "plain_arg v \<Longrightarrow> parse_args (v # rest) c = parse_args rest c"
  by (subst parse_args.simps(2)) (simp add: plain_arg_def)

lemma parse_opt:
  "list_all plain_arg (tl (opt_args x)) \<Longrightarrow> parse_args (opt_args x @ rest) c = parse_args rest (set_opt x c)"
  by (cases x) (simp_all add: parse_plain parse_args.simps(2) [of "''-s''"] parse_args.simps(2) [of "''-n''"]
      parse_args.simps(2) [of "''-a''"] parse_args.simps(2) [of "''-c''"] parse_args.simps(2) [of "''-of''"]
      parse_args.simps(2) [of "''-td''"] parse_args.simps(2) [of "''-t''"])

lemma parse_opts:
  "list_all (\<lambda>x. list_all plain_arg (tl (opt_args x))) opts
     \<Longrightarrow> parse_args (concat (map opt_args opts)) c = Inr (fold set_opt opts c)"
  by (induction opts arbitrary: c) (simp_all add: parse_opt)

lemma reg_distinct:
  "distinct [HET_REG_OFF 0, HET_REG_OFF 1, HET_REG_OFF 3, HET_REG_OFF 4, HET_REG_OFF 5]"
  by (simp add: HET_REG_OFF_def)

lemma configure_get:
  assumes "register_memory b get"
  shows "get (het_configure b c d) = (get d)(HET_REG_OFF 4 := 0, HET_REG_OFF 0 := 0xFFFFFFFF,
     HET_REG_OFF 1 := ENABLE_T1 OR ENABLE_T2 OR FIFO_NORMAL OR FIFO_TRG_UKN,
     HET_REG_OFF 3 := FIDUCIAL_TURN (of_int (cfg_cycles c)) OR TRIGGER_DELAY (of_int (cfg_delay c)) OR OFFSET_FIDUCIAL (of_int (cfg_offset c)),
     HET_REG_OFF 5 := T2_COUNTER 0 OR SYNCR_INVERT)"
  by (simp add: het_configure_def Let_def register_memory_simps [OF assms])

lemma reg3_masks: "0x1F = (mask 5 :: u32)" "0x7F = (mask 7 :: u32)" "0xFF = (mask 8 :: u32)"
  by (simp_all add: mask_eq_exp_minus_1)

lemma reg3_fields:
  fixes x y z :: u32
  shows "drop_bit 16 (FIDUCIAL_TURN x OR TRIGGER_DELAY y OR OFFSET_FIDUCIAL z) = x AND 0x1F"
    and "drop_bit 8 (FIDUCIAL_TURN x OR TRIGGER_DELAY y OR OFFSET_FIDUCIAL z) AND 0x7F = y AND 0x7F"
    and "(FIDUCIAL_TURN x OR TRIGGER_DELAY y OR OFFSET_FIDUCIAL z) AND 0xFF = z AND 0xFF"
  unfolding FIDUCIAL_TURN_def TRIGGER_DELAY_def OFFSET_FIDUCIAL_def reg3_masks
  by (rule bit_word_eqI, auto simp: bit_simps)+

lemma cycles_field:
  assumes "0 \<le> n" and "n \<le> 9"
  shows "(of_int n :: u32) AND 0x1F = of_int n"
proof -
  have "n = 0 \<or> n = 1 \<or> n = 2 \<or> n = 3 \<or> n = 4 \<or> n = 5 \<or> n = 6 \<or> n = 7 \<or> n = 8 \<or> n = 9"
    using assms by arith
  then show ?thesis by (elim disjE) simp_all
qed

text \<open>
  C26. The command line and the board: for options whose values are not themselves spelled
  like options, the program's configuration is the options applied in order (when the
  number of cycles is at most 9 and both names are given), and outside the test mode the
  register 3 of a board with memory-like registers then holds the cycles, the trigger delay
  modulo 128 and the fiducial offset modulo 256 in their fields, all channels are enabled,
  both triggers are on and the reset register is 0 again.
\<close>

theorem options_reach_board:
  assumes "list_all (\<lambda>x. list_all plain_arg (tl (opt_args x))) opts" and "plain_arg prog"
    and "c = fold set_opt opts cfg_init" and "0 \<le> cfg_cycles c" and "cfg_cycles c \<le> 9"
    and "cfg_server c \<noteq> []" and "cfg_cuname c \<noteq> []" and "register_memory b get"
    and "r = get (het_configure b c d)"
  shows "acq_options (prog # concat (map opt_args opts)) True = Inr c
    \<and> r (HET_REG_OFF 0) = 0xFFFFFFFF \<and> r (HET_REG_OFF 1) = 0xC0100000
    \<and> drop_bit 16 (r (HET_REG_OFF 3)) = of_int (cfg_cycles c)
    \<and> drop_bit 8 (r (HET_REG_OFF 3)) AND 0x7F = of_int (cfg_delay c) AND 0x7F
    \<and> r (HET_REG_OFF 3) AND 0xFF = of_int (cfg_offset c) AND 0xFF
    \<and> r (HET_REG_OFF 4) = 0 \<and> r (HET_REG_OFF 5) = 0x2000"
proof -
  have "parse_args (prog # concat (map opt_args opts)) cfg_init = Inr c"
    using parse_opts [OF assms(1)] by (simp add: parse_plain [OF assms(2)] assms(3))
  then have o: "acq_options (prog # concat (map opt_args opts)) True = Inr c"
    using assms(4-7) by (simp add: acq_options_def check_cfg_def)
  let ?v = "FIDUCIAL_TURN (of_int (cfg_cycles c)) OR TRIGGER_DELAY (of_int (cfg_delay c)) OR OFFSET_FIDUCIAL (of_int (cfg_offset c))"
  have r: "r (HET_REG_OFF 0) = 0xFFFFFFFF" "r (HET_REG_OFF 3) = ?v" "r (HET_REG_OFF 4) = 0"
    "r (HET_REG_OFF 1) = ENABLE_T1 OR ENABLE_T2 OR FIFO_NORMAL OR FIFO_TRG_UKN"
    "r (HET_REG_OFF 5) = T2_COUNTER 0 OR SYNCR_INVERT"
    using reg_distinct unfolding assms(9) configure_get [OF assms(8)] by auto
  show ?thesis
    unfolding r reg3_fields cycles_field [OF assms(4,5)] using o
    by (simp add: ENABLE_T1_def ENABLE_T2_def FIFO_NORMAL_def FIFO_TRG_UKN_def T2_COUNTER_def SYNCR_INVERT_def)
qed

definition ex_opts :: "opt list" where
  "ex_opts = [OptServer ''wan:8082'', OptName ''HET'', OptCycles ''0x5'', OptDelay ''130'', OptOffset ''7'']"

lemma ex_opts_cfg:
  "fold set_opt ex_opts cfg_init = \<lparr>cfg_server = ''wan:8082'', cfg_cuname = ''HET'', cfg_address = 0x01000000,
     cfg_cycles = 5, cfg_offset = 7, cfg_delay = 130, cfg_testmode = False\<rparr>"
proof -
  have "c_strtoul0 ''0x5'' = 5" "c_strtoul0 ''130'' = 130" "c_strtoul0 ''7'' = 7" by code_simp+
  then show ?thesis by (simp add: ex_opts_def cfg_init_def c_int_def)
qed

theorem options_reach_board_witness:
  "acq_options (''acq'' # concat (map opt_args ex_opts)) True = Inr (fold set_opt ex_opts cfg_init)
   \<and> drop_bit 8 (het_configure memory_bus (fold set_opt ex_opts cfg_init) (\<lambda>n. 0) (HET_REG_OFF 3)) AND 0x7F = 2"
  using options_reach_board [of ex_opts "''acq''" "fold set_opt ex_opts cfg_init" memory_bus "\<lambda>d. d" _ "\<lambda>n. 0"]
  by (simp add: ex_opts_cfg memory_bus_ok plain_arg_def) (simp add: ex_opts_def plain_arg_def)

end
