(* ===== verification/HetRound.thy ===== *)
theory HetRound
  imports HetAcquire
begin

text \<open>
  The rounds of the acquisition program over the library: the state of its control unit
  (built from the table \<open>het_cu\<close>), what each update writes, and the object that a round
  sends.
\<close>

section \<open>The attributes of the program\<close>

text \<open>An attribute made from a row of the table, with some text in its buffer.\<close>

definition het_attr :: "chaos_ds \<Rightarrow> ds \<Rightarrow> bool" where
  "het_attr d a \<longleftrightarrow>
     (\<exists>f data. typeToFormat (cds_type d) = Inr f \<and> ds_type a = cds_type d
        \<and> ds_format a = Some (out_format (cds_name d) f) \<and> ds_data a = Some data
        \<and> ds_size a = out_size d (out_format (cds_name d) f) \<and> ds_alloc_size a = out_alloc_size d
        \<and> int (length data) < ds_alloc_size a)"

definition het_ready :: "handle \<Rightarrow> u32 \<Rightarrow> cu \<Rightarrow> bool" where
  "het_ready h uid c \<longleftrightarrow> wf_handle h \<and> \<not> bad_uid h uid \<and> cu_slot h (unat uid - 1) = Inr c
     \<and> wf_cu c \<and> list_all2 het_attr het_cu (cu_outds c)"

definition attr_text :: "(u64 \<Rightarrow> string) \<Rightarrow> chaos_ds \<Rightarrow> val \<Rightarrow> string" where
  "attr_text dbl d v = (''\"'' @ cds_name d @ ''\":'') @ val_text dbl (cds_type d) v"

lemma row_types: "CREST_TYPE_INT32 OR CREST_TYPE_VECTOR = 0x1001"
  by (simp add: crest_consts)

lemma vector_type [simp]:
  "typeToFormat 0x1001 = Inr ''{\"$binary\":{\"base64\":\"%s\",\"subType\":\"84\"}}''"
  "is_blob 0x1001" "elem_size 0x1001 = 4" "blob_subtype 0x1001 = ''84''"
  by (simp_all add: typeToFormat_def is_blob_def is_vector_def elem_size_def has_type_def blob_subtype_def crest_consts)

lemma scalar_types [simp]: "\<not> is_blob CREST_TYPE_INT32" "\<not> is_blob CREST_TYPE_INT64"
  by (simp_all add: is_blob_def is_vector_def crest_consts)

lemma row_alloc:
  "out_alloc_size (het_cu ! 0) = 64" "out_alloc_size (het_cu ! Suc 0) = 64"
  "out_alloc_size (het_cu ! 2) = 100" "out_alloc_size (het_cu ! 3) = 196624"
  by (simp_all add: out_alloc_size_def het_cu_def row_types DMA_WORDS_def c_int_def MAXDIGITS_def nth_Cons')

lemma rows:
  "cds_name (het_cu ! 0) = ''STATUS''" "cds_name (het_cu ! Suc 0) = ''EVENTS''" "cds_name (het_cu ! 2) = ''Config''"
  "cds_name (het_cu ! 3) = ''FIFO''" "cds_type (het_cu ! 2) = 0x1001" "cds_size (het_cu ! 2) = 7"
  "cds_type (het_cu ! 0) = CREST_TYPE_INT32" "cds_type (het_cu ! Suc 0) = CREST_TYPE_INT64" "cds_type (het_cu ! 3) = 0x1001"
  "cds_size (het_cu ! 0) = 4" "cds_size (het_cu ! Suc 0) = 8" "cds_size (het_cu ! 3) = 16384"
  by (simp_all add: het_cu_def row_types DMA_WORDS_def nth_Cons')

lemma row_sizes:
  "length s < 256 \<Longrightarrow> out_size (het_cu ! 0) s = int (length s) + 21"
  "length s < 256 \<Longrightarrow> out_size (het_cu ! Suc 0) s = int (length s) + 25" "out_size (het_cu ! 3) s = 65536"
  "out_size (het_cu ! 2) s = 28"
  by (simp_all add: out_size_def rows MAXDIGITS_def c_int_id)

lemma row_formats:
  "i = 0 \<or> i = 1 \<or> i = 2 \<or> i = 3 \<Longrightarrow> typeToFormat (cds_type (het_cu ! i)) = Inr f
     \<Longrightarrow> CHR ''%'' \<notin> set (cds_name (het_cu ! i)) \<and> length (cds_name (het_cu ! i)) + length f + 3 < 256"
  by (elim disjE) (auto simp: rows)

lemma show_int_length:
  assumes "0 < k" and "- (10 ^ k) < i" and "i < 10 ^ k"
  shows "length (show_int i) \<le> Suc k"
proof -
  have "nat \<bar>i\<bar> < 10 ^ k" using assms(2,3) by (simp add: nat_less_iff)
  from length_show_nat [OF assms(1) this] show ?thesis by (auto simp: show_int_def)
qed

lemma sint_lengths:
  "length (show_int (sint (w :: u32))) \<le> 11" "length (show_int (sint (v :: u64))) \<le> 20"
  "length (show_nat (unat (u :: u64))) \<le> 20"
proof -
  show "length (show_int (sint w)) \<le> 11"
    using show_int_length [of 10 "sint w"] sint_greater_eq [of w] sint_less [of w] by simp
  show "length (show_int (sint v)) \<le> 20"
    using show_int_length [of 19 "sint v"] sint_greater_eq [of v] sint_less [of v] by simp
  have "unat u < 2 ^ 64" using unsigned_less [of u] by simp
  then show "length (show_nat (unat u)) \<le> 20" by (intro length_show_nat) simp_all
qed

lemma words_mem_length [simp]: "length (words_mem le ws) = 4 * length ws"
  by (induction ws) (simp_all add: words_mem_def mem_bytes_def)

text \<open>The values the program writes, with the bounds on their texts.\<close>

definition het_val :: "nat \<Rightarrow> val \<Rightarrow> bool" where
  "het_val i v \<longleftrightarrow>
     (i = 0 \<and> (\<exists>w. v = VInt32 w)) \<or> (i = 1 \<and> (\<exists>w. v = VInt64 w))
     \<or> (i = 2 \<and> (\<exists>bs. v = VBlob bs \<and> length bs = 28))
     \<or> (i = 3 \<and> (\<exists>bs. v = VBlob bs \<and> length bs = 4 * DMA_WORDS))"

lemma het_val_text:
  assumes "het_val i v"
  shows "int (length (attr_text dbl (het_cu ! i) v)) < out_alloc_size (het_cu ! i)"
proof -
  consider w where "i = 0" "v = VInt32 w" | w where "i = 1" "v = VInt64 w"
    | bs where "i = 2" "v = VBlob bs" "length bs = 28"
    | bs where "i = 3" "v = VBlob bs" "length bs = 65536" using assms by (auto simp: het_val_def DMA_WORDS_def)
  then show ?thesis
  proof cases
    case (1 w)
    then show ?thesis using sint_lengths(1) [of w] by (simp add: attr_text_def rows row_alloc)
  next
    case (2 w)
    then show ?thesis using sint_lengths(2) [of w] by (simp add: attr_text_def rows row_alloc)
  next
    case (3 bs)
    have "length (val_text dbl 0x1001 (VBlob bs)) \<le> 85"
      by (simp add: length_b64_spec 3(3) CREST_TYPE_BINARY_def)
    then show ?thesis by (simp add: attr_text_def rows row_alloc 3(1,2) del: val_text.simps)
  next
    case (4 bs)
    have "length (val_text dbl 0x1001 (VBlob bs)) \<le> 100000"
      by (simp add: length_b64_spec 4(3) CREST_TYPE_BINARY_def)
    then show ?thesis by (simp add: attr_text_def rows row_alloc 4(1,2) del: val_text.simps)
  qed
qed

lemma het_attr_update:
  assumes a: "het_attr (het_cu ! i) a" and v: "het_val i v" and mem: "\<And>n. 0 < n \<Longrightarrow> mem n"
  shows "\<exists>a'. update_value dbl le mem a (val_mem le v) = Inr a' \<and> het_attr (het_cu ! i) a'
     \<and> ds_data a' = Some (attr_text dbl (het_cu ! i) v)"
proof -
  let ?d = "het_cu ! i"
  from a obtain f data where f: "typeToFormat (cds_type ?d) = Inr f" and t: "ds_type a = cds_type ?d"
    and fm: "ds_format a = Some (out_format (cds_name ?d) f)" and dat: "ds_data a = Some data"
    and sz: "ds_size a = out_size ?d (out_format (cds_name ?d) f)" and al: "ds_alloc_size a = out_alloc_size ?d"
    by (auto simp: het_attr_def)
  have i: "i = 0 \<or> i = 1 \<or> i = 2 \<or> i = 3" using v by (auto simp: het_val_def)
  note nm = conjunct1 [OF row_formats [OF i f]] conjunct2 [OF row_formats [OF i f]]
  have pos: "0 < ds_alloc_size a" using i row_alloc al by auto
  have szs: "0 \<le> ds_size a \<and> ds_size a \<le> 2 ^ 28 \<and> (i = 2 \<longrightarrow> ds_size a = 28) \<and> (i = 3 \<longrightarrow> ds_size a = 65536)"
    using i row_sizes [of "out_format (cds_name ?d) f"] out_format_length [of "cds_name ?d" f] unfolding sz
    by (elim disjE) (simp_all)
  have small: "small_out a" using szs al i row_alloc by (auto simp: small_out_def)
  have fits: "val_fits a v" using v t szs by (auto simp: het_val_def rows DMA_WORDS_def)
  have al2: "new_alloc a v = ds_alloc_size a"
    using v al row_alloc by (auto simp: het_val_def DMA_WORDS_def Let_def)
  have tx: "sn_store (nat (ds_alloc_size a)) (attr_text dbl ?d v) = attr_text dbl ?d v"
    using het_val_text [OF v, of dbl] al by (intro sn_store_fits) linarith
  have "update_value dbl le mem a (val_mem le v @ []) = Inr (a\<lparr>ds_alloc_size := ds_alloc_size a, ds_data := Some (attr_text dbl ?d v)\<rparr>)"
    using update_value_text [where rest = "[]" and le = le and dbl = dbl and mem = mem, OF f [folded t] fm nm dat pos small fits mem] t tx
    by (simp add: al2 attr_text_def)
  moreover have "het_attr ?d (a\<lparr>ds_alloc_size := ds_alloc_size a, ds_data := Some (attr_text dbl ?d v)\<rparr>)"
    unfolding het_attr_def using f t fm sz al het_val_text [OF v, of dbl] by (intro exI [of _ f] exI) auto
  ultimately show ?thesis by (intro exI [of _ "a\<lparr>ds_alloc_size := ds_alloc_size a, ds_data := Some (attr_text dbl ?d v)\<rparr>"]) simp
qed

section \<open>Updates of a ready handle\<close>

lemma het_attr_wf: "het_attr d a \<Longrightarrow> wf_out a"
  by (auto simp: het_attr_def wf_out_def)

lemma het_ready_set:
  assumes "het_ready h uid c" and "wf_cu c'" and "list_all2 het_attr het_cu (cu_outds c')"
  shows "het_ready (set_cu h (unat uid - 1) c') uid c'"
proof -
  have w: "wf_handle h" "\<not> bad_uid h uid" using assms(1) by (simp_all add: het_ready_def)
  have i: "unat uid - 1 < length (h_cus h)" using slot_ok [OF w] by blast
  have "wf_handle (set_cu h (unat uid - 1) c')"
    using w(1) assms(2) by (auto simp: wf_handle_def set_cu_def intro!: list_all_update)
  then show ?thesis using w(2) i assms(2,3)
    by (simp add: het_ready_def bad_uid_def set_cu_def cu_slot_def)
qed

lemma het_update:
  assumes r: "het_ready h uid c" and v: "het_val i v" and mem: "\<And>n. 0 < n \<Longrightarrow> mem n"
  shows "\<exists>c'. chaos_crest_update dbl le mem h uid (int i) (val_mem le v) = Inr (set_cu h (unat uid - 1) c', 0)
     \<and> het_ready (set_cu h (unat uid - 1) c') uid c' \<and> cu_name c' = cu_name c
     \<and> map ds_data (cu_outds c') = (map ds_data (cu_outds c))[i := Some (attr_text dbl (het_cu ! i) v)]"
proof -
  have rd: "wf_handle h" "\<not> bad_uid h uid" "cu_slot h (unat uid - 1) = Inr c" "wf_cu c"
    "list_all2 het_attr het_cu (cu_outds c)" using r by (simp_all add: het_ready_def)
  have len: "length (cu_outds c) = 4" using list_all2_lengthD [OF rd(5)] by (simp add: het_cu_def)
  have i: "i < 4" using v by (auto simp: het_val_def)
  have at: "het_attr (het_cu ! i) (cu_outds c ! i)"
    using rd(5) i len by (simp add: list_all2_conv_all_nth)
  have "\<exists>a'. update_value dbl le mem (cu_outds c ! i) (val_mem le v) = Inr a' \<and> het_attr (het_cu ! i) a'
     \<and> ds_data a' = Some (attr_text dbl (het_cu ! i) v)"
    by (rule het_attr_update [OF at v]) (rule mem)
  then obtain a'
    where u: "update_value dbl le mem (cu_outds c ! i) (val_mem le v) = Inr a'"
    and a': "het_attr (het_cu ! i) a'" "ds_data a' = Some (attr_text dbl (het_cu ! i) v)" by (elim exE conjE)
  let ?c = "c\<lparr>cu_outds := (cu_outds c)[i := a']\<rparr>"
  have n: "int i < cu_nout c" using rd(4) len i by (simp add: wf_cu_def)
  have "update_attribute dbl le mem c (int i) (val_mem le v) = Inr (?c, 0)"
    using update_attribute_ok [OF rd(4) _ n, of dbl le mem "val_mem le v"] u by simp
  then have "chaos_crest_update dbl le mem h uid (int i) (val_mem le v) = Inr (set_cu h (unat uid - 1) ?c, 0)"
    using rd(2,3) by (simp add: chaos_crest_update_def Let_def)
  moreover have "wf_cu ?c" using rd(4) het_attr_wf [OF a'(1)] by (simp add: wf_cu_def list_all_update)
  moreover have "list_all2 het_attr het_cu (cu_outds ?c)"
    using list_all2_update_cong [OF rd(5) a'(1), of i] by simp
  ultimately show ?thesis
    using het_ready_set [OF r] a'(2) by (intro exI [of _ ?c]) (simp add: map_update)
qed

section \<open>What a push sends\<close>

lemma http_post_body:
  "http_post w h api trx rx n = Some (Inr (w', b, r)) \<Longrightarrow> h_wan_url h = Some url \<Longrightarrow>
     w_posts w' = w_posts w @ [(sn_store 256 (url @ api), trx)]"
  by (auto simp: http_post_def Let_def split: option.splits list.splits sum.splits)

lemma push_body:
  assumes run: "chaos_crest_push mem rx w h uid 0 = Some (Inr (w', h', r))"
    and ok: "\<not> bad_uid h uid" "cu_slot h (unat uid - 1) = Inr c" "h_wan_url h = Some url"
    and pt: "push_text mem 1 (cu_name c) 0 (h_npush h) (epoch_of (w_clock w (w_ticks w))) (cu_outds c) (cu_nout c) = Inr body"
  shows "w_posts w' = w_posts w @ [(sn_store 256 (url @ ''/api/v1/producer/jsoninsert''), body)]
     \<and> h_cus h' = h_cus h \<and> h_ncus h' = h_ncus h \<and> h_wan_url h' = h_wan_url h"
proof -
  let ?ts = "epoch_of (w_clock w (w_ticks w))" and ?w1 = "w\<lparr>w_ticks := Suc (w_ticks w)\<rparr>"
  have "uid \<noteq> 0" using ok(1) by (simp add: bad_uid_def)
  then have "push_send rx ?ts ?w1 h ''/api/v1/producer/jsoninsert'' body = Some (Inr (w', h', r))"
    using run ok pt by (simp add: chaos_crest_push_def push_cu_def push_cu_int_def getEpoch_def Let_def)
  from push_send_result [OF this] obtain w2 b err t where
    p: "http_post ?w1 h ''/api/v1/producer/jsoninsert'' body (Some rx) 8192 = Some (Inr (w2, b, err))"
    and w': "w' = w2\<lparr>w_ticks := w_ticks w2 + 1\<rparr> \<or> w' = w2" and h': "h' = push_stats h t \<or> h' = h" by blast
  have "w_posts w2 = w_posts w @ [(sn_store 256 (url @ ''/api/v1/producer/jsoninsert''), body)]"
    using http_post_body [OF p ok(3)] by simp
  moreover have "w_posts w' = w_posts w2" using w' by (rule disjE) simp_all
  moreover have "h_wan_url (push_stats h t) = h_wan_url h" unfolding push_stats_def by simp
  then have "h_cus h' = h_cus h \<and> h_ncus h' = h_ncus h \<and> h_wan_url h' = h_wan_url h"
    using h' push_stats_fields [of h t] by (elim disjE) simp_all
  ultimately show ?thesis by simp
qed

section \<open>A round\<close>

lemma acq_update_ok:
  assumes "het_ready (a_handle s) (a_uid s) c" and "het_val i v" and "\<And>n. 0 < n \<Longrightarrow> e_mem e n"
  shows "\<exists>h' c'. acq_update e (int i) (val_mem (e_le e) v) s = Inr (s\<lparr>a_handle := h'\<rparr>)
     \<and> het_ready h' (a_uid s) c' \<and> cu_name c' = cu_name c
     \<and> map ds_data (cu_outds c') = (map ds_data (cu_outds c))[i := Some (attr_text (e_dbl e) (het_cu ! i) v)]
     \<and> h_wan_url h' = h_wan_url (a_handle s) \<and> h_npush h' = h_npush (a_handle s)"
proof -
  have "\<exists>c'. chaos_crest_update (e_dbl e) (e_le e) (e_mem e) (a_handle s) (a_uid s) (int i) (val_mem (e_le e) v)
        = Inr (set_cu (a_handle s) (unat (a_uid s) - 1) c', 0)
     \<and> het_ready (set_cu (a_handle s) (unat (a_uid s) - 1) c') (a_uid s) c' \<and> cu_name c' = cu_name c
     \<and> map ds_data (cu_outds c') = (map ds_data (cu_outds c))[i := Some (attr_text (e_dbl e) (het_cu ! i) v)]"
    by (rule het_update [OF assms(1,2)]) (rule assms(3))
  then obtain c' where u: "chaos_crest_update (e_dbl e) (e_le e) (e_mem e) (a_handle s) (a_uid s) (int i) (val_mem (e_le e) v)
        = Inr (set_cu (a_handle s) (unat (a_uid s) - 1) c', 0)"
    and rest: "het_ready (set_cu (a_handle s) (unat (a_uid s) - 1) c') (a_uid s) c'" "cu_name c' = cu_name c"
     "map ds_data (cu_outds c') = (map ds_data (cu_outds c))[i := Some (attr_text (e_dbl e) (het_cu ! i) v)]"
    by (elim exE conjE)
  have "acq_update e (int i) (val_mem (e_le e) v) s = Inr (s\<lparr>a_handle := set_cu (a_handle s) (unat (a_uid s) - 1) c'\<rparr>)"
    unfolding acq_update_def u by simp
  moreover have "h_wan_url (set_cu (a_handle s) (unat (a_uid s) - 1) c') = h_wan_url (a_handle s)"
    "h_npush (set_cu (a_handle s) (unat (a_uid s) - 1) c') = h_npush (a_handle s)"
    unfolding set_cu_def by simp_all
  ultimately show ?thesis using rest by blast
qed

lemma push_header_bound: "length (push_header 1 nm 0 k ts n) \<le> length nm + 160"
  using sint_lengths(3) [of k] sint_lengths(3) [of ts]
  by (simp add: push_header_def show_int_def show_nat.simps [of 0])

lemma fifo_text_length:
  assumes "length bs = 4 * DMA_WORDS"
  shows "length (attr_text dbl (het_cu ! 3) (VBlob bs)) \<le> 90000"
proof -
  have l: "length bs = 65536" using assms by (simp add: DMA_WORDS_def)
  have "length (val_text dbl 0x1001 (VBlob bs)) \<le> 89000"
    by (simp add: length_b64_spec l CREST_TYPE_BINARY_def)
  then show ?thesis by (simp add: attr_text_def rows del: val_text.simps)
qed

lemma het_push_text:
  assumes r: "het_ready h uid c" and nm: "cu_name c = Some nm" "length nm < 64"
    and ts: "map ds_data (cu_outds c) = map Some [t0, t1, t2, t3]" and t3: "length t3 \<le> 90000"
    and mem: "\<And>n. 0 < n \<Longrightarrow> mem n"
  shows "push_text mem 1 (cu_name c) 0 (h_npush h) (epoch_of (w_clock w (w_ticks w))) (cu_outds c) (cu_nout c)
     = Inr (push_object w h c nm [t0, t1, t2, t3])"
proof -
  have rd: "wf_cu c" "list_all2 het_attr het_cu (cu_outds c)" using r by (simp_all add: het_ready_def)
  have len: "length (cu_outds c) = 4" using list_all2_lengthD [OF rd(2)] by (simp add: het_cu_def)
  then obtain a0 a1 a2 a3 where o: "cu_outds c = [a0, a1, a2, a3]"
    by (auto simp: length_Suc_conv eval_nat_numeral)
  have at: "het_attr (het_cu ! 0) a0" "het_attr (het_cu ! Suc 0) a1" "het_attr (het_cu ! 2) a2" "het_attr (het_cu ! 3) a3"
    using list_all2_nthD2 [OF rd(2), of 0] list_all2_nthD2 [OF rd(2), of 1] list_all2_nthD2 [OF rd(2), of 2]
      list_all2_nthD2 [OF rd(2), of 3] by (simp_all add: o eval_nat_numeral)
  have dat: "ds_data a0 = Some t0" "ds_data a1 = Some t1" "ds_data a2 = Some t2" "ds_data a3 = Some t3"
    using ts by (simp_all add: o)
  have al: "ds_alloc_size a0 = 64" "ds_alloc_size a1 = 64" "ds_alloc_size a2 = 100" "ds_alloc_size a3 = 196624"
    using at row_alloc unfolding het_attr_def by auto
  have l: "length t0 < 64" "length t1 < 64" "length t2 < 100"
    using at al dat unfolding het_attr_def by auto
  have sz: "sum_list (map ds_alloc_size (cu_outds c)) = 196852" by (simp add: o al)
  have "length (push_object w h c nm [t0, t1, t2, t3]) + 1 \<le> 196852"
    using l t3 nm(2) push_header_bound [of nm "h_npush h" "epoch_of (w_clock w (w_ticks w))" "cu_nout c"]
    by (simp add: push_object_def)
  moreover have "list_all2 (\<lambda>a t. ds_data a = Some t) (cu_outds c) [t0, t1, t2, t3]" by (simp add: o dat)
  ultimately show ?thesis
    using push_text_object [OF rd(1), of "[t0, t1, t2, t3]" 196852 mem w h nm] sz mem by (simp add: nm(1))
qed

lemma acq_read_ok:
  assumes r: "het_ready (a_handle s) (a_uid s) c" and mem: "\<And>n. 0 < n \<Longrightarrow> e_mem e n"
    and dma: "b_dma b (a_evtbuf s) (a_dev s) = (ret, ws, d')" "0 \<le> ret" "length ws = DMA_WORDS"
    and scan: "scan_block ws (SEARCH_HEADER, a_eventn s, a_t2 s) = (fifo, st, n, t2)"
  shows "\<exists>s' c'. acq_read b e s = Inr s' \<and> a_eventn s' = n \<and> a_fifo s' = fifo \<and> a_world s' = a_world s
     \<and> a_uid s' = a_uid s \<and> het_ready (a_handle s') (a_uid s) c' \<and> cu_name c' = cu_name c
     \<and> map ds_data (cu_outds c') = (map ds_data (cu_outds c))
          [1 := Some (attr_text (e_dbl e) (het_cu ! 1) (VInt64 n)),
           3 := Some (attr_text (e_dbl e) (het_cu ! 3) (VBlob (words_mem (e_le e) fifo)))]
     \<and> h_wan_url (a_handle s') = h_wan_url (a_handle s) \<and> h_npush (a_handle s') = h_npush (a_handle s)"
proof -
  let ?s = "s\<lparr>a_evtbuf := ws, a_dev := d', a_fifo := fifo, a_eventn := n, a_t2 := t2\<rparr>"
  have fl: "length fifo = DMA_WORDS" using scan dma(3) by (auto simp: scan_block_fold)
  have v: "het_val 1 (VInt64 n)" "het_val 3 (VBlob (words_mem (e_le e) fifo))"
    by (simp_all add: het_val_def fl)
  have r1: "het_ready (a_handle ?s) (a_uid ?s) c" using r by simp
  from acq_update_ok [OF r1 v(1) mem] obtain h1 c1
    where u1: "acq_update e 1 (mem_bytes (e_le e) 8 (unat n)) ?s = Inr (?s\<lparr>a_handle := h1\<rparr>)"
    and r2: "het_ready h1 (a_uid s) c1" "cu_name c1 = cu_name c"
      "map ds_data (cu_outds c1) = (map ds_data (cu_outds c))[1 := Some (attr_text (e_dbl e) (het_cu ! 1) (VInt64 n))]"
      "h_wan_url h1 = h_wan_url (a_handle s)" "h_npush h1 = h_npush (a_handle s)"
    by auto
  let ?s1 = "?s\<lparr>a_handle := h1\<rparr>"
  have r3: "het_ready (a_handle ?s1) (a_uid ?s1) c1" using r2(1) by simp
  from acq_update_ok [OF r3 v(2) mem] obtain h2 c2
    where u2: "acq_update e 3 (words_mem (e_le e) fifo) ?s1 = Inr (?s1\<lparr>a_handle := h2\<rparr>)"
    and r4: "het_ready h2 (a_uid s) c2" "cu_name c2 = cu_name c1"
      "map ds_data (cu_outds c2) = (map ds_data (cu_outds c1))[3 := Some (attr_text (e_dbl e) (het_cu ! 3) (VBlob (words_mem (e_le e) fifo)))]"
      "h_wan_url h2 = h_wan_url h1" "h_npush h2 = h_npush h1"
    by auto
  have "acq_read b e s = Inr (?s1\<lparr>a_handle := h2\<rparr>)"
    using dma(1,2) scan u1 u2 by (simp add: acq_read_def)
  then show ?thesis using r2 r4 by (intro exI [of _ "?s1\<lparr>a_handle := h2\<rparr>"] exI [of _ c2]) simp
qed

lemma het_ready_cong:
  "h_cus h' = h_cus h \<Longrightarrow> h_ncus h' = h_ncus h \<Longrightarrow> het_ready h uid c \<Longrightarrow> het_ready h' uid c"
  by (auto simp only: het_ready_def wf_handle_def bad_uid_def cu_slot_def)

lemma het_nout: "het_ready h uid c \<Longrightarrow> cu_nout c = 4"
  by (auto simp: het_ready_def wf_cu_def het_cu_def dest: list_all2_lengthD)

lemma acq_push_ok:
  assumes r: "het_ready (a_handle s) (a_uid s) c" and nm: "cu_name c = Some nm" "length nm < 64"
    and ts: "map ds_data (cu_outds c) = map Some [t0, t1, t2, t3]" "length t3 \<le> 90000"
    and url: "h_wan_url (a_handle s) = Some url" and mem: "\<And>n. 0 < n \<Longrightarrow> e_mem e n"
    and run: "acq_push e s = Some (Inr s')"
  shows "a_eventn s' = a_eventn s \<and> a_fifo s' = a_fifo s \<and> a_uid s' = a_uid s \<and> het_ready (a_handle s') (a_uid s) c
    \<and> h_wan_url (a_handle s') = Some url
    \<and> w_posts (a_world s') = w_posts (a_world s) @ [(sn_store 256 (url @ ''/api/v1/producer/jsoninsert''),
         push_header 1 nm 0 (h_npush (a_handle s)) (epoch_of (w_clock (a_world s) (w_ticks (a_world s)))) 4
         @ joined [t0, t1, t2, t3] @ ''}'')]"
proof -
  have rd: "\<not> bad_uid (a_handle s) (a_uid s)" "cu_slot (a_handle s) (unat (a_uid s) - 1) = Inr c"
    using r by (simp_all add: het_ready_def)
  have pt: "push_text (e_mem e) 1 (cu_name c) 0 (h_npush (a_handle s)) (epoch_of (w_clock (a_world s) (w_ticks (a_world s))))
      (cu_outds c) (cu_nout c) = Inr (push_object (a_world s) (a_handle s) c nm [t0, t1, t2, t3])"
    by (rule het_push_text [OF r nm ts]) (rule mem)
  from run obtain w h ret where p: "chaos_crest_push (e_mem e) (e_rx e) (a_world s) (a_handle s) (a_uid s) 0 = Some (Inr (w, h, ret))"
    and s': "s' = s\<lparr>a_world := w, a_handle := h\<rparr>"
    unfolding acq_push_def by (elim run_bind_InrE) (auto split: prod.splits)
  note b = push_body [OF p rd url pt]
  have "het_ready h (a_uid s) c" using b r by (intro het_ready_cong [of h "a_handle s"]) simp_all
  then show ?thesis using b url by (simp add: s' push_object_def het_nout [OF r])
qed

text \<open>The next request is answered with 200 after some polls.\<close>

definition answered :: "world \<Rightarrow> bool" where
  "answered w \<longleftrightarrow> (\<exists>m pre body post. (\<forall>k < m. list_all idle_event (w_net w (length (w_posts w)) k))
     \<and> w_net w (length (w_posts w)) m = pre @ EvReply 200 body # post
     \<and> list_all idle_event pre \<and> list_all idle_event post)"

lemma push_returns:
  assumes net: "answered w" and rx: "length rx = 8192"
    and ok: "\<not> bad_uid h uid" "cu_slot h (unat uid - 1) = Inr c" "h_wan_url h = Some url"
    and pt: "push_text mem 1 (cu_name c) 0 (h_npush h) (epoch_of (w_clock w (w_ticks w))) (cu_outds c) (cu_nout c) = Inr body"
  shows "\<exists>w' h'. chaos_crest_push mem rx w h uid 0 = Some (Inr (w', h', 0))"
proof -
  let ?w1 = "w\<lparr>w_ticks := Suc (w_ticks w)\<rparr>"
  obtain m pre b post where n: "\<And>k. k < m \<Longrightarrow> list_all idle_event (w_net w (length (w_posts w)) k)"
    "w_net w (length (w_posts w)) m = pre @ EvReply 200 b # post" "list_all idle_event pre" "list_all idle_event post"
    using net unfolding answered_def by blast
  have "rx \<noteq> []" using rx by auto
  then obtain w2 r where p: "http_post ?w1 h ''/api/v1/producer/jsoninsert'' body (Some rx) 8192 = Some (Inr (w2, r, 0))"
    using http_post_reply_aux [OF ok(3), of rx 200 m ?w1 pre b post] n rx by simp
  have "uid \<noteq> 0" using ok(1) by (simp add: bad_uid_def)
  then show ?thesis
    using ok(1,2) pt p by (simp add: chaos_crest_push_def push_cu_def push_cu_int_def getEpoch_def push_send_def)
qed

text \<open>
  C27. A round of the acquisition that finds the board's memory at least a quarter full and
  reads it without error: it returns when the server answers 200, and whenever it returns it
  has sent exactly one request, whose object has
  the status register as STATUS, the number of events found so far as EVENTS, the
  configuration as it was, and as FIFO the base64 of the block's words with their bytes
  swapped; nothing is cut, and the control unit is ready for the next round.
\<close>

theorem round_publishes:
  assumes ready: "het_ready (a_handle s) (a_uid s) c" and nm: "cu_name c = Some nm" "length nm < 64"
    and url: "h_wan_url (a_handle s) = Some url" and mem: "\<And>n. 0 < n \<Longrightarrow> e_mem e n"
    and conf: "ds_data (cu_outds c ! 2) = Some conf"
    and poll: "PollingVme (bus.truncate b) (a_dev s) = (status, r6, d1)" "status \<le> 3"
    and dma: "b_dma b (a_evtbuf s) d1 = (ret, ws, d2)" "0 \<le> ret" "length ws = DMA_WORDS"
    and scan: "scan_block ws (SEARCH_HEADER, a_eventn s, a_t2 s) = (fifo, st, n, t2)"
    and rx: "length (e_rx e) = 8192"
  shows "(answered (a_world s) \<longrightarrow> (\<exists>r. acq_round b e False s = Some (Inr r)))
    \<and> (\<forall>r. acq_round b e False s = Some (Inr r) \<longrightarrow> (\<exists>s' c'. r = Inr s' \<and> a_eventn s' = n \<and> a_fifo s' = fifo
    \<and> het_ready (a_handle s') (a_uid s') c' \<and> cu_name c' = Some nm
    \<and> w_posts (a_world s') = w_posts (a_world s) @ [(sn_store 256 (url @ ''/api/v1/producer/jsoninsert''),
         push_header 1 nm 0 (h_npush (a_handle s)) (epoch_of (w_clock (a_world s) (w_ticks (a_world s)))) 4
         @ joined [''\"STATUS\":'' @ show_int (sint r6),
             ''\"EVENTS\":{\"$numberLong\":\"'' @ show_int (sint n) @ ''\"}'', conf,
             ''\"FIFO\":{\"$binary\":{\"base64\":\"'' @ b64_spec (words_mem (e_le e) fifo) @ ''\",\"subType\":\"84\"}}'']
         @ ''}'')]))"
proof -
  let ?s = "s\<lparr>a_r6 := r6, a_dev := d1\<rparr>"
  have v: "het_val 0 (VInt32 r6)" by (simp add: het_val_def)
  have r0: "het_ready (a_handle ?s) (a_uid ?s) c" using ready by simp
  from acq_update_ok [OF r0 v mem] obtain h1 c1
    where u1: "acq_update e 0 (mem_bytes (e_le e) 4 (unat r6)) ?s = Inr (?s\<lparr>a_handle := h1\<rparr>)"
    and r1: "het_ready h1 (a_uid s) c1" "cu_name c1 = cu_name c"
      "map ds_data (cu_outds c1) = (map ds_data (cu_outds c))[0 := Some (attr_text (e_dbl e) (het_cu ! 0) (VInt32 r6))]"
      "h_wan_url h1 = h_wan_url (a_handle s)" "h_npush h1 = h_npush (a_handle s)"
    by auto
  let ?s1 = "?s\<lparr>a_handle := h1, a_loop := a_loop s + 1\<rparr>"
  have r2: "het_ready (a_handle ?s1) (a_uid ?s1) c1" using r1(1) by simp
  have dma': "b_dma b (a_evtbuf ?s1) (a_dev ?s1) = (ret, ws, d2)" using dma(1) by simp
  have scan': "scan_block ws (SEARCH_HEADER, a_eventn ?s1, a_t2 ?s1) = (fifo, st, n, t2)" using scan by simp
  from acq_read_ok [OF r2 mem dma' dma(2,3) scan'] obtain s2 c2
    where rd: "acq_read b e ?s1 = Inr s2" and e2: "a_eventn s2 = n" "a_fifo s2 = fifo" "a_world s2 = a_world s" "a_uid s2 = a_uid s"
    and r3: "het_ready (a_handle s2) (a_uid s2) c2" "cu_name c2 = cu_name c"
    and d2: "map ds_data (cu_outds c2) = (map ds_data (cu_outds c1))
          [1 := Some (attr_text (e_dbl e) (het_cu ! 1) (VInt64 n)),
           3 := Some (attr_text (e_dbl e) (het_cu ! 3) (VBlob (words_mem (e_le e) fifo)))]"
    and h2: "h_wan_url (a_handle s2) = Some url" "h_npush (a_handle s2) = h_npush (a_handle s)"
    using r1 url by auto
  have round: "acq_round b e False s = run_bind (acq_push e s2) (\<lambda>s5. Some (Inr (Inr s5)))"
    using poll u1 rd by (simp add: acq_round_def acq_trigger_def HOWTOREAD_def)
  have len: "length (cu_outds c) = 4" using ready by (auto simp: het_ready_def het_cu_def dest: list_all2_lengthD)
  then obtain a0 a1 a2 a3 where o: "cu_outds c = [a0, a1, a2, a3]" by (auto simp: length_Suc_conv eval_nat_numeral)
  let ?t3 = "attr_text (e_dbl e) (het_cu ! 3) (VBlob (words_mem (e_le e) fifo))"
  have ts: "map ds_data (cu_outds c2) = map Some [attr_text (e_dbl e) (het_cu ! 0) (VInt32 r6),
      attr_text (e_dbl e) (het_cu ! 1) (VInt64 n), conf, ?t3]"
    using conf by (simp add: d2 r1(3) o eval_nat_numeral)
  have "length fifo = DMA_WORDS" using scan dma(3) by (auto simp: scan_block_fold)
  then have "length ?t3 \<le> 90000" by (intro fifo_text_length) simp
  note l3 = this
  have nm2: "cu_name c2 = Some nm" using r3(2) nm(1) by simp
  have sl: "\<not> bad_uid (a_handle s2) (a_uid s2)" "cu_slot (a_handle s2) (unat (a_uid s2) - 1) = Inr c2"
    using r3(1) by (simp_all add: het_ready_def)
  have "\<exists>w' h'. chaos_crest_push (e_mem e) (e_rx e) (a_world s2) (a_handle s2) (a_uid s2) 0 = Some (Inr (w', h', 0))"
    if "answered (a_world s)"
    using that e2(3) by (intro push_returns [OF _ rx sl h2(1) het_push_text [OF r3(1) nm2 nm(2) ts l3 mem]]) simp_all
  then have ret: "answered (a_world s) \<longrightarrow> (\<exists>r. acq_round b e False s = Some (Inr r))"
    unfolding round acq_push_def by auto
  have pub: "\<exists>s' c'. r = Inr s' \<and> a_eventn s' = n \<and> a_fifo s' = fifo
    \<and> het_ready (a_handle s') (a_uid s') c' \<and> cu_name c' = Some nm
    \<and> w_posts (a_world s') = w_posts (a_world s) @ [(sn_store 256 (url @ ''/api/v1/producer/jsoninsert''),
         push_header 1 nm 0 (h_npush (a_handle s)) (epoch_of (w_clock (a_world s) (w_ticks (a_world s)))) 4
         @ joined [attr_text (e_dbl e) (het_cu ! 0) (VInt32 r6), attr_text (e_dbl e) (het_cu ! 1) (VInt64 n), conf, ?t3]
         @ ''}'')]" if run: "acq_round b e False s = Some (Inr r)" for r
  proof -
    from run obtain s3 where p: "acq_push e s2 = Some (Inr s3)" and r: "r = Inr s3"
      unfolding round by (elim run_bind_InrE) simp
    from acq_push_ok [OF r3(1) nm2 nm(2) ts l3 h2(1) mem p] show ?thesis
      using nm2 r e2 h2(2) by (intro exI [of _ s3] exI [of _ c2]) simp
  qed
  have tx: "attr_text (e_dbl e) (het_cu ! 0) (VInt32 r6) = ''\"STATUS\":'' @ show_int (sint r6)"
    "attr_text (e_dbl e) (het_cu ! 1) (VInt64 n) = ''\"EVENTS\":{\"$numberLong\":\"'' @ show_int (sint n) @ ''\"}''"
    "?t3 = ''\"FIFO\":{\"$binary\":{\"base64\":\"'' @ b64_spec (words_mem (e_le e) fifo) @ ''\",\"subType\":\"84\"}}''"
    by (simp_all add: attr_text_def rows CREST_TYPE_BINARY_def)
  from ret pub show ?thesis unfolding tx by blast
qed

definition ex_env :: env where
  "ex_env = \<lparr>e_dbl = (\<lambda>_. []), e_le = True, e_mem = (\<lambda>_. True), e_rx = replicate 8192 0, e_junk = 0\<rparr>"

definition ex_het_cu :: cu where
  "ex_het_cu = \<lparr>cu_name = Some ''HET'', cu_inds = [], cu_nin = 0,
     cu_outds = map (\<lambda>d. (projr (out_attr (\<lambda>_. True) d))\<lparr>ds_data := Some ''c''\<rparr>) het_cu,
     cu_nout = 4, cu_maxbufsize = 0\<rparr>"

definition ex_acq :: "unit acq" where
  "ex_acq = \<lparr>a_dev = (), a_world = ex_net, a_handle = ex_handle\<lparr>h_cus := [Some ex_het_cu], h_ncus := 1\<rparr>, a_uid = 1,
     a_evtbuf = [], a_fifo = [], a_eventn = 7, a_t2 = 0, a_r6 = 0, a_result = 0, a_trig_old = 0, a_loop = 0\<rparr>"

definition ex_board :: "unit board" where
  "ex_board = \<lparr>b_read = (\<lambda>off d. (0x24, d)), b_write = (\<lambda>off v d. d), b_vread = (\<lambda>off old d. (old, d)),
     b_vwrite = (\<lambda>off v d. d), b_dma = (\<lambda>buf d. (0, replicate DMA_WORDS 0, d))\<rparr>"

lemma ex_het_ready: "het_ready (a_handle ex_acq) (a_uid ex_acq) ex_het_cu"
proof -
  have at: "list_all2 het_attr het_cu (cu_outds ex_het_cu)"
    by (simp add: ex_het_cu_def het_cu_def out_attr_def het_attr_def c_strdup_def row_types out_alloc_size_def
        alloc_int_def c_int_def MAXDIGITS_def DMA_WORDS_def Let_def)
  then have wf: "wf_cu ex_het_cu"
    by (auto simp: wf_cu_def list_all2_conv_all_nth list_all_length intro: het_attr_wf)
      (simp_all add: ex_het_cu_def het_cu_def)
  then show ?thesis using at
    by (simp add: het_ready_def ex_acq_def wf_handle_def bad_uid_def cu_slot_def)
qed

theorem round_publishes_witness:
  "\<exists>s'. acq_round ex_board ex_env False ex_acq = Some (Inr (Inr s')) \<and> a_eventn s' = 7 \<and> length (w_posts (a_world s')) = 1"
proof -
  have poll: "PollingVme (bus.truncate ex_board) (a_dev ex_acq) = (0, 0x24, ())"
    by (simp add: PollingVme_def ex_board_def bus.truncate_def poll_loop.simps fifo_status_def Let_def)
  have dma: "b_dma ex_board (a_evtbuf ex_acq) () = (0, replicate DMA_WORDS 0, ())" by (simp add: ex_board_def)
  have scan: "scan_block (replicate DMA_WORDS 0) (SEARCH_HEADER, a_eventn ex_acq, a_t2 ex_acq)
      = (map endian_swap (replicate DMA_WORDS 0), SEARCH_HEADER, 7, 0)"
    using scan_gap [of "replicate DMA_WORDS 0" 7 0] by (simp add: scan_block_fold ex_acq_def)
  have ans: "answered (a_world ex_acq)"
    unfolding answered_def by (intro exI [of _ 0] exI [of _ "[]"] exI [of _ "[79, 75]"]) (simp add: ex_acq_def ex_net_def)
  have c: "cu_name ex_het_cu = Some ''HET''" "ds_data (cu_outds ex_het_cu ! 2) = Some ''c''"
    by (simp_all add: ex_het_cu_def het_cu_def nth_Cons')
  have h: "h_wan_url (a_handle ex_acq) = Some ''localhost:8081''" by (simp add: ex_acq_def ex_handle_def)
  have e: "\<And>n. 0 < n \<Longrightarrow> e_mem ex_env n" "length (e_rx ex_env) = 8192" by (simp_all add: ex_env_def)
  have p: "w_posts (a_world ex_acq) = []" by (simp add: ex_acq_def ex_net_def)
  note t = round_publishes [OF ex_het_ready c(1) _ h e(1) c(2) poll _ dma _ _ scan e(2)]
  from t ans obtain r where r: "acq_round ex_board ex_env False ex_acq = Some (Inr r)" by auto
  with t p show ?thesis by (auto simp: r)
qed

end
