(* ===== verification/PrintEvent.thy ===== *)
theory PrintEvent
  imports Prelude
begin

text \<open>
  The decoder of the words of a V1290A TDC, \<open>het/src/PrintEvent_1290A.c\<close>: the kind of the word
  (whose name is printed) and the fields it extracts.
\<close>

datatype tdc_word =
    TDC_Measurement (id_trle: u32) (id_chan: u32) (id_data: u32)
  | TDC_Header (id_evid: u32) (id_bunchid: u32)
  | TDC_Trailer (id_evid: u32) (id_wordc: u32)
  | TDC_Error (id_error: u32)
  | Global_Header (id_count: u32) (id_geo: u32)
  | Trailer (id_trai_tl: u32) (id_trai_obo: u32) (id_trai_tdce: u32) (id_trai_wc: u32) (id_trai_geo: u32)
  | Trigger_Time_Tag (id_trig_tt: u32)
  | Boh (id_ev: u32) (boh_data: u32)

definition event_id :: "u32 \<Rightarrow> u32" where
  "event_id w = drop_bit 27 (w AND 0xF8000000)"

definition PrintEvent_1290A :: "u32 \<Rightarrow> tdc_word" where
  "PrintEvent_1290A w =
     (let ev = event_id w in
      if ev = 0 then TDC_Measurement (drop_bit 26 (w AND 0x04000000)) (drop_bit 21 (w AND 0x03E00000)) (w AND 0x001FFFFF)
      else if ev = 1 then TDC_Header (drop_bit 12 (w AND 0x00FFF000)) (w AND 0x00000FFF)
      else if ev = 3 then TDC_Trailer (drop_bit 12 (w AND 0x00FFF000)) (w AND 0x00000FFF)
      else if ev = 4 then TDC_Error (w AND 0x00007FFF)
      else if ev = 8 then Global_Header (drop_bit 5 (w AND 0x07FFFFE0)) (w AND 0x0000001F)
      else if ev = 16 then
        Trailer (drop_bit 26 (w AND 0x04000000)) (drop_bit 25 (w AND 0x02000000)) (drop_bit 24 (w AND 0x01000000))
          (drop_bit 5 (w AND 0x001FFFE0)) (w AND 0x0000001F)
      else if ev = 17 then Trigger_Time_Tag (w AND 0x07FFFFFF)
      else Boh ev w)"

section \<open>Putting a word together again\<close>

text \<open>The bits of a word that its kind gives a meaning.\<close>

fun meaning :: "tdc_word \<Rightarrow> u32" where
  "meaning (TDC_Measurement _ _ _) = 0xFFFFFFFF"
| "meaning (TDC_Header _ _) = 0xF8FFFFFF"
| "meaning (TDC_Trailer _ _) = 0xF8FFFFFF"
| "meaning (TDC_Error _) = 0xF8007FFF"
| "meaning (Global_Header _ _) = 0xFFFFFFFF"
| "meaning (Trailer _ _ _ _ _) = 0xFF1FFFFF"
| "meaning (Trigger_Time_Tag _) = 0xFFFFFFFF"
| "meaning (Boh _ _) = 0xFFFFFFFF"

fun assemble :: "tdc_word \<Rightarrow> u32" where
  "assemble (TDC_Measurement t c d) = push_bit 27 0 OR push_bit 26 t OR push_bit 21 c OR d"
| "assemble (TDC_Header e b) = push_bit 27 1 OR push_bit 12 e OR b"
| "assemble (TDC_Trailer e n) = push_bit 27 3 OR push_bit 12 e OR n"
| "assemble (TDC_Error e) = push_bit 27 4 OR e"
| "assemble (Global_Header c g) = push_bit 27 8 OR push_bit 5 c OR g"
| "assemble (Trailer t obo e n g) = push_bit 27 16 OR push_bit 26 t OR push_bit 25 obo OR push_bit 24 e OR push_bit 5 n OR g"
| "assemble (Trigger_Time_Tag t) = push_bit 27 17 OR t"
| "assemble (Boh e d) = d"

text \<open>A field is taken out and put back by the same mask.\<close>

lemma push_drop_field: "push_bit n (drop_bit n (w AND m)) = (w AND (m :: u32)) AND NOT (mask n)"
  by (rule bit_word_eqI) (auto simp: bit_simps)

lemma kind_bits: "push_bit 27 (drop_bit 27 (w AND (0xF8000000 :: u32))) = w AND 0xF8000000"
  unfolding push_drop_field by (simp add: and.assoc mask_eq_exp_minus_1)

lemma field_bits:
  fixes w :: u32
  shows "push_bit 26 (drop_bit 26 (w AND 0x04000000)) = w AND 0x04000000"
    and "push_bit 25 (drop_bit 25 (w AND 0x02000000)) = w AND 0x02000000"
    and "push_bit 24 (drop_bit 24 (w AND 0x01000000)) = w AND 0x01000000"
    and "push_bit 21 (drop_bit 21 (w AND 0x03E00000)) = w AND 0x03E00000"
    and "push_bit 12 (drop_bit 12 (w AND 0x00FFF000)) = w AND 0x00FFF000"
    and "push_bit 5 (drop_bit 5 (w AND 0x07FFFFE0)) = w AND 0x07FFFFE0"
    and "push_bit 5 (drop_bit 5 (w AND 0x001FFFE0)) = w AND 0x001FFFE0"
  unfolding push_drop_field by (simp_all add: and.assoc mask_eq_exp_minus_1)

lemma join_masks: "w AND m1 OR w AND m2 = w AND (m1 OR (m2 :: u32))"
  by (simp add: bit.conj_disj_distrib)

lemma full_mask: "w AND 0xFFFFFFFF = (w :: u32)"
proof -
  have "(0xFFFFFFFF :: u32) = - 1" by simp
  then show ?thesis by (simp only: and.right_neutral)
qed

lemma event_id_bits: "event_id w = k \<Longrightarrow> push_bit 27 k = w AND 0xF8000000"
  using kind_bits [of w] by (simp only: event_id_def)

text \<open>
  C28. Decoding a TDC word loses nothing but the bits that its kind gives no meaning: the
  fields put back in their places are the word, masked with the meaningful bits; in
  particular measurements, global headers and time tags are recovered completely.
\<close>

theorem event_fields_lossless:
  "assemble (PrintEvent_1290A w) = w AND meaning (PrintEvent_1290A w)"
proof -
  let ?F = "w AND 0xF8000000"
  consider (boh) "PrintEvent_1290A w = Boh (event_id w) w" | (meas) "event_id w = 0" | (hdr) "event_id w = 1"
    | (trl) "event_id w = 3" | (err) "event_id w = 4" | (glob) "event_id w = 8" | (trai) "event_id w = 16"
    | (tag) "event_id w = 17" by (force simp: PrintEvent_1290A_def Let_def)
  then show ?thesis
  proof cases
    case boh
    then show ?thesis by (simp add: full_mask)
  next
    case meas
    then have d: "PrintEvent_1290A w = TDC_Measurement (drop_bit 26 (w AND 0x04000000)) (drop_bit 21 (w AND 0x03E00000)) (w AND 0x001FFFFF)"
      by (simp only: PrintEvent_1290A_def Let_def) simp
    show ?thesis
      unfolding d assemble.simps meaning.simps field_bits event_id_bits [OF meas] join_masks by simp
  next
    case hdr
    then have d: "PrintEvent_1290A w = TDC_Header (drop_bit 12 (w AND 0x00FFF000)) (w AND 0x00000FFF)"
      by (simp only: PrintEvent_1290A_def Let_def) simp
    show ?thesis
      unfolding d assemble.simps meaning.simps field_bits event_id_bits [OF hdr] join_masks by simp
  next
    case trl
    then have d: "PrintEvent_1290A w = TDC_Trailer (drop_bit 12 (w AND 0x00FFF000)) (w AND 0x00000FFF)"
      by (simp only: PrintEvent_1290A_def Let_def) simp
    show ?thesis
      unfolding d assemble.simps meaning.simps field_bits event_id_bits [OF trl] join_masks by simp
  next
    case err
    then have d: "PrintEvent_1290A w = TDC_Error (w AND 0x00007FFF)"
      by (simp only: PrintEvent_1290A_def Let_def) simp
    show ?thesis
      unfolding d assemble.simps meaning.simps field_bits event_id_bits [OF err] join_masks by simp
  next
    case glob
    then have d: "PrintEvent_1290A w = Global_Header (drop_bit 5 (w AND 0x07FFFFE0)) (w AND 0x0000001F)"
      by (simp only: PrintEvent_1290A_def Let_def) simp
    show ?thesis
      unfolding d assemble.simps meaning.simps field_bits event_id_bits [OF glob] join_masks by simp
  next
    case trai
    then have d: "PrintEvent_1290A w = Trailer (drop_bit 26 (w AND 0x04000000)) (drop_bit 25 (w AND 0x02000000)) (drop_bit 24 (w AND 0x01000000))
        (drop_bit 5 (w AND 0x001FFFE0)) (w AND 0x0000001F)"
      by (simp only: PrintEvent_1290A_def Let_def) simp
    show ?thesis
      unfolding d assemble.simps meaning.simps field_bits event_id_bits [OF trai] join_masks by simp
  next
    case tag
    then have d: "PrintEvent_1290A w = Trigger_Time_Tag (w AND 0x07FFFFFF)"
      by (simp only: PrintEvent_1290A_def Let_def) simp
    show ?thesis
      unfolding d assemble.simps meaning.simps field_bits event_id_bits [OF tag] join_masks by simp
  qed
qed

end
