(* ===== verification/MgHttp.thy ===== *)
theory MgHttp
  imports CrestBson
begin

text \<open>
  The HTTP message parser of mongoose (\<open>mg_http_get_request_len\<close>, \<open>mg_http_parse_headers\<close>,
  \<open>mg_parse_http\<close>, \<open>mg_get_http_header\<close>) and the comparison functions it uses. A pointer into
  the message is an offset; an \<open>mg_str\<close> is an offset or null, with a length.
\<close>

section \<open>Slices of the message\<close>

record mg_str =
  ms_p :: "nat option"
  ms_len :: nat

definition ms_null :: mg_str where
  "ms_null = \<lparr>ms_p = None, ms_len = 0\<rparr>"

definition ms_at :: "nat \<Rightarrow> nat \<Rightarrow> mg_str" where
  "ms_at p n = \<lparr>ms_p = Some p, ms_len = n\<rparr>"

text \<open>The characters of a slice; a null slice has none.\<close>

definition slice :: "string \<Rightarrow> mg_str \<Rightarrow> string" where
  "slice t v = (case ms_p v of None \<Rightarrow> [] | Some p \<Rightarrow> take (ms_len v) (drop p t))"

text \<open>\<open>strchr (delims, c) != NULL\<close>: the terminator counts as well.\<close>

definition delim :: "string \<Rightarrow> char \<Rightarrow> bool" where
  "delim ds c \<longleftrightarrow> c = NUL \<or> c \<in> set ds"

definition mg_skip :: "string \<Rightarrow> nat \<Rightarrow> nat \<Rightarrow> string \<Rightarrow> nat \<times> mg_str" where
  "mg_skip t s e delims =
     (let rest = take (e - s) (drop s t);
          w = length (takeWhile (\<lambda>c. \<not> delim delims c) rest);
          d = length (takeWhile (delim delims) (drop w rest))
      in (s + w + d, ms_at s w))"

section \<open>Comparing without regard to case\<close>

text \<open>C strings: after its last character a list is followed by NUL.\<close>

definition head_char :: "string \<Rightarrow> char" where
  "head_char s = (case s of [] \<Rightarrow> NUL | c # _ \<Rightarrow> c)"

definition str_util_lowercase :: "char \<Rightarrow> int" where
  "str_util_lowercase c = int (char_code (c_tolower c))"

fun mg_ncasecmp :: "string \<Rightarrow> string \<Rightarrow> nat \<Rightarrow> int" where
  "mg_ncasecmp s1 s2 0 = 0"
| "mg_ncasecmp s1 s2 (Suc n) =
     (let diff = str_util_lowercase (head_char s1) - str_util_lowercase (head_char s2)
      in if diff = 0 \<and> head_char s1 \<noteq> NUL then mg_ncasecmp (tl s1) (tl s2) n else diff)"

text \<open>\<open>mg_vcasecmp\<close> of a slice and a C string; the difference of the lengths becomes an \<open>int\<close>.\<close>

definition mg_vcasecmp :: "string \<Rightarrow> string \<Rightarrow> int" where
  "mg_vcasecmp s1 s2 =
     (let r = mg_ncasecmp s1 s2 (min (length s1) (length s2))
      in if r = 0 then c_int (int (length s1) - int (length s2)) else r)"

section \<open>The end of the head\<close>

text \<open>\<open>mg_http_get_request_len\<close> on the rest of the buffer from offset \<open>i\<close> on.\<close>

fun request_len :: "int \<Rightarrow> string \<Rightarrow> int" where
  "request_len i [] = 0"
| "request_len i (c # cs) =
     (if \<not> c_isprint c \<and> c \<noteq> CR \<and> c \<noteq> LF \<and> char_code c < 128 then - 1
      else if c = LF \<and> take 1 cs = [LF] then i + 2
      else if c = LF \<and> take 2 cs = [CR, LF] then i + 3
      else request_len (i + 1) cs)"

definition mg_http_get_request_len :: "string \<Rightarrow> int" where
  "mg_http_get_request_len s = request_len 0 s"

section \<open>Headers\<close>

text \<open>\<open>struct http_message\<close>; the arrays of headers are the lists of the entries that are set.\<close>

record http_message =
  hm_message :: mg_str
  hm_body :: mg_str
  hm_method :: mg_str
  hm_uri :: mg_str
  hm_proto :: mg_str
  hm_resp_code :: int
  hm_resp_status_msg :: mg_str
  hm_query_string :: mg_str
  hm_header_names :: "mg_str list"
  hm_header_values :: "mg_str list"

definition MG_MAX_HTTP_HEADERS :: nat where "MG_MAX_HTTP_HEADERS = 40"

definition size_max64 :: nat where "size_max64 = 2 ^ 64 - 1"

definition trim_len :: "string \<Rightarrow> nat" where
  "trim_len v = length v - length (takeWhile (\<lambda>c. c = CHR '' '') (rev v))"

lemma mg_skip_bounds: "mg_skip t s e ds = (s', v) \<Longrightarrow> s + ms_len v \<le> s' \<and> (ms_len v \<noteq> 0 \<longrightarrow> s < e) \<and> (s' \<le> e \<or> s' = s)"
proof -
  assume a: "mg_skip t s e ds = (s', v)"
  let ?r = "take (e - s) (drop s t)" and ?w = "length (takeWhile (\<lambda>c. \<not> delim ds c) (take (e - s) (drop s t)))"
  let ?d = "length (takeWhile (delim ds) (drop ?w ?r))"
  have v: "s' = s + ?w + ?d" "ms_len v = ?w" using a by (auto simp: mg_skip_def Let_def ms_at_def)
  have "?w \<le> length ?r" by (rule length_takeWhile_le)
  moreover have "?d \<le> length ?r - ?w" using length_takeWhile_le [of "delim ds" "drop ?w ?r"] by simp
  moreover have "length ?r \<le> e - s" by simp
  ultimately show ?thesis using v by linarith
qed

text \<open>
  The loop; it ends when a name is empty, or at the last but one entry of the arrays. A
  header with an empty value is passed over. The name is compared with \<open>Content-Length\<close> on
  14 characters from its start on, whatever its length is.
\<close>

function parse_headers :: "string \<Rightarrow> nat \<Rightarrow> nat \<Rightarrow> nat \<Rightarrow> http_message \<Rightarrow> nat \<times> http_message" where
  "parse_headers t s e len req =
     (if length (hm_header_names req) < MG_MAX_HTTP_HEADERS - 1 then
        (let (s1, k) = mg_skip t s e '': '';
             (s2, v0) = mg_skip t s1 e [CR, LF];
             v = v0\<lparr>ms_len := trim_len (slice t v0)\<rparr>
         in if ms_len k = 0 then (s2, req)
            else if ms_len v = 0 then parse_headers t s2 e len req
            else
              let blen = (if mg_ncasecmp (drop s t) ''Content-Length'' 14 = 0
                          then unat (c_atoll (drop s1 t)) else ms_len (hm_body req));
                  req1 = (if mg_ncasecmp (drop s t) ''Content-Length'' 14 = 0
                          then req\<lparr>hm_body := (hm_body req)\<lparr>ms_len := blen\<rparr>,
                                   hm_message := (hm_message req)\<lparr>ms_len := (len + blen) mod 2 ^ 64\<rparr>\<rparr>
                          else req)
              in parse_headers t s2 e len
                   (req1\<lparr>hm_header_names := hm_header_names req1 @ [k],
                         hm_header_values := hm_header_values req1 @ [v]\<rparr>))
      else (s, req))"
  by pat_completeness auto

termination
proof (relation "measure (\<lambda>(t, s, e, len, req). e - s)", goal_cases)
  case (2 t s e len req x s1 k y s2 v0 v)
  then have "mg_skip t s e '': '' = (s1, k)" "mg_skip t s1 e [CR, LF] = (s2, v0)" by auto
  from this [THEN mg_skip_bounds] 2 show ?case by auto
next
  case (3 t s e len req x s1 k y s2 v0 v blen req1)
  then have "mg_skip t s e '': '' = (s1, k)" "mg_skip t s1 e [CR, LF] = (s2, v0)" by auto
  from this [THEN mg_skip_bounds] 3 show ?case by auto
qed simp

declare parse_headers.simps [simp del]

section \<open>Messages\<close>

definition hm_empty :: http_message where
  "hm_empty = \<lparr>hm_message = ms_null, hm_body = ms_null, hm_method = ms_null, hm_uri = ms_null,
     hm_proto = ms_null, hm_resp_code = 0, hm_resp_status_msg = ms_null, hm_query_string = ms_null,
     hm_header_names = [], hm_header_values = []\<rparr>"

definition c_atoi :: "string \<Rightarrow> int" where
  "c_atoi s = c_int (sint (c_atoll s))"

definition ptr :: "mg_str \<Rightarrow> nat" where
  "ptr v = (case ms_p v of None \<Rightarrow> 0 | Some p \<Rightarrow> p)"

text \<open>A \<open>?\<close> splits the URI; \<open>q\<close> is its offset in the URI.\<close>

definition split_query :: "string \<Rightarrow> http_message \<Rightarrow> http_message" where
  "split_query t hm =
     (let u = hm_uri hm; q = length (takeWhile (\<lambda>c. c \<noteq> CHR ''?'') (slice t u))
      in if q < ms_len u then
           hm\<lparr>hm_query_string := ms_at (ptr u + q + 1) (ms_len u - (q + 1)), hm_uri := ms_at (ptr u) q\<rparr>
         else hm)"

text \<open>The request line and the status line: the position after it, or a malformed message.\<close>

definition parse_request_line :: "string \<Rightarrow> nat \<Rightarrow> nat \<Rightarrow> http_message \<Rightarrow> nat option \<times> http_message" where
  "parse_request_line t s e hm =
     (let (s1, m) = mg_skip t s e '' ''; (s2, u) = mg_skip t s1 e '' ''; (s3, p) = mg_skip t s2 e [CR, LF];
          hm1 = hm\<lparr>hm_method := m, hm_uri := u, hm_proto := p\<rparr>
      in if ptr u \<le> ptr m \<or> ptr p \<le> ptr u then (None, hm1) else (Some s3, split_query t hm1))"

definition parse_status_line :: "string \<Rightarrow> nat \<Rightarrow> nat \<Rightarrow> http_message \<Rightarrow> nat option \<times> http_message" where
  "parse_status_line t s e hm =
     (let (s1, p) = mg_skip t s e '' ''; hm1 = hm\<lparr>hm_proto := p\<rparr>
      in if int e - int s1 < 4 \<or> t ! (s1 + 3) \<noteq> CHR '' '' then (None, hm1)
         else let hm2 = hm1\<lparr>hm_resp_code := c_atoi (drop s1 t)\<rparr>
           in if hm_resp_code hm2 < 100 \<or> hm_resp_code hm2 \<ge> 600 then (None, hm2)
              else let (s2, msg) = mg_skip t (s1 + 4) e [CR, LF] in (Some s2, hm2\<lparr>hm_resp_status_msg := msg\<rparr>))"

text \<open>The result of \<open>mg_parse_http\<close> and the message it leaves, given the one before.\<close>

definition mg_parse_http :: "string \<Rightarrow> bool \<Rightarrow> http_message \<Rightarrow> int \<times> http_message" where
  "mg_parse_http t is_req hm0 =
     (let len = mg_http_get_request_len t in
      if len \<le> 0 then (len, hm0)
      else
        let n = nat len;
            hm1 = hm_empty\<lparr>hm_message := ms_at 0 size_max64, hm_body := ms_at n size_max64\<rparr>;
            s = length (takeWhile c_isspace (take n t))
        in case (if is_req then parse_request_line t s n hm1 else parse_status_line t s n hm1) of
             (None, hm2) \<Rightarrow> (- 1, hm2)
           | (Some s2, hm2) \<Rightarrow>
               let hm3 = snd (parse_headers t s2 n n hm2)
               in (len,
                   if ms_len (hm_body hm3) = size_max64 \<and> is_req
                      \<and> mg_vcasecmp (slice t (hm_method hm3)) ''PUT'' \<noteq> 0
                      \<and> mg_vcasecmp (slice t (hm_method hm3)) ''POST'' \<noteq> 0
                   then hm3\<lparr>hm_body := (hm_body hm3)\<lparr>ms_len := 0\<rparr>, hm_message := (hm_message hm3)\<lparr>ms_len := n\<rparr>\<rparr>
                   else hm3))"

text \<open>The first header of that name.\<close>

definition mg_get_http_header :: "string \<Rightarrow> http_message \<Rightarrow> string \<Rightarrow> mg_str option" where
  "mg_get_http_header t hm name =
     map_option snd (find (\<lambda>(h, v). ms_p h \<noteq> None \<and> ms_len h = length name
         \<and> mg_ncasecmp (drop (ptr h) t) name (length name) = 0)
       (zip (hm_header_names hm) (hm_header_values hm)))"

section \<open>Texts of messages\<close>

definition printable :: "string \<Rightarrow> bool" where
  "printable s \<longleftrightarrow> list_all c_isprint s"

lemma printable_simps [simp]:
  "printable []" "printable (c # s) \<longleftrightarrow> c_isprint c \<and> printable s" "printable (s @ t) \<longleftrightarrow> printable s \<and> printable t"
  by (simp_all add: printable_def)

lemma isprint_not: "c_isprint c \<Longrightarrow> c \<noteq> CR \<and> c \<noteq> LF \<and> c \<noteq> NUL"
  by (auto simp: c_isprint_def char_code_def)

lemma printable_set: "printable s \<Longrightarrow> c \<in> set s \<Longrightarrow> c_isprint c"
  by (simp add: printable_def list_all_iff)

lemma printable_hd: "printable s \<Longrightarrow> s \<noteq> [] \<Longrightarrow> c_isprint (hd s)"
  by (cases s) simp_all

lemma printable_no_nul: "printable s \<Longrightarrow> no_nul s"
  by (auto simp: printable_def no_nul_def list_all_iff dest: isprint_not)

fun header_text_of :: "string \<times> string \<Rightarrow> string" where
  "header_text_of (n, v) = n @ '': '' @ v @ crlf"

fun good_header :: "string \<times> string \<Rightarrow> bool" where
  "good_header (n, v) \<longleftrightarrow> n \<noteq> [] \<and> printable n \<and> CHR '':'' \<notin> set n \<and> CHR '' '' \<notin> set n
     \<and> v \<noteq> [] \<and> printable v \<and> hd v \<noteq> CHR '':'' \<and> hd v \<noteq> CHR '' '' \<and> last v \<noteq> CHR '' ''"

definition response_head :: "string \<Rightarrow> nat \<Rightarrow> string \<Rightarrow> (string \<times> string) list \<Rightarrow> string" where
  "response_head proto code msg hs =
     proto @ '' '' @ show_nat code @ '' '' @ msg @ crlf @ concat (map header_text_of hs) @ crlf"

lemma request_len_print: "printable w \<Longrightarrow> request_len i (w @ r) = request_len (i + int (length w)) r"
proof (induction w arbitrary: i)
  case (Cons c w)
  then have "c \<noteq> CR" "c \<noteq> LF" "c_isprint c" using isprint_not [of c] by auto
  then show ?case using Cons by (simp add: add.assoc)
qed simp

lemma request_len_line:
  assumes "printable w" and "printable [c]"
  shows "request_len i (w @ crlf @ c # r) = request_len (i + int (length w) + 2) (c # r)"
  using assms isprint_not [of c] by (simp add: request_len_print crlf_def)

lemma request_len_end:
  assumes "printable w"
  shows "request_len i (w @ crlf @ crlf @ r) = i + int (length w) + 4"
proof -
  have "request_len j (crlf @ crlf @ r) = j + 4" for j by (simp add: crlf_def)
  then show ?thesis by (simp add: request_len_print [OF assms])
qed

lemma request_len_headers:
  assumes "printable w" and "list_all good_header hs"
  shows "request_len i (w @ crlf @ concat (map header_text_of hs) @ crlf @ body)
     = i + int (length w + 2 + length (concat (map header_text_of hs)) + 2)"
  using assms
proof (induction hs arbitrary: w i)
  case Nil
  then show ?case by (simp add: request_len_end)
next
  case (Cons h hs)
  obtain n v where h: "h = (n, v)" by (cases h)
  with Cons.prems obtain c n' where n: "n = c # n'" "c_isprint c" "printable n'" and v: "printable v"
    by (cases n) auto
  let ?w = "n @ '': '' @ v"
  have sp: "c_isprint (CHR '':'')" "c_isprint (CHR '' '')" by code_simp+
  have "request_len i (w @ crlf @ c # (n' @ '': '' @ v @ crlf @ concat (map header_text_of hs) @ crlf @ body))
      = request_len (i + int (length w) + 2) (?w @ crlf @ concat (map header_text_of hs) @ crlf @ body)"
    using request_len_line [OF Cons.prems(1), of c] n by simp
  also have "\<dots> = i + int (length w) + 2 + int (length ?w + 2 + length (concat (map header_text_of hs)) + 2)"
    using Cons.IH [of ?w "i + int (length w) + 2"] Cons.prems(2) n v sp by simp
  finally show ?case by (simp add: h n crlf_def)
qed

section \<open>Skipping\<close>

lemma mg_skip_split:
  assumes "take (e - s) (drop s t) = w @ d @ r" and "\<And>c. c \<in> set w \<Longrightarrow> \<not> delim ds c"
    and "\<And>c. c \<in> set d \<Longrightarrow> delim ds c" and "r = [] \<or> \<not> delim ds (hd r)" and "d \<noteq> [] \<or> r = []"
  shows "mg_skip t s e ds = (s + length w + length d, ms_at s (length w))"
proof -
  have w: "takeWhile (\<lambda>c. \<not> delim ds c) (w @ d @ r) = w"
    using assms(2,3,5) by (cases d) (auto simp: takeWhile_append2)
  have "takeWhile (delim ds) (d @ r) = d"
    using assms(3,4) by (cases r) (auto simp: takeWhile_append2)
  then show ?thesis unfolding mg_skip_def assms(1) by (simp add: w Let_def)
qed

lemma slice_split: "t = pre @ w @ r \<Longrightarrow> slice t (ms_at (length pre) (length w)) = w"
  by (simp add: slice_def ms_at_def)

lemma take_drop_mid: "t = pre @ m @ r \<Longrightarrow> s = length pre \<Longrightarrow> e = s + length m \<Longrightarrow> take (e - s) (drop s t) = m"
  by simp

section \<open>Comparing names\<close>

lemma lowercase_inject: "str_util_lowercase c = str_util_lowercase d \<longleftrightarrow> c_tolower c = c_tolower d"
  by (simp add: str_util_lowercase_def)

lemma lowercase_NUL: "str_util_lowercase c = str_util_lowercase NUL \<longleftrightarrow> c = NUL"
proof
  assume a: "str_util_lowercase c = str_util_lowercase NUL"
  have z: "char_code NUL = 0" by (simp add: char_code_def)
  then have "char_code (c_tolower c) = 0" using a by (simp add: str_util_lowercase_def c_tolower_def)
  moreover have "char_code (char_of (char_code c + 32)) \<noteq> 0" if "65 \<le> char_code c" "char_code c \<le> 90"
    using that by (simp add: char_code_def)
  ultimately have "char_code c = char_code NUL" using z by (auto simp: c_tolower_def split: if_splits)
  then show "c = NUL" by simp
qed simp

lemma ncasecmp_prefix:
  assumes "str_util_lowercase x \<notin> str_util_lowercase ` set s" and "no_nul s" and "k \<le> length s"
  shows "mg_ncasecmp (n @ x # r) s k = 0 \<longleftrightarrow> mg_ncasecmp n s k = 0"
  using assms
proof (induction k arbitrary: n s)
  case (Suc k)
  then obtain c s' where s: "s = c # s'" by (cases s) auto
  then have c: "str_util_lowercase x \<noteq> str_util_lowercase c" "c \<noteq> NUL" using Suc.prems by auto
  show ?case
  proof (cases n)
    case Nil
    have "str_util_lowercase NUL \<noteq> str_util_lowercase c" using lowercase_NUL [of c] c(2) by simp
    then show ?thesis using c(1) by (simp add: Nil s head_char_def)
  next
    case (Cons a n')
    then show ?thesis using Suc.IH [of s' n'] Suc.prems by (simp add: s head_char_def)
  qed
qed simp

lemma ncasecmp_equal:
  "length n = length s \<Longrightarrow> no_nul n \<Longrightarrow> mg_ncasecmp (n @ r) s (length s) = 0 \<longleftrightarrow> map c_tolower n = map c_tolower s"
proof (induction n s rule: list_induct2)
  case (Cons a n c s)
  then show ?case using lowercase_inject [of a c] by (simp add: head_char_def)
qed simp

section \<open>Reading the headers\<close>

definition is_cl :: "string \<Rightarrow> bool" where
  "is_cl n \<longleftrightarrow> mg_ncasecmp n ''Content-Length'' 14 = 0"

fun body_len :: "(string \<times> string) list \<Rightarrow> nat \<Rightarrow> nat" where
  "body_len [] n = n"
| "body_len ((nm, v) # hs) n = body_len hs (if is_cl nm then unat (c_atoll v) else n)"

definition named :: "string \<Rightarrow> mg_str \<Rightarrow> bool" where
  "named t k \<longleftrightarrow> ms_p k \<noteq> None \<and> ms_len k = length (slice t k)"

definition headers_read :: "string \<Rightarrow> nat \<Rightarrow> (string \<times> string) list \<Rightarrow> http_message \<Rightarrow> http_message \<Rightarrow> bool" where
  "headers_read t len hs req r \<longleftrightarrow>
     map (slice t) (hm_header_names r) = map (slice t) (hm_header_names req) @ map fst hs
     \<and> map (slice t) (hm_header_values r) = map (slice t) (hm_header_values req) @ map snd hs
     \<and> (list_all (named t) (hm_header_names req) \<longrightarrow> list_all (named t) (hm_header_names r))
     \<and> ms_p (hm_body r) = ms_p (hm_body req) \<and> ms_len (hm_body r) = body_len hs (ms_len (hm_body req))
     \<and> ms_p (hm_message r) = ms_p (hm_message req)
     \<and> ms_len (hm_message r) = (if list_ex (is_cl \<circ> fst) hs then (len + ms_len (hm_body r)) mod 2 ^ 64 else ms_len (hm_message req))
     \<and> hm_resp_code r = hm_resp_code req \<and> hm_resp_status_msg r = hm_resp_status_msg req \<and> hm_proto r = hm_proto req"

lemma c_atoll_end:
  assumes "v \<noteq> []" and "\<not> c_isspace (hd v)" and "\<not> c_isdigit x"
  shows "c_atoll (v @ x # r) = c_atoll v"
proof -
  have t: "takeWhile c_isdigit (y @ x # r) = takeWhile c_isdigit y" for y
    using assms(3) by (induction y) simp_all
  have h: "hd (v @ x # r) = hd v" "tl (v @ x # r) = tl v @ x # r" "v @ x # r \<noteq> []" using assms(1) by simp_all
  have "dropWhile c_isspace (v @ x # r) = v @ x # r" "dropWhile c_isspace v = v"
    using assms by (cases v; simp)+
  then show ?thesis unfolding c_atoll_def Let_def by (simp only: h t assms(1) if_distrib [of "takeWhile c_isdigit"] simp_thms)
qed

lemma not_digit [simp]: "\<not> c_isdigit CR" "\<not> c_isdigit (CHR '' '')"
  by (simp_all add: c_isdigit_def char_code_def)

lemma print_space: "c_isprint c \<Longrightarrow> c \<noteq> CHR '' '' \<Longrightarrow> \<not> c_isspace c"
proof -
  assume a: "c_isprint c" "c \<noteq> CHR '' ''"
  have "char_code (CHR '' '') = 32" by (simp add: char_code_def)
  then have "char_code c \<noteq> 32" using a(2) by (metis char_code_inject)
  then show ?thesis using a(1) by (simp add: c_isprint_def c_isspace_def)
qed

lemma trim_len_id: "v \<noteq> [] \<Longrightarrow> last v \<noteq> CHR '' '' \<Longrightarrow> trim_len v = length v"
  by (cases v rule: rev_cases) (simp_all add: trim_len_def)

lemma content_length_cut:
  "mg_ncasecmp (n @ CHR '':'' # r) ''Content-Length'' 14 = 0 \<longleftrightarrow> is_cl n"
proof -
  have "str_util_lowercase (CHR '':'') \<notin> str_util_lowercase ` set ''Content-Length''" by code_simp
  then show ?thesis unfolding is_cl_def by (rule ncasecmp_prefix) simp_all
qed

lemma skip_header:
  assumes h: "good_header (n, v)" and t: "t = pre @ (n @ '': '' @ v @ crlf @ rest) @ body"
    and e: "e = length pre + length (n @ '': '' @ v @ crlf @ rest)"
    and rest: "(rest = crlf \<and> s2 = e) \<or> (\<exists>c r. rest = c # r \<and> c_isprint c \<and> s2 = length pre + length (n @ '': '' @ v @ crlf))"
  shows "mg_skip t (length pre) e '': '' = (length (pre @ n @ '': ''), ms_at (length pre) (length n))
     \<and> mg_skip t (length (pre @ n @ '': '')) e [CR, LF] = (s2, ms_at (length (pre @ n @ '': '')) (length v))"
proof
  have n: "\<And>c. c \<in> set n \<Longrightarrow> \<not> delim '': '' c" "\<not> delim '': '' (hd v)" "v \<noteq> []"
    "\<And>c. c \<in> set v \<Longrightarrow> \<not> delim [CR, LF] c"
  proof -
    show "\<not> delim '': '' c" if "c \<in> set n" for c
      using h that isprint_not [of c] by (auto simp: delim_def dest: printable_set)
    show "v \<noteq> []" using h by simp
    then show "\<not> delim '': '' (hd v)" using h isprint_not [OF printable_hd [of v]] by (auto simp: delim_def)
    show "\<not> delim [CR, LF] c" if "c \<in> set v" for c
      using h that isprint_not [of c] by (auto simp: delim_def dest: printable_set)
  qed
  have "take (e - length pre) (drop (length pre) t) = n @ '': '' @ (v @ crlf @ rest)" using t e by simp
  from mg_skip_split [OF this n(1)] show "mg_skip t (length pre) e '': '' = (length (pre @ n @ '': ''), ms_at (length pre) (length n))"
    using n(2,3) by (simp add: delim_def hd_append)
  have tk: "take (e - length (pre @ n @ '': '')) (drop (length (pre @ n @ '': '')) t) = v @ crlf @ rest" using t e by simp
  from rest show "mg_skip t (length (pre @ n @ '': '')) e [CR, LF] = (s2, ms_at (length (pre @ n @ '': '')) (length v))"
  proof (elim disjE exE conjE)
    assume r: "rest = crlf" "s2 = e"
    have "v @ crlf @ rest = v @ (crlf @ crlf) @ []" using r by simp
    from mg_skip_split [OF tk [unfolded this] n(4)] show ?thesis using r e by (auto simp: delim_def crlf_def add.assoc)
  next
    fix c r assume r: "rest = c # r" "c_isprint c" "s2 = length pre + length (n @ '': '' @ v @ crlf)"
    from mg_skip_split [OF tk n(4)] show ?thesis using r isprint_not [OF r(2)] by (auto simp: delim_def crlf_def add.assoc)
  qed
qed

lemma body_len_none: "\<not> list_ex (is_cl \<circ> fst) hs \<Longrightarrow> body_len hs n = n"
  by (induction hs n rule: body_len.induct) simp_all

text \<open>What one header does to the message.\<close>

definition add_header :: "nat \<Rightarrow> string \<times> string \<Rightarrow> mg_str \<Rightarrow> mg_str \<Rightarrow> http_message \<Rightarrow> http_message" where
  "add_header len h k v req =
     (let r = (if is_cl (fst h) then
                 req\<lparr>hm_body := (hm_body req)\<lparr>ms_len := unat (c_atoll (snd h))\<rparr>,
                     hm_message := (hm_message req)\<lparr>ms_len := (len + unat (c_atoll (snd h))) mod 2 ^ 64\<rparr>\<rparr>
               else req)
      in r\<lparr>hm_header_names := hm_header_names r @ [k], hm_header_values := hm_header_values r @ [v]\<rparr>)"

lemma headers_read_Cons:
  assumes "headers_read t len hs (add_header len (n, v) k w req) r"
    and "slice t k = n" "slice t w = v" "named t k"
  shows "headers_read t len ((n, v) # hs) req r"
proof (cases "is_cl n")
  case True
  with assms body_len_none [of hs "unat (c_atoll v)"] show ?thesis
    by (simp add: headers_read_def add_header_def Let_def)
next
  case False
  with assms show ?thesis by (simp add: headers_read_def add_header_def Let_def)
qed

lemma parse_header_step:
  assumes h: "good_header (n, v)" and t: "t = pre @ (n @ '': '' @ v @ crlf @ rest) @ body"
    and e: "e = length pre + length (n @ '': '' @ v @ crlf @ rest)"
    and rest: "(rest = crlf \<and> s2 = e) \<or> (\<exists>c r. rest = c # r \<and> c_isprint c \<and> s2 = length pre + length (n @ '': '' @ v @ crlf))"
    and room: "length (hm_header_names req) < MG_MAX_HTTP_HEADERS - 1"
  shows "parse_headers t (length pre) e len req
     = parse_headers t s2 e len (add_header len (n, v) (ms_at (length pre) (length n))
         (ms_at (length (pre @ n @ '': '')) (length v)) req)"
proof -
  let ?k = "ms_at (length pre) (length n)" and ?v = "ms_at (length (pre @ n @ '': '')) (length v)"
  note sk = skip_header [OF h t e rest]
  have ne: "n \<noteq> []" "v \<noteq> []" and sp: "\<not> c_isspace (hd v)"
    using h print_space printable_hd [of v] by auto
  have sv: "slice t ?v = v" using t by (intro slice_split [of _ _ _ "(crlf @ rest) @ body"]) simp
  have tr: "?v\<lparr>ms_len := trim_len (slice t ?v)\<rparr> = ?v"
    using h by (simp only: sv) (simp add: trim_len_id ms_at_def)
  have "drop (length pre) t = n @ CHR '':'' # ('' '' @ v @ crlf @ rest @ body)" using t by simp
  then have cl: "mg_ncasecmp (drop (length pre) t) ''Content-Length'' 14 = 0 \<longleftrightarrow> is_cl n"
    by (simp only: content_length_cut)
  have "drop (length (pre @ n @ '': '')) t = v @ CR # (LF # rest @ body)" using t by (simp add: crlf_def)
  then have v: "c_atoll (drop (length (pre @ n @ '': '')) t) = c_atoll v"
    by (simp only: c_atoll_end [OF ne(2) sp not_digit(1)])
  have len: "ms_len ?k \<noteq> 0" "ms_len ?v \<noteq> 0" using ne by (simp_all add: ms_at_def)
  show ?thesis
    by (subst parse_headers.simps)
      (simp only: room if_True conjunct1 [OF sk] conjunct2 [OF sk] Let_def split_conv tr len if_False cl v
        add_header_def fst_conv snd_conv; simp)
qed

lemma parse_headers_text:
  assumes "list_all good_header hs" and "t = pre @ (concat (map header_text_of hs) @ crlf) @ body"
    and "e = length pre + length (concat (map header_text_of hs) @ crlf)"
    and "s = (if hs = [] then e else length pre)"
    and "length (hm_header_names req) + length hs < MG_MAX_HTTP_HEADERS"
  shows "headers_read t len hs req (snd (parse_headers t s e len req))"
  using assms
proof (induction hs arbitrary: pre s req)
  case Nil
  then have "mg_skip t e e ds = (e, ms_at e 0)" for ds by (simp add: mg_skip_def)
  then have "snd (parse_headers t s e len req) = req"
    using Nil by (subst parse_headers.simps) (simp add: Let_def ms_at_def)
  then show ?case by (simp add: headers_read_def)
next
  case (Cons h hs)
  obtain n v where h: "h = (n, v)" by (cases h)
  let ?rest = "concat (map header_text_of hs) @ crlf"
  let ?pre = "pre @ header_text_of (n, v)" and ?k = "ms_at (length pre) (length n)"
    and ?v = "ms_at (length (pre @ n @ '': '')) (length v)"
  let ?s2 = "if hs = [] then e else length ?pre"
  have g: "good_header (n, v)" "list_all good_header hs" using Cons.prems(1) h by simp_all
  have t: "t = pre @ (n @ '': '' @ v @ crlf @ ?rest) @ body" using Cons.prems(2) h by simp
  have e: "e = length pre + length (n @ '': '' @ v @ crlf @ ?rest)" using Cons.prems(3) h by simp
  have rest: "(?rest = crlf \<and> ?s2 = e) \<or>
     (\<exists>c r. ?rest = c # r \<and> c_isprint c \<and> ?s2 = length pre + length (n @ '': '' @ v @ crlf))"
  proof (cases hs)
    case (Cons h' hs')
    obtain n' v' where "h' = (n', v')" by (cases h')
    with Cons g(2) show ?thesis by (cases n') auto
  qed simp
  have room: "length (hm_header_names req) < MG_MAX_HTTP_HEADERS - 1" using Cons.prems(5) by simp
  have "s = length pre" using Cons.prems(4) by simp
  then have step: "parse_headers t s e len req = parse_headers t ?s2 e len (add_header len (n, v) ?k ?v req)"
    by (simp only: parse_header_step [OF g(1) t e rest room])
  have "headers_read t len hs (add_header len (n, v) ?k ?v req)
      (snd (parse_headers t ?s2 e len (add_header len (n, v) ?k ?v req)))"
  proof (rule Cons.IH [OF g(2), of ?pre])
    show "t = ?pre @ ?rest @ body" using t by simp
    show "e = length ?pre + length ?rest" using e by simp
    show "length (hm_header_names (add_header len (n, v) ?k ?v req)) + length hs < MG_MAX_HTTP_HEADERS"
      using Cons.prems(5) by (simp add: add_header_def Let_def)
  qed simp
  moreover have "slice t ?k = n" using t by (intro slice_split [of _ _ _ "'': '' @ v @ crlf @ ?rest @ body"]) simp
  moreover have "slice t ?v = v" using t by (intro slice_split [of _ _ _ "(crlf @ ?rest) @ body"]) simp
  moreover have "named t ?k" using calculation(2) by (simp add: named_def) (simp add: ms_at_def)
  ultimately show ?case unfolding step h by (rule headers_read_Cons)
qed

section \<open>Finding a header\<close>

lemma named_compare:
  assumes "named t k" and "no_nul (slice t k)" and "length (slice t k) = length name"
  shows "mg_ncasecmp (drop (ptr k) t) name (length name) = 0 \<longleftrightarrow> map c_tolower (slice t k) = map c_tolower name"
proof -
  obtain p where p: "ms_p k = Some p" using assms(1) by (auto simp: named_def)
  then have "drop (ptr k) t = slice t k @ drop (ms_len k) (drop p t)" by (simp add: ptr_def slice_def del: drop_drop)
  then show ?thesis by (simp only: ncasecmp_equal [OF assms(3,2)])
qed

lemma find_header:
  assumes "list_all (named t) ks" and "list_all (\<lambda>k. no_nul (slice t k)) ks" and "length ks = length vs"
  shows "map_option (slice t) (map_option snd (find (\<lambda>(h, v). ms_p h \<noteq> None \<and> ms_len h = length name
         \<and> mg_ncasecmp (drop (ptr h) t) name (length name) = 0) (zip ks vs)))
     = map_option snd (find (\<lambda>(n, v). map c_tolower n = map c_tolower name) (zip (map (slice t) ks) (map (slice t) vs)))"
  using assms(3,1,2)
proof (induction ks vs rule: list_induct2)
  case (Cons k ks v vs)
  then have n: "named t k" "no_nul (slice t k)" by simp_all
  have "(ms_p k \<noteq> None \<and> ms_len k = length name \<and> mg_ncasecmp (drop (ptr k) t) name (length name) = 0)
      \<longleftrightarrow> map c_tolower (slice t k) = map c_tolower name"
  proof (cases "ms_len k = length name")
    case True
    then have "length (slice t k) = length name" using n(1) by (simp add: named_def)
    then show ?thesis using named_compare [OF n, of name] True n(1) by (simp add: named_def)
  next
    case False
    then have "length (slice t k) \<noteq> length name" using n(1) by (simp add: named_def)
    then show ?thesis using False by (metis length_map)
  qed
  then show ?case using Cons by simp
qed simp

section \<open>Reading a response\<close>

lemma length_show_code:
  assumes "100 \<le> n" and "n < 1000"
  shows "length (show_nat n) = 3"
proof -
  have "\<not> n < 10" "\<not> n div 10 < 10" "n div 10 div 10 < 10" using assms by linarith+
  then show ?thesis
    by (simp add: show_nat.simps [of n] show_nat.simps [of "n div 10"] show_nat.simps [of "n div 10 div 10"] del: show_nat.simps)
qed

lemma skip_spaces_none: "t = c # r \<Longrightarrow> \<not> c_isspace c \<Longrightarrow> length (takeWhile c_isspace (take n t)) = 0"
  by (cases n) simp_all

lemma status_line_parsed:
  assumes p: "printable proto" "CHR '' '' \<notin> set proto" and code: "100 \<le> code" "code < 600"
    and msg: "printable msg"
    and t: "t = (proto @ '' '' @ show_nat code @ '' '' @ msg @ crlf @ rest) @ body"
    and n: "n = length (proto @ '' '' @ show_nat code @ '' '' @ msg @ crlf @ rest)"
    and rest: "(rest = crlf \<and> s2 = n) \<or>
       (\<exists>c r. rest = c # r \<and> c_isprint c \<and> s2 = length (proto @ '' '' @ show_nat code @ '' '' @ msg @ crlf))"
  shows "parse_status_line t 0 n hm = (Some s2, hm\<lparr>hm_proto := ms_at 0 (length proto), hm_resp_code := int code,
      hm_resp_status_msg := ms_at (length proto + 5) (length msg)\<rparr>)"
proof -
  have l: "length (show_nat code) = 3" using code by (intro length_show_code) simp_all
  obtain c cs where c: "show_nat code = c # cs" using show_nat_not_Nil [of code] by (cases "show_nat code") auto
  have d: "c_isdigit c" using show_nat_digits [of code] c by simp
  have csp: "\<not> delim '' '' c" "\<not> c_isspace (hd (show_nat code))"
    using digit_not_special [OF d] d c by (auto simp: delim_def c_isdigit_def char_code_def)
  have w: "\<And>x. x \<in> set proto \<Longrightarrow> \<not> delim '' '' x"
    using p isprint_not by (auto simp: delim_def dest: printable_set)
  have m: "\<And>x. x \<in> set msg \<Longrightarrow> \<not> delim [CR, LF] x"
    using msg isprint_not by (auto simp: delim_def dest: printable_set)
  have "take (n - 0) (drop 0 t) = proto @ '' '' @ (show_nat code @ '' '' @ msg @ crlf @ rest)" using t n by simp
  from mg_skip_split [OF this w] have s1: "mg_skip t 0 n '' '' = (length proto + 1, ms_at 0 (length proto))"
    using csp c by (simp add: delim_def)
  have dr: "drop (length proto + 1) t = show_nat code @ CHR '' '' # (msg @ crlf @ rest @ body)" using t by simp
  have "t = (proto @ '' '' @ show_nat code) @ CHR '' '' # (msg @ crlf @ rest @ body)"
    and ln: "length (proto @ '' '' @ show_nat code) = length proto + 1 + 3" using t l by simp_all
  then have sp: "t ! (length proto + 1 + 3) = CHR '' ''"
    using nth_append_length [of "proto @ '' '' @ show_nat code" "CHR '' ''" "msg @ crlf @ rest @ body"]
    by (simp only: ln)
  have ai: "c_atoi (drop (length proto + 1) t) = int code"
    using code unfolding dr c_atoi_def
    by (simp only: c_atoll_end [OF show_nat_not_Nil csp(2) not_digit(2)])
      (simp add: atoll_show_nat c_int_id signed_take_bit_int_eq_self signed_of_nat)
  have tk: "take (n - (length proto + 1 + 4)) (drop (length proto + 1 + 4) t) = msg @ crlf @ rest"
    using t n l by simp
  have s3: "mg_skip t (length proto + 1 + 4) n [CR, LF] = (s2, ms_at (length proto + 1 + 4) (length msg))"
    using rest
  proof (elim disjE exE conjE)
    assume r: "rest = crlf" "s2 = n"
    have "msg @ crlf @ rest = msg @ (crlf @ crlf) @ []" using r by simp
    from mg_skip_split [OF tk [unfolded this] m] show ?thesis using r n l by (auto simp: delim_def crlf_def ac_simps)
  next
    fix c r assume r: "rest = c # r" "c_isprint c" "s2 = length (proto @ '' '' @ show_nat code @ '' '' @ msg @ crlf)"
    from mg_skip_split [OF tk m] show ?thesis using r l isprint_not [OF r(2)] by (auto simp: delim_def crlf_def ac_simps)
  qed
  have ge: "\<not> int n - int (length proto + 1) < 4" using n l by simp
  show ?thesis
    unfolding parse_status_line_def s1 by (simp only: Let_def split_conv ge sp simp_thms if_False) (use code s3 in \<open>simp add: ai [simplified] ac_simps\<close>)
qed

text \<open>
  Where the headers begin, and the message before them. Neither depends on the body, and so the
  message that is read does not.
\<close>

definition headers_from :: "string \<Rightarrow> nat \<Rightarrow> string \<Rightarrow> (string \<times> string) list \<Rightarrow> nat" where
  "headers_from proto code msg hs =
     (if hs = [] then length (response_head proto code msg hs) else length ((proto @ '' '' @ show_nat code @ '' '' @ msg) @ crlf))"

definition status_hm :: "string \<Rightarrow> nat \<Rightarrow> string \<Rightarrow> (string \<times> string) list \<Rightarrow> http_message" where
  "status_hm proto code msg hs =
     hm_empty\<lparr>hm_message := ms_at 0 size_max64, hm_body := ms_at (length (response_head proto code msg hs)) size_max64,
       hm_proto := ms_at 0 (length proto), hm_resp_code := int code, hm_resp_status_msg := ms_at (length proto + 5) (length msg)\<rparr>"

lemma response_parse:
  assumes "proto \<noteq> []" and "printable proto" and "CHR '' '' \<notin> set proto"
    and "100 \<le> code" and "code < 600" and "printable msg"
    and "list_all good_header hs" and "length hs < MG_MAX_HTTP_HEADERS"
  shows "mg_parse_http (response_head proto code msg hs @ body) False hm0 =
    (int (length (response_head proto code msg hs)),
     snd (parse_headers (response_head proto code msg hs @ body) (headers_from proto code msg hs)
       (length (response_head proto code msg hs)) (length (response_head proto code msg hs)) (status_hm proto code msg hs)))"
proof -
  let ?st = "proto @ '' '' @ show_nat code @ '' '' @ msg" and ?rest = "concat (map header_text_of hs) @ crlf"
  let ?head = "response_head proto code msg hs"
  let ?t = "?head @ body" and ?n = "length ?head" and ?s2 = "if hs = [] then length ?head else length (?st @ crlf)"
  let ?hm1 = "hm_empty\<lparr>hm_message := ms_at 0 size_max64, hm_body := ms_at ?n size_max64\<rparr>"
  let ?hm2 = "?hm1\<lparr>hm_proto := ms_at 0 (length proto), hm_resp_code := int code,
      hm_resp_status_msg := ms_at (length proto + 5) (length msg)\<rparr>"
  let ?hm = "snd (parse_headers ?t ?s2 ?n ?n ?hm2)"
  have head: "?head = ?st @ crlf @ ?rest" by (simp add: response_head_def)
  have sp: "c_isprint (CHR '' '')" by code_simp
  have "printable ?st" using assms(2,6) sp show_nat_digits [of code]
    by (simp add: printable_def list_all_iff c_isdigit_def c_isprint_def) fastforce
  from request_len_headers [OF this assms(7), of 0 body] have len: "mg_http_get_request_len ?t = int ?n"
    by (simp add: mg_http_get_request_len_def head crlf_def)
  have n0: "0 < ?n" by (simp add: response_head_def crlf_def)
  have ws: "length (takeWhile c_isspace (take ?n ?t)) = 0"
    using assms(1-3) print_space [of "hd proto"] by (cases proto) (auto simp: response_head_def)
  have rest: "(?rest = crlf \<and> ?s2 = ?n) \<or> (\<exists>c r. ?rest = c # r \<and> c_isprint c \<and> ?s2 = length (?st @ crlf))"
  proof (cases hs)
    case (Cons h' hs')
    obtain n' v' where "h' = (n', v')" by (cases h')
    with Cons assms(7) show ?thesis by (cases n') auto
  qed simp
  have st: "parse_status_line ?t 0 ?n ?hm1 = (Some ?s2, ?hm2)"
    using rest by (intro status_line_parsed [OF assms(2-6), of _ ?rest body]) (simp_all add: head)
  have "mg_parse_http ?t False hm0 = (int ?n, ?hm)"
    using n0 by (simp only: mg_parse_http_def len Let_def nat_int ws st if_False split_conv option.case
      of_nat_le_0_iff) simp
  then show ?thesis by (simp only: headers_from_def status_hm_def)
qed

lemma parse_headers_same:
  assumes "list_all good_header hs" and "t = pre @ (concat (map header_text_of hs) @ crlf) @ body"
    and "t' = pre @ (concat (map header_text_of hs) @ crlf) @ body'"
    and "e = length pre + length (concat (map header_text_of hs) @ crlf)"
    and "s = (if hs = [] then e else length pre)"
    and "length (hm_header_names req) + length hs < MG_MAX_HTTP_HEADERS"
  shows "parse_headers t s e len req = parse_headers t' s e len req"
  using assms
proof (induction hs arbitrary: pre s req)
  case Nil
  have "mg_skip x e e ds = (e, ms_at e 0)" for x ds by (simp add: mg_skip_def)
  then show ?case using Nil by (subst (1 2) parse_headers.simps) (simp add: Let_def ms_at_def)
next
  case (Cons h hs)
  obtain n v where h: "h = (n, v)" by (cases h)
  let ?rest = "concat (map header_text_of hs) @ crlf"
  let ?s2 = "if hs = [] then e else length (pre @ header_text_of (n, v))"
  let ?req = "add_header len (n, v) (ms_at (length pre) (length n)) (ms_at (length (pre @ n @ '': '')) (length v)) req"
  have g: "good_header (n, v)" "list_all good_header hs" using Cons.prems(1) h by simp_all
  have t: "t = pre @ (n @ '': '' @ v @ crlf @ ?rest) @ body" "t' = pre @ (n @ '': '' @ v @ crlf @ ?rest) @ body'"
    using Cons.prems(2,3) h by simp_all
  have e: "e = length pre + length (n @ '': '' @ v @ crlf @ ?rest)" using Cons.prems(4) h by simp
  have rest: "(?rest = crlf \<and> ?s2 = e) \<or>
     (\<exists>c r. ?rest = c # r \<and> c_isprint c \<and> ?s2 = length pre + length (n @ '': '' @ v @ crlf))"
  proof (cases hs)
    case (Cons h' hs')
    obtain n' v' where "h' = (n', v')" by (cases h')
    with Cons g(2) show ?thesis by (cases n') auto
  qed simp
  have room: "length (hm_header_names req) < MG_MAX_HTTP_HEADERS - 1" using Cons.prems(6) by simp
  have s: "s = length pre" using Cons.prems(5) by simp
  have "parse_headers t ?s2 e len ?req = parse_headers t' ?s2 e len ?req"
  proof (rule Cons.IH [OF g(2), of "pre @ header_text_of (n, v)"])
    show "length (hm_header_names ?req) + length hs < MG_MAX_HTTP_HEADERS"
      using Cons.prems(6) by (simp add: add_header_def Let_def)
  qed (use t e in simp_all)
  then show ?case
    by (simp only: s parse_header_step [OF g(1) t(1) e rest room] parse_header_step [OF g(1) t(2) e rest room])
qed

lemma response_same:
  assumes "proto \<noteq> []" and "printable proto" and "CHR '' '' \<notin> set proto"
    and "100 \<le> code" and "code < 600" and "printable msg"
    and "list_all good_header hs" and "length hs < MG_MAX_HTTP_HEADERS"
  shows "mg_parse_http (response_head proto code msg hs @ b) False hm0 = mg_parse_http (response_head proto code msg hs @ b') False hm0'"
proof -
  let ?st = "proto @ '' '' @ show_nat code @ '' '' @ msg"
  have "parse_headers (response_head proto code msg hs @ b) (headers_from proto code msg hs) n n (status_hm proto code msg hs)
      = parse_headers (response_head proto code msg hs @ b') (headers_from proto code msg hs) n n (status_hm proto code msg hs)"
    if "n = length (response_head proto code msg hs)" for n
    by (rule parse_headers_same [of hs _ "?st @ crlf" b _ b'])
      (use assms(7,8) that in \<open>simp_all add: response_head_def headers_from_def status_hm_def hm_empty_def\<close>)
  then show ?thesis by (simp only: response_parse [OF assms])
qed

lemma response_read_at:
  assumes "proto \<noteq> []" and "printable proto" and "CHR '' '' \<notin> set proto"
    and "100 \<le> code" and "code < 600" and "printable msg"
    and "list_all good_header hs" and "length hs < MG_MAX_HTTP_HEADERS"
  shows "let head = response_head proto code msg hs; t = head @ body; (len, hm) = mg_parse_http t False hm0
    in len = int (length head) \<and> slice t (hm_proto hm) = proto \<and> hm_resp_code hm = int code
       \<and> slice t (hm_resp_status_msg hm) = msg
       \<and> map (slice t) (hm_header_names hm) = map fst hs \<and> map (slice t) (hm_header_values hm) = map snd hs
       \<and> ms_p (hm_body hm) = Some (length head) \<and> ms_len (hm_body hm) = body_len hs size_max64
       \<and> slice t (hm_body hm) = take (body_len hs size_max64) body
       \<and> (\<forall>name. map_option (slice t) (mg_get_http_header t hm name)
            = map_option snd (find (\<lambda>(n, v). map c_tolower n = map c_tolower name) hs))
       \<and> ms_p (hm_message hm) = Some 0
       \<and> ms_len (hm_message hm) = (if list_ex (is_cl \<circ> fst) hs then (length head + body_len hs size_max64) mod 2 ^ 64 else size_max64)"
proof -
  let ?st = "proto @ '' '' @ show_nat code @ '' '' @ msg" and ?rest = "concat (map header_text_of hs) @ crlf"
  let ?head = "response_head proto code msg hs"
  let ?t = "?head @ body" and ?n = "length ?head" and ?s2 = "if hs = [] then length ?head else length (?st @ crlf)"
  let ?hm1 = "hm_empty\<lparr>hm_message := ms_at 0 size_max64, hm_body := ms_at ?n size_max64\<rparr>"
  let ?hm2 = "?hm1\<lparr>hm_proto := ms_at 0 (length proto), hm_resp_code := int code,
      hm_resp_status_msg := ms_at (length proto + 5) (length msg)\<rparr>"
  let ?hm = "snd (parse_headers ?t ?s2 ?n ?n ?hm2)"
  have head: "?head = ?st @ crlf @ ?rest" by (simp add: response_head_def)
  have hd: "headers_read ?t ?n hs ?hm2 ?hm"
    by (rule parse_headers_text [of _ _ "?st @ crlf" body]) (use assms(7,8) in \<open>simp_all add: head hm_empty_def\<close>)
  have parse: "mg_parse_http ?t False hm0 = (int ?n, ?hm)"
    using response_parse [OF assms] by (simp only: headers_from_def status_hm_def)
  note hr = hd [unfolded headers_read_def, simplified]
  have l3: "length (show_nat code) = 3" using assms(4,5) by (intro length_show_code) simp_all
  have pr: "slice ?t (hm_proto ?hm) = proto"
    using hr slice_split [of ?t "[]" proto] by (simp add: response_head_def)
  have ms: "slice ?t (hm_resp_status_msg ?hm) = msg"
    using hr slice_split [of ?t "proto @ '' '' @ show_nat code @ '' ''" msg "crlf @ ?rest @ body"] l3
    by (simp add: response_head_def ac_simps)
  have nm: "map (slice ?t) (hm_header_names ?hm) = map fst hs" "map (slice ?t) (hm_header_values ?hm) = map snd hs"
    "list_all (named ?t) (hm_header_names ?hm)" using hr by (simp_all add: hm_empty_def)
  have bd: "ms_p (hm_body ?hm) = Some ?n" "ms_len (hm_body ?hm) = body_len hs size_max64"
    using hr by (simp_all add: ms_at_def)
  then have bs: "slice ?t (hm_body ?hm) = take (body_len hs size_max64) body" by (simp add: slice_def)
  have "list_all (\<lambda>k. no_nul (slice ?t k)) (hm_header_names ?hm)"
  proof -
    have "list_all no_nul (map fst hs)" using assms(7) printable_no_nul by (induction hs) auto
    then show ?thesis by (simp only: nm(1) [symmetric] list.pred_map comp_def)
  qed
  note fh = find_header [OF nm(3) this]
  have ll: "length (hm_header_names ?hm) = length (hm_header_values ?hm)"
    using arg_cong [OF nm(1), of length] arg_cong [OF nm(2), of length] by simp
  have gh: "map_option (slice ?t) (mg_get_http_header ?t ?hm name)
      = map_option snd (find (\<lambda>(n, v). map c_tolower n = map c_tolower name) hs)" for name
    unfolding mg_get_http_header_def by (simp only: fh [OF ll] nm zip_map_fst_snd)
  have "ms_p (hm_message ?hm) = Some 0" "ms_len (hm_message ?hm) =
      (if list_ex (is_cl \<circ> fst) hs then (?n + body_len hs size_max64) mod 2 ^ 64 else size_max64)"
    using hr by (simp_all add: ms_at_def)
  then show ?thesis using hr pr ms nm bd bs gh by (simp add: Let_def parse)
qed

text \<open>
  C31. A response of the form status line, fewer than 40 headers, empty line, body is parsed as
  it was written: the length of the head is returned, the protocol, the code, the message, the
  names and the values of the headers are recovered, the body begins behind the head and has
  the length of the last header that counts as \<open>Content-Length\<close>, and the lookup of a header
  finds the first of that name, whatever its case.
\<close>

theorem response_parsed:
  assumes "proto \<noteq> []" and "printable proto" and "CHR '' '' \<notin> set proto"
    and "100 \<le> code" and "code < 600" and "printable msg"
    and "list_all good_header hs" and "length hs < MG_MAX_HTTP_HEADERS"
  shows "let head = response_head proto code msg hs; t = head @ body; (len, hm) = mg_parse_http t False hm0
    in len = int (length head) \<and> slice t (hm_proto hm) = proto \<and> hm_resp_code hm = int code
       \<and> slice t (hm_resp_status_msg hm) = msg
       \<and> map (slice t) (hm_header_names hm) = map fst hs \<and> map (slice t) (hm_header_values hm) = map snd hs
       \<and> ms_p (hm_body hm) = Some (length head) \<and> ms_len (hm_body hm) = body_len hs size_max64
       \<and> slice t (hm_body hm) = take (body_len hs size_max64) body
       \<and> (\<forall>name. map_option (slice t) (mg_get_http_header t hm name)
            = map_option snd (find (\<lambda>(n, v). map c_tolower n = map c_tolower name) hs))"
  using response_read_at [OF assms, of body hm0] unfolding Let_def by (auto split: prod.splits)

lemma sample_body_len: "body_len [(''Content-Type'', ''text/plain''), (''content-length'', ''2'')] n = 2"
proof -
  have "is_cl ''content-length''" "unat (c_atoll ''2'') = 2" by code_simp+
  then show ?thesis by simp
qed

theorem response_parsed_witness:
  "let t = response_head ''HTTP/1.1'' 404 ''Not Found'' [(''Content-Type'', ''text/plain''), (''content-length'', ''2'')] @ ''okmore'';
       (len, hm) = mg_parse_http t False hm_empty
   in hm_resp_code hm = 404 \<and> slice t (hm_resp_status_msg hm) = ''Not Found'' \<and> slice t (hm_body hm) = ''ok''
      \<and> map_option (slice t) (mg_get_http_header t hm ''content-type'') = Some ''text/plain''"
proof -
  let ?hs = "[(''Content-Type'', ''text/plain''), (''content-length'', ''2'')]"
  have a: "printable ''HTTP/1.1''" "printable ''Not Found''" "list_all good_header ?hs" "length ?hs < MG_MAX_HTTP_HEADERS"
    "find (\<lambda>(n, v). map c_tolower n = map c_tolower ''content-type'') ?hs = Some (''Content-Type'', ''text/plain'')"
    by code_simp+
  have k: "(100::nat) \<le> 404" "(404::nat) < 600" by simp_all
  let ?t = "response_head ''HTTP/1.1'' 404 ''Not Found'' ?hs @ ''okmore''"
  obtain len hm where p: "mg_parse_http ?t False hm_empty = (len, hm)" by (cases "mg_parse_http ?t False hm_empty")
  from response_parsed [of "''HTTP/1.1''" 404 "''Not Found''" ?hs "''okmore''" hm_empty, OF _ a(1) _ k a(2-4)]
  have "hm_resp_code hm = 404 \<and> slice ?t (hm_resp_status_msg hm) = ''Not Found''
      \<and> slice ?t (hm_body hm) = take (body_len ?hs size_max64) ''okmore''
      \<and> map_option (slice ?t) (mg_get_http_header ?t hm ''content-type'')
        = map_option snd (find (\<lambda>(n, v). map c_tolower n = map c_tolower ''content-type'') ?hs)"
    unfolding Let_def p split_conv by simp
  then show ?thesis unfolding Let_def p split_conv a(5) sample_body_len by simp
qed

end
