(* ===== verification/MgMbuf.thy ===== *)
theory MgMbuf
  imports Prelude
begin

text \<open>
  The growable buffer of mongoose (\<open>mbuf_*\<close> in \<open>mongoose.c\<close>) and the interface that its
  clients rely on. A \<open>size_t\<close> is a natural number below \<open>2 ^ 64\<close>, with the wrap-around of
  \<open>a->len + len\<close> written out.
\<close>

section \<open>The buffer\<close>

text \<open>
  \<open>mb_buf\<close> is \<open>None\<close> for a null pointer, otherwise all the \<open>size\<close> bytes of the block, of which
  the first \<open>len\<close> are data; \<open>mb_addr\<close> is the value of the pointer.
\<close>

record mbuf =
  mb_buf :: "u8 list option"
  mb_addr :: nat
  mb_len :: nat
  mb_size :: nat

text \<open>
  \<open>MBUF_REALLOC\<close>: for a size other than 0 the address of the new block, or \<open>None\<close>, with the
  bytes that the block has beyond the old contents.
\<close>

type_synonym reallocator = "nat \<Rightarrow> (nat \<times> (nat \<Rightarrow> u8)) option"

definition size_max :: nat where
  "size_max = 2 ^ 64 - 1"

definition realloc_bytes :: "u8 list option \<Rightarrow> (nat \<Rightarrow> u8) \<Rightarrow> nat \<Rightarrow> u8 list" where
  "realloc_bytes old junk n =
     (let b = (case old of None \<Rightarrow> [] | Some b \<Rightarrow> b) in take n b @ map junk [length b..<n])"

text \<open>\<open>memcpy\<close> into a block at an offset.\<close>

definition put_at :: "nat \<Rightarrow> 'a list \<Rightarrow> 'a list \<Rightarrow> 'a list" where
  "put_at off xs b = take off b @ xs @ drop (off + length xs) b"

definition mbuf_resize :: "reallocator \<Rightarrow> mbuf \<Rightarrow> nat \<Rightarrow> mbuf" where
  "mbuf_resize ra a new_size =
     (if new_size > mb_size a \<or> (new_size < mb_size a \<and> new_size \<ge> mb_len a) then
        (if new_size = 0 then a\<lparr>mb_buf := None, mb_addr := 0, mb_size := 0\<rparr>
         else (case ra new_size of
                 None \<Rightarrow> a
               | Some (addr, junk) \<Rightarrow>
                   a\<lparr>mb_buf := Some (realloc_bytes (mb_buf a) junk new_size), mb_addr := addr, mb_size := new_size\<rparr>))
      else a)"

definition mbuf_init :: "reallocator \<Rightarrow> nat \<Rightarrow> mbuf" where
  "mbuf_init ra initial_size =
     mbuf_resize ra \<lparr>mb_buf = None, mb_addr = 0, mb_len = 0, mb_size = 0\<rparr> initial_size"

text \<open>\<open>free\<close> is called when there is a block.\<close>

definition mbuf_free :: "reallocator \<Rightarrow> mbuf \<Rightarrow> mbuf" where
  "mbuf_free ra a = (if mb_buf a \<noteq> None then mbuf_init ra 0 else a)"

definition mbuf_trim :: "reallocator \<Rightarrow> mbuf \<Rightarrow> mbuf" where
  "mbuf_trim ra a = mbuf_resize ra a (mb_len a)"

text \<open>The size asked for: \<open>MBUF_SIZE_MULTIPLIER\<close> is 1.5 and \<open>MBUF_SIZE_MAX_HEADROOM\<close> is \<open>BUFSIZ\<close>.\<close>

definition MBUF_SIZE_MAX_HEADROOM :: nat where "MBUF_SIZE_MAX_HEADROOM = 8192"

definition grown_size :: "nat \<Rightarrow> nat" where
  "grown_size min_size =
     (let new_size = min_size * 3 div 2
      in if new_size - min_size > MBUF_SIZE_MAX_HEADROOM then min_size + MBUF_SIZE_MAX_HEADROOM else new_size)"

text \<open>
  The block after the insertion: the tail is moved, then the bytes, if there are any, are
  copied. \<open>src\<close> are the bytes behind the pointer \<open>buf\<close>.
\<close>

definition insert_bytes :: "u8 list \<Rightarrow> nat \<Rightarrow> nat \<Rightarrow> u8 list option \<Rightarrow> nat \<Rightarrow> u8 list" where
  "insert_bytes b off alen src len =
     (let b' = put_at (off + len) (take (alen - off) (drop off b)) b
      in case src of None \<Rightarrow> b' | Some xs \<Rightarrow> put_at off (take len xs) b')"

definition mbuf_insert :: "reallocator \<Rightarrow> mbuf \<Rightarrow> nat \<Rightarrow> u8 list option \<Rightarrow> nat \<Rightarrow> (mbuf \<times> nat) res" where
  "mbuf_insert ra a off src len =
     guard_res (mb_len a \<le> mb_size a \<and> off \<le> mb_len a) AssertFail
       (if size_max - mb_addr a < len then Inr (a, 0)
        else guard_res (case src of None \<Rightarrow> True | Some xs \<Rightarrow> len \<le> length xs) OutOfBounds
          (let min_size = (mb_len a + len) mod 2 ^ 64 in
           if min_size \<le> mb_size a then
             guard_res (mb_len a + len \<le> mb_size a) OutOfBounds
               (Inr (a\<lparr>mb_buf := map_option (\<lambda>b. insert_bytes b off (mb_len a) src len) (mb_buf a),
                       mb_len := min_size\<rparr>, len))
           else
             (let first = grown_size min_size;
                  (new_size, p) = (case ra first of
                       Some q \<Rightarrow> (first, Some q)
                     | None \<Rightarrow> if first \<noteq> min_size then (min_size, ra min_size) else (first, None))
              in case p of
                   None \<Rightarrow> Inr (a, 0)
                 | Some (addr, junk) \<Rightarrow>
                     Inr (a\<lparr>mb_buf := Some (insert_bytes (realloc_bytes (mb_buf a) junk new_size) off (mb_len a) src len),
                            mb_addr := addr, mb_len := min_size, mb_size := new_size\<rparr>, len))))"

definition mbuf_append :: "reallocator \<Rightarrow> mbuf \<Rightarrow> u8 list option \<Rightarrow> nat \<Rightarrow> (mbuf \<times> nat) res" where
  "mbuf_append ra a src len = mbuf_insert ra a (mb_len a) src len"

definition mbuf_remove :: "mbuf \<Rightarrow> nat \<Rightarrow> mbuf" where
  "mbuf_remove a n =
     (if n > 0 \<and> n \<le> mb_len a then
        a\<lparr>mb_buf := map_option (\<lambda>b. put_at 0 (take (mb_len a - n) (drop n b)) b) (mb_buf a), mb_len := mb_len a - n\<rparr>
      else a)"

section \<open>The data\<close>

definition mbuf_data :: "mbuf \<Rightarrow> u8 list" where
  "mbuf_data a = take (mb_len a) (case mb_buf a of None \<Rightarrow> [] | Some b \<Rightarrow> b)"

text \<open>The block has the recorded size and lies in the address space.\<close>

definition mbuf_ok :: "mbuf \<Rightarrow> bool" where
  "mbuf_ok a \<longleftrightarrow> mb_len a \<le> mb_size a \<and> length (case mb_buf a of None \<Rightarrow> [] | Some b \<Rightarrow> b) = mb_size a
     \<and> mb_addr a + mb_size a \<le> size_max"

text \<open>An allocator whose blocks lie in the address space.\<close>

definition ra_ok :: "reallocator \<Rightarrow> bool" where
  "ra_ok ra \<longleftrightarrow> (\<forall>n addr junk. ra n = Some (addr, junk) \<longrightarrow> addr + n \<le> size_max)"

lemma length_mbuf_data [simp]: "mbuf_ok a \<Longrightarrow> length (mbuf_data a) = mb_len a"
  by (simp add: mbuf_ok_def mbuf_data_def)

lemma length_realloc_bytes [simp]: "length (realloc_bytes old junk n) = n"
  by (simp add: realloc_bytes_def Let_def min_def split: option.splits)

lemma take_realloc_bytes:
  "k \<le> n \<Longrightarrow> k \<le> length (case old of None \<Rightarrow> [] | Some b \<Rightarrow> b)
     \<Longrightarrow> take k (realloc_bytes old junk n) = take k (case old of None \<Rightarrow> [] | Some b \<Rightarrow> b)"
  by (simp add: realloc_bytes_def Let_def)

lemma insert_bytes_split:
  assumes "len \<le> length xs" and "len \<le> length r"
  shows "insert_bytes (p @ m @ r) (length p) (length p + length m) (Some xs) len = p @ take len xs @ m @ drop len r"
proof -
  have "put_at (length p + len) m (p @ m @ r) = p @ take len (m @ r) @ m @ drop len r"
    using assms(2) by (simp add: put_at_def add.commute)
  moreover have "put_at (length p) (take len xs) (p @ take len (m @ r) @ m @ drop len r) = p @ take len xs @ m @ drop len r"
    using assms by (simp add: put_at_def)
  ultimately show ?thesis by (simp add: insert_bytes_def Let_def)
qed

lemma insert_bytes_data:
  assumes "off \<le> alen" and "alen + len \<le> length b" and "len \<le> length xs"
  shows "length (insert_bytes b off alen (Some xs) len) = length b
     \<and> take (alen + len) (insert_bytes b off alen (Some xs) len) = take off b @ take len xs @ drop off (take alen b)"
proof -
  have m: "take (alen - off) (drop off b) = drop off (take alen b)" by (simp add: drop_take)
  have b: "b = take off b @ drop off (take alen b) @ drop alen b"
    using assms(1) by (metis append_assoc append_take_drop_id m min.absorb1 take_add take_take le_add_diff_inverse)
  have l: "length (take off b) = off" "length (drop off (take alen b)) = alen - off" "length (drop alen b) = length b - alen"
    using assms(1,2) by simp_all
  have "insert_bytes b off alen (Some xs) len = take off b @ take len xs @ drop off (take alen b) @ drop len (drop alen b)"
    using insert_bytes_split [of len xs "drop alen b" "take off b" "drop off (take alen b)"] assms l b by simp
  then show ?thesis using assms l by simp
qed

lemma grown_size_ge: "n \<le> grown_size n"
proof -
  have "n \<le> n * 3 div 2" by linarith
  then show ?thesis by (simp add: grown_size_def Let_def)
qed

section \<open>What the operations do to the data\<close>

lemma data_prefix: "mbuf_ok a \<Longrightarrow> k \<le> mb_len a \<Longrightarrow>
    take k (case mb_buf a of None \<Rightarrow> [] | Some b \<Rightarrow> b) = take k (mbuf_data a)"
  by (simp add: mbuf_data_def)

lemma insert_bytes_keeps:
  assumes "mbuf_ok a" and "off \<le> mb_len a" and "mb_len a + len \<le> length b" and "len \<le> length xs"
    and "take (mb_len a) b = mbuf_data a"
  shows "length (insert_bytes b off (mb_len a) (Some xs) len) = length b
     \<and> take (mb_len a + len) (insert_bytes b off (mb_len a) (Some xs) len)
         = take off (mbuf_data a) @ take len xs @ drop off (mbuf_data a)"
proof -
  have "take off b = take off (mbuf_data a)" using assms(2,5) by (metis min.absorb1 take_take)
  then show ?thesis using insert_bytes_data [OF assms(2-4)] assms(5) by simp
qed

lemma mbuf_insert_cases:
  assumes ok: "mbuf_ok a" and off: "off \<le> mb_len a" and len: "len \<le> length xs"
    and small: "mb_len a + len < 2 ^ 64" and ra: "ra_ok ra"
  shows "(mbuf_insert ra a off (Some xs) len = Inr (a, 0) \<and>
            (size_max - mb_addr a < len \<or> (mb_size a < mb_len a + len \<and> ra (mb_len a + len) = None)))
     \<or> (\<exists>a'. mbuf_insert ra a off (Some xs) len = Inr (a', len) \<and> mbuf_ok a'
          \<and> mbuf_data a' = take off (mbuf_data a) @ take len xs @ drop off (mbuf_data a))"
proof -
  let ?b = "case mb_buf a of None \<Rightarrow> [] | Some b \<Rightarrow> b" and ?m = "mb_len a + len"
  have bs: "length ?b = mb_size a" "mb_len a \<le> mb_size a" "mb_addr a + mb_size a \<le> size_max"
    using ok by (simp_all add: mbuf_ok_def)
  consider (high) "size_max - mb_addr a < len" | (fits) "\<not> size_max - mb_addr a < len" "?m \<le> mb_size a"
    | (grow) "\<not> size_max - mb_addr a < len" "mb_size a < ?m" by linarith
  then show ?thesis
  proof cases
    case high
    then show ?thesis using bs off by (simp add: mbuf_insert_def)
  next
    case fits
    let ?a = "a\<lparr>mb_buf := map_option (\<lambda>b. insert_bytes b off (mb_len a) (Some xs) len) (mb_buf a), mb_len := ?m\<rparr>"
    have run: "mbuf_insert ra a off (Some xs) len = Inr (?a, len)"
      using fits bs off len small by (simp add: mbuf_insert_def)
    show ?thesis
    proof (cases "mb_buf a")
      case None
      then have "?m = 0" "off = 0" using bs fits(2) off by simp_all
      then have "mbuf_ok ?a \<and> mbuf_data ?a = take off (mbuf_data a) @ take len xs @ drop off (mbuf_data a)"
        using None ok by (simp add: mbuf_ok_def mbuf_data_def)
      then show ?thesis using run by blast
    next
      case (Some b)
      then have b: "length b = mb_size a" "take (mb_len a) b = mbuf_data a" using bs by (simp_all add: mbuf_data_def)
      have "?m \<le> length b" using fits(2) b by simp
      note k = insert_bytes_keeps [OF ok off this len b(2)]
      have "mbuf_data ?a = take ?m (insert_bytes b off (mb_len a) (Some xs) len)"
        by (simp add: mbuf_data_def Some)
      then have "mbuf_ok ?a \<and> mbuf_data ?a = take off (mbuf_data a) @ take len xs @ drop off (mbuf_data a)"
        using k Some fits(2) bs(3) b(1) by (simp add: mbuf_ok_def)
      then show ?thesis using run by blast
    qed
  next
    case grow
    let ?p = "case ra (grown_size ?m) of Some q \<Rightarrow> (grown_size ?m, Some q)
        | None \<Rightarrow> if grown_size ?m \<noteq> ?m then (?m, ra ?m) else (grown_size ?m, None)"
    obtain n q where p: "?p = (n, q)" by (cases ?p)
    show ?thesis
    proof (cases q)
      case None
      then have "mbuf_insert ra a off (Some xs) len = Inr (a, 0)" and "ra ?m = None"
        using p grow bs off len small by (auto simp: mbuf_insert_def Let_def split: option.splits if_splits)
      then show ?thesis using grow(2) by blast
    next
      case (Some aj)
      obtain addr junk where [simp]: "aj = (addr, junk)" by (cases aj)
      have n: "?m \<le> n" and r: "ra n = Some (addr, junk)"
        using p Some grown_size_ge [of ?m] by (auto split: option.splits if_splits)
      let ?nb = "realloc_bytes (mb_buf a) junk n"
      let ?a = "a\<lparr>mb_buf := Some (insert_bytes ?nb off (mb_len a) (Some xs) len), mb_addr := addr, mb_len := ?m, mb_size := n\<rparr>"
      have run: "mbuf_insert ra a off (Some xs) len = Inr (?a, len)"
        using p Some grow bs off len small by (simp add: mbuf_insert_def Let_def)
      have "take (mb_len a) ?nb = mbuf_data a"
        using n bs by (simp add: take_realloc_bytes mbuf_data_def)
      note k = insert_bytes_keeps [OF ok off _ len this, simplified, OF n]
      have "addr + n \<le> size_max" using ra r by (auto simp: ra_ok_def)
      then have "mbuf_ok ?a \<and> mbuf_data ?a = take off (mbuf_data a) @ take len xs @ drop off (mbuf_data a)"
        using k n by (simp add: mbuf_ok_def mbuf_data_def [of ?a])
      then show ?thesis using run by blast
    qed
  qed
qed

lemma mbuf_remove_ok:
  assumes "mbuf_ok a" and "n \<le> mb_len a"
  shows "mbuf_ok (mbuf_remove a n) \<and> mbuf_data (mbuf_remove a n) = drop n (mbuf_data a)"
proof (cases "n = 0")
  case True
  then show ?thesis using assms by (simp add: mbuf_remove_def)
next
  case False
  show ?thesis
  proof (cases "mb_buf a")
    case None
    then show ?thesis using assms False by (simp add: mbuf_ok_def)
  next
    case (Some b)
    let ?b = "put_at 0 (take (mb_len a - n) (drop n b)) b"
    have l: "length b = mb_size a" "mb_len a \<le> mb_size a" using assms Some by (simp_all add: mbuf_ok_def)
    then have "length ?b = length b" "take (mb_len a - n) ?b = drop n (take (mb_len a) b)"
      using assms(2) by (simp_all add: put_at_def drop_take)
    then show ?thesis using assms False Some l by (simp add: mbuf_remove_def mbuf_ok_def mbuf_data_def)
  qed
qed

lemma mbuf_resize_ok:
  assumes "mbuf_ok a" and "ra_ok ra"
  shows "mbuf_ok (mbuf_resize ra a n) \<and> mbuf_data (mbuf_resize ra a n) = mbuf_data a"
proof -
  let ?b = "case mb_buf a of None \<Rightarrow> [] | Some b \<Rightarrow> b"
  have bs: "length ?b = mb_size a" "mb_len a \<le> mb_size a" using assms(1) by (simp_all add: mbuf_ok_def)
  consider (same) "\<not> (n > mb_size a \<or> (n < mb_size a \<and> n \<ge> mb_len a)) \<or> (n \<noteq> 0 \<and> ra n = None)"
    | (zero) "n > mb_size a \<or> (n < mb_size a \<and> n \<ge> mb_len a)" "n = 0"
    | (new) addr junk where "n > mb_size a \<or> (n < mb_size a \<and> n \<ge> mb_len a)" "n \<noteq> 0" "ra n = Some (addr, junk)"
    by (cases "ra n") auto
  then show ?thesis
  proof cases
    case same
    then have "mbuf_resize ra a n = a" by (auto simp: mbuf_resize_def)
    then show ?thesis using assms(1) by simp
  next
    case zero
    then have "mbuf_resize ra a n = a\<lparr>mb_buf := None, mb_addr := 0, mb_size := 0\<rparr>" "mb_len a = 0"
      by (simp_all add: mbuf_resize_def)
    then show ?thesis by (simp add: mbuf_ok_def mbuf_data_def)
  next
    case (new addr junk)
    then have r: "mbuf_resize ra a n = a\<lparr>mb_buf := Some (realloc_bytes (mb_buf a) junk n), mb_addr := addr, mb_size := n\<rparr>"
      by (simp add: mbuf_resize_def)
    have n: "mb_len a \<le> n" using new(1) bs by auto
    then have "take (mb_len a) (realloc_bytes (mb_buf a) junk n) = mbuf_data a"
      using bs by (simp add: take_realloc_bytes mbuf_data_def)
    moreover have "addr + n \<le> size_max" using assms(2) new(3) by (auto simp: ra_ok_def)
    ultimately show ?thesis using n unfolding r by (simp add: mbuf_ok_def mbuf_data_def)
  qed
qed

section \<open>The interface of a byte buffer\<close>

text \<open>
  What a client of a buffer may rely on: an append stores all bytes at the end or none, and
  says how many; a removal takes bytes from the front, or does nothing when there are not
  so many.
\<close>

locale byte_buffer =
  fixes data :: "'b \<Rightarrow> u8 list"
    and ok :: "'b \<Rightarrow> bool"
    and append :: "'b \<Rightarrow> u8 list \<Rightarrow> ('b \<times> nat) res"
    and remove :: "'b \<Rightarrow> nat \<Rightarrow> 'b"
  assumes append_law: "ok b \<Longrightarrow> length (data b) + length xs < 2 ^ 64 \<Longrightarrow>
      append b xs = Inr (b, 0) \<or> (\<exists>b'. append b xs = Inr (b', length xs) \<and> ok b' \<and> data b' = data b @ xs)"
    and remove_law: "ok b \<Longrightarrow> n \<le> length (data b) \<Longrightarrow> ok (remove b n) \<and> data (remove b n) = drop n (data b)"
    and remove_more: "ok b \<Longrightarrow> length (data b) < n \<Longrightarrow> remove b n = b"

text \<open>A client that puts and drops bytes; the counts are the results of its appends.\<close>

datatype buf_op = Put "u8 list" | Drop nat

fun buf_run :: "('b \<Rightarrow> u8 list \<Rightarrow> ('b \<times> nat) res) \<Rightarrow> ('b \<Rightarrow> nat \<Rightarrow> 'b) \<Rightarrow> 'b \<Rightarrow> buf_op list \<Rightarrow> ('b \<times> nat list) res" where
  "buf_run app rem b [] = Inr (b, [])"
| "buf_run app rem b (Put xs # ops) =
     rbind (app b xs) (\<lambda>(b', n). rbind (buf_run app rem b' ops) (\<lambda>(b'', ns). Inr (b'', n # ns)))"
| "buf_run app rem b (Drop n # ops) = buf_run app rem (rem b n) ops"

text \<open>The same on a list, with the counts given.\<close>

fun list_run :: "u8 list \<Rightarrow> buf_op list \<Rightarrow> nat list \<Rightarrow> u8 list" where
  "list_run d [] ns = d"
| "list_run d (Put xs # ops) ns = list_run (d @ take (hd ns) xs) ops (tl ns)"
| "list_run d (Drop n # ops) ns = list_run (if n \<le> length d then drop n d else d) ops ns"

fun put_bytes :: "buf_op \<Rightarrow> nat" where
  "put_bytes (Put xs) = length xs"
| "put_bytes (Drop n) = 0"

text \<open>All the pieces in order, whatever the counts.\<close>

fun append_all :: "('b \<Rightarrow> u8 list \<Rightarrow> ('b \<times> nat) res) \<Rightarrow> 'b \<Rightarrow> u8 list list \<Rightarrow> 'b res" where
  "append_all app b [] = Inr b"
| "append_all app b (xs # xss) = rbind (app b xs) (\<lambda>(b', n). append_all app b' xss)"

context byte_buffer
begin

lemma run_refines:
  "ok b \<Longrightarrow> length (data b) + sum_list (map put_bytes ops) < 2 ^ 64 \<Longrightarrow>
     \<exists>b' ns. buf_run append remove b ops = Inr (b', ns) \<and> ok b' \<and> data b' = list_run (data b) ops ns
       \<and> list_all2 (\<lambda>n xs. n = 0 \<or> n = length xs) ns [xs. Put xs \<leftarrow> ops]"
proof (induction ops arbitrary: b)
  case (Cons x ops)
  show ?case
  proof (cases x)
    case (Put xs)
    then have "length (data b) + length xs < 2 ^ 64" using Cons.prems(2) by simp
    from append_law [OF Cons.prems(1) this] obtain b1 n where a: "append b xs = Inr (b1, n)" "ok b1"
      and n: "n = 0 \<or> n = length xs" and d: "data b1 = data b @ take n xs"
      using Cons.prems(1) by fastforce
    have "length (data b1) + sum_list (map put_bytes ops) < 2 ^ 64" using Cons.prems(2) d Put by simp
    from Cons.IH [OF a(2) this] show ?thesis using a(1) n d Put by auto
  next
    case (Drop n)
    have "ok (remove b n) \<and> data (remove b n) = (if n \<le> length (data b) then drop n (data b) else data b)"
      using remove_law [OF Cons.prems(1)] remove_more [OF Cons.prems(1)] Cons.prems(1) by simp
    then show ?thesis using Cons.IH [of "remove b n"] Cons.prems(2) Drop by fastforce
  qed
qed simp

lemma append_all_data:
  "ok b \<Longrightarrow> length (data b) + length (concat xss) \<le> n \<Longrightarrow> n < 2 ^ 64
     \<Longrightarrow> (\<And>c xs. ok c \<Longrightarrow> length (data c) + length xs \<le> n \<Longrightarrow> append c xs \<noteq> Inr (c, 0) \<or> xs = [])
     \<Longrightarrow> \<exists>b'. append_all append b xss = Inr b' \<and> ok b' \<and> data b' = data b @ concat xss"
proof (induction xss arbitrary: b)
  case (Cons xs xss)
  have l: "length (data b) + length xs < 2 ^ 64" "length (data b) + length xs \<le> n" using Cons.prems(2,3) by simp_all
  obtain b1 where a: "append b xs = Inr (b1, length xs)" "ok b1" "data b1 = data b @ xs"
    using append_law [OF Cons.prems(1) l(1)] Cons.prems(1) Cons.prems(4) [OF Cons.prems(1) l(2)] by fastforce
  have "length (data b1) + length (concat xss) \<le> n" using Cons.prems(2) a(3) by simp
  from Cons.IH [OF a(2) this Cons.prems(3,4)] show ?case using a by auto
qed simp

end

text \<open>The buffer of mongoose together with its allocator provides the interface.\<close>

definition mbuf_put :: "reallocator \<times> mbuf \<Rightarrow> u8 list \<Rightarrow> ((reallocator \<times> mbuf) \<times> nat) res" where
  "mbuf_put m xs = rbind (mbuf_append (fst m) (snd m) (Some xs) (length xs)) (\<lambda>(a, n). Inr ((fst m, a), n))"

definition mbuf_drop :: "reallocator \<times> mbuf \<Rightarrow> nat \<Rightarrow> reallocator \<times> mbuf" where
  "mbuf_drop m n = (fst m, mbuf_remove (snd m) n)"

definition heap_ok :: "reallocator \<times> mbuf \<Rightarrow> bool" where
  "heap_ok m \<longleftrightarrow> ra_ok (fst m) \<and> mbuf_ok (snd m)"

lemma mbuf_put_law:
  assumes "heap_ok m" and "length (mbuf_data (snd m)) + length xs < 2 ^ 64"
  shows "mbuf_put m xs = Inr (m, 0)
     \<or> (\<exists>m'. mbuf_put m xs = Inr (m', length xs) \<and> heap_ok m' \<and> mbuf_data (snd m') = mbuf_data (snd m) @ xs)"
proof -
  have ok: "mbuf_ok (snd m)" "ra_ok (fst m)" using assms(1) by (simp_all add: heap_ok_def)
  have "mb_len (snd m) + length xs < 2 ^ 64" using assms(2) ok(1) by simp
  from mbuf_insert_cases [OF ok(1) order_refl order_refl this ok(2)] show ?thesis
    using ok by (auto simp: mbuf_put_def mbuf_append_def heap_ok_def)
qed

interpretation mb: byte_buffer "\<lambda>m. mbuf_data (snd m)" heap_ok mbuf_put mbuf_drop
proof unfold_locales
  show "mbuf_put b xs = Inr (b, 0)
     \<or> (\<exists>b'. mbuf_put b xs = Inr (b', length xs) \<and> heap_ok b' \<and> mbuf_data (snd b') = mbuf_data (snd b) @ xs)"
    if "heap_ok b" "length (mbuf_data (snd b)) + length xs < 2 ^ 64" for b xs
    using that by (rule mbuf_put_law)
next
  show "heap_ok (mbuf_drop b n) \<and> mbuf_data (snd (mbuf_drop b n)) = drop n (mbuf_data (snd b))"
    if "heap_ok b" "n \<le> length (mbuf_data (snd b))" for b n
    using that by (simp add: heap_ok_def mbuf_drop_def mbuf_remove_ok)
next
  show "mbuf_drop b n = b" if "heap_ok b" "length (mbuf_data (snd b)) < n" for b n
    using that by (cases b) (simp add: heap_ok_def mbuf_drop_def mbuf_remove_def)
qed

section \<open>An allocator with room\<close>

text \<open>Every block of less than \<open>2 ^ 62\<close> bytes is there, in the lower half of the address space.\<close>

definition ample :: "reallocator \<Rightarrow> bool" where
  "ample ra \<longleftrightarrow> ra_ok ra \<and> (\<forall>n. 0 < n \<and> n < 2 ^ 62 \<longrightarrow> ra n \<noteq> None)
     \<and> (\<forall>n addr junk. ra n = Some (addr, junk) \<longrightarrow> addr < 2 ^ 63)"

definition ample_heap :: "reallocator \<times> mbuf \<Rightarrow> bool" where
  "ample_heap m \<longleftrightarrow> heap_ok m \<and> ample (fst m) \<and> mb_addr (snd m) < 2 ^ 63"

lemma mbuf_insert_addr:
  "mbuf_insert ra a off src len = Inr (a', n) \<Longrightarrow>
     mb_addr a' = mb_addr a \<or> (\<exists>k junk. ra k = Some (mb_addr a', junk))"
  unfolding mbuf_insert_def guard_res_def Let_def
  by (auto split: if_splits option.splits prod.splits)

lemma mbuf_put_ample:
  assumes "ample_heap m" and "mbuf_put m xs = Inr (m', n)" and "heap_ok m'"
  shows "ample_heap m'"
proof -
  obtain a where a: "mbuf_insert (fst m) (snd m) (mb_len (snd m)) (Some xs) (length xs) = Inr (a, n)" "m' = (fst m, a)"
    using assms(2) by (auto simp: mbuf_put_def mbuf_append_def rbind_eq_Inr_iff)
  from mbuf_insert_addr [OF a(1)] have "mb_addr a < 2 ^ 63"
    using assms(1) by (auto simp: ample_heap_def ample_def)
  then show ?thesis using assms(1,3) by (simp add: ample_heap_def a(2))
qed

interpretation room: byte_buffer "\<lambda>m. mbuf_data (snd m)" ample_heap mbuf_put mbuf_drop
proof unfold_locales
  show "mbuf_put b xs = Inr (b, 0)
     \<or> (\<exists>b'. mbuf_put b xs = Inr (b', length xs) \<and> ample_heap b' \<and> mbuf_data (snd b') = mbuf_data (snd b) @ xs)"
    if "ample_heap b" "length (mbuf_data (snd b)) + length xs < 2 ^ 64" for b xs
    using mb.append_law [of b xs] mbuf_put_ample [OF that(1), of xs] that by (auto simp: ample_heap_def)
next
  show "ample_heap (mbuf_drop b n) \<and> mbuf_data (snd (mbuf_drop b n)) = drop n (mbuf_data (snd b))"
    if "ample_heap b" "n \<le> length (mbuf_data (snd b))" for b n
    using mb.remove_law [of b n] that by (auto simp: ample_heap_def mbuf_drop_def mbuf_remove_def)
next
  show "mbuf_drop b n = b" if "ample_heap b" "length (mbuf_data (snd b)) < n" for b n
    using mb.remove_more [of b n] that by (simp add: ample_heap_def)
qed

lemma ample_put_stores:
  assumes "ample_heap m" and "length (mbuf_data (snd m)) + length xs \<le> 2 ^ 62 - 1"
  shows "mbuf_put m xs \<noteq> Inr (m, 0) \<or> xs = []"
proof (cases "xs = []")
  case False
  have ok: "mbuf_ok (snd m)" "ra_ok (fst m)" "ample (fst m)" "mb_addr (snd m) < 2 ^ 63"
    using assms(1) by (simp_all add: ample_heap_def heap_ok_def)
  let ?n = "mb_len (snd m) + length xs"
  have n: "?n < 2 ^ 62" using assms(2) ok(1) by simp
  then have "?n < 2 ^ 64" "fst m ?n \<noteq> None" using ok(3) False by (simp_all add: ample_def)
  moreover have "\<not> size_max - mb_addr (snd m) < length xs" using n ok(4) by (simp add: size_max_def)
  ultimately show ?thesis
    using mbuf_insert_cases [OF ok(1) order_refl order_refl _ ok(2), of xs] False
    by (auto simp: mbuf_put_def mbuf_append_def)
qed simp

lemma ample_append_all:
  assumes "ample ra" and "length (concat xss) < 2 ^ 62"
  shows "\<exists>a. append_all mbuf_put (ra, mbuf_init ra 0) xss = Inr (ra, a) \<and> mbuf_data a = concat xss
    \<and> ample_heap (ra, a)"
proof -
  have fst_put: "append_all mbuf_put m ys = Inr m' \<Longrightarrow> fst m' = fst m" for m ys m'
  proof (induction ys arbitrary: m)
    case (Cons y ys)
    then show ?case by (auto simp: mbuf_put_def rbind_eq_Inr_iff)
  qed simp
  let ?m = "(ra, mbuf_init ra 0)"
  have ok: "ample_heap ?m" and d: "mbuf_data (snd ?m) = []"
    using assms(1) by (simp_all add: ample_heap_def heap_ok_def mbuf_ok_def mbuf_init_def mbuf_resize_def ample_def mbuf_data_def)
  have "length (mbuf_data (snd ?m)) + length (concat xss) \<le> 2 ^ 62 - 1" using assms(2) d by simp
  from room.append_all_data [OF ok this _ ample_put_stores] obtain m' where
    "append_all mbuf_put ?m xss = Inr m'" "ample_heap m'" "mbuf_data (snd m') = concat xss" using d by auto
  with fst_put [of ?m xss m'] show ?thesis by (cases m') auto
qed

section \<open>Properties\<close>

text \<open>
  C30. The growable buffer is a byte queue: however a client appends and removes, whatever
  the allocator gives or refuses, no operation fails, the buffer stays consistent (the
  block has the recorded size, the data is inside it), each append stores all its bytes or
  none, as its result says, and the data is that of the same operations on a list. Trimming
  or resizing changes no data.
\<close>

theorem mbuf_refines_list:
  assumes "ra_ok ra" and "mbuf_ok a" and "mb_len a + sum_list (map put_bytes ops) < 2 ^ 64"
  shows "(\<exists>a' ns. buf_run mbuf_put mbuf_drop (ra, a) ops = Inr ((ra, a'), ns) \<and> mbuf_ok a'
       \<and> mbuf_data a' = list_run (mbuf_data a) ops ns
       \<and> list_all2 (\<lambda>n xs. n = 0 \<or> n = length xs) ns [xs. Put xs \<leftarrow> ops])
    \<and> mbuf_ok (mbuf_trim ra a) \<and> mbuf_data (mbuf_trim ra a) = mbuf_data a
    \<and> mbuf_ok (mbuf_resize ra a n) \<and> mbuf_data (mbuf_resize ra a n) = mbuf_data a"
proof -
  have fix_ra: "buf_run mbuf_put mbuf_drop m os = Inr (m', ns) \<Longrightarrow> fst m' = fst m" for m os m' ns
  proof (induction os arbitrary: m ns)
    case (Cons x os)
    then show ?case
      by (cases x) (auto simp: mbuf_put_def mbuf_drop_def rbind_eq_Inr_iff)
  qed simp
  have "heap_ok (ra, a)" using assms(1,2) by (simp add: heap_ok_def)
  moreover have "length (mbuf_data (snd (ra, a))) + sum_list (map put_bytes ops) < 2 ^ 64"
    using assms(2,3) by simp
  ultimately obtain m ns where "buf_run mbuf_put mbuf_drop (ra, a) ops = Inr (m, ns)" "heap_ok m"
    "mbuf_data (snd m) = list_run (mbuf_data (snd (ra, a))) ops ns"
    "list_all2 (\<lambda>n xs. n = 0 \<or> n = length xs) ns [xs. Put xs \<leftarrow> ops]"
    using mb.run_refines by blast
  then show ?thesis
    using fix_ra [of "(ra, a)" ops m ns] mbuf_resize_ok [OF assms(2,1)]
    by (cases m) (auto simp: heap_ok_def mbuf_trim_def)
qed

text \<open>An allocator that gives blocks of at most 100 bytes.\<close>

definition ex_ra :: reallocator where
  "ex_ra n = (if n \<le> 100 then Some (4096, \<lambda>i. 0) else None)"

definition ex_ops :: "buf_op list" where
  "ex_ops = [Put [1, 2, 3], Drop 1, Put [4]]"

theorem mbuf_refines_list_witness:
  "\<exists>a' ns. buf_run mbuf_put mbuf_drop (ex_ra, mbuf_init ex_ra 0) ex_ops = Inr ((ex_ra, a'), ns)
     \<and> mbuf_ok a' \<and> mbuf_data a' = list_run [] ex_ops ns"
proof -
  have i: "mbuf_ok (mbuf_init ex_ra 0)" "mb_len (mbuf_init ex_ra 0) = 0" "mbuf_data (mbuf_init ex_ra 0) = []"
    by (simp_all add: mbuf_init_def mbuf_resize_def mbuf_ok_def mbuf_data_def)
  moreover have "ra_ok ex_ra" by (auto simp: ra_ok_def ex_ra_def size_max_def)
  moreover have "mb_len (mbuf_init ex_ra 0) + sum_list (map put_bytes ex_ops) < 2 ^ 64" by (simp add: i ex_ops_def)
  ultimately show ?thesis using mbuf_refines_list [of ex_ra "mbuf_init ex_ra 0" ex_ops 0] by auto
qed

end
