(* ===== verification/MgUri.thy ===== *)
theory MgUri
  imports MgHttp MgMbuf
begin

text \<open>
  URIs in mongoose: the parser \<open>mg_parse_uri\<close> as the state machine that it is,
  \<open>mg_normalize_uri_path\<close>, and \<open>mg_assemble_uri\<close>, which writes into a growable buffer.
\<close>

section \<open>Scanning\<close>

text \<open>The position of the first character from \<open>p\<close> on at which a scan stops, or the end.\<close>

definition scan_until :: "(char \<Rightarrow> bool) \<Rightarrow> string \<Rightarrow> nat \<Rightarrow> nat" where
  "scan_until stop u p = p + length (takeWhile (\<lambda>c. \<not> stop c) (drop p u))"

definition parse_uri_component :: "string \<Rightarrow> nat \<Rightarrow> string \<Rightarrow> nat \<times> mg_str" where
  "parse_uri_component u p seps =
     (let q = scan_until (\<lambda>c. c \<in> set seps) u p in (if q < length u then q + 1 else q, ms_at p (q - p)))"

section \<open>The parser\<close>

datatype uri_state = P_START | P_SCHEME_OR_PORT | P_USER_INFO | P_HOST | P_PORT | P_REST

text \<open>The local variables of \<open>mg_parse_uri\<close>.\<close>

record uri_st =
  us_state :: uri_state
  us_p :: nat
  us_scheme :: mg_str
  us_user_info :: mg_str
  us_host :: mg_str
  us_port :: u32
  us_path :: mg_str
  us_query :: mg_str
  us_fragment :: mg_str

definition uri_init :: uri_st where
  "uri_init = \<lparr>us_state = P_START, us_p = 0, us_scheme = ms_null, us_user_info = ms_null, us_host = ms_null,
     us_port = 0, us_path = ms_null, us_query = ms_null, us_fragment = ms_null\<rparr>"

text \<open>\<open>rport *= 10; rport += *p - '0'\<close> on an \<open>unsigned\<close>; \<open>char\<close> is signed.\<close>

definition port_digit :: "u32 \<Rightarrow> char \<Rightarrow> u32" where
  "port_digit r c = r * 10 + of_int ((if char_code c < 128 then int (char_code c) else int (char_code c) - 256) - 48)"

text \<open>The character at \<open>p\<close>, which may be the one behind the URI, \<open>nxt\<close>.\<close>

definition char_at :: "string \<Rightarrow> char \<Rightarrow> nat \<Rightarrow> char" where
  "char_at u nxt p = (if p < length u then u ! p else nxt)"

text \<open>The body of the loop, one case per state; \<open>None\<close> is \<open>return -1\<close>.\<close>

definition start_step :: "string \<Rightarrow> uri_st \<Rightarrow> uri_st" where
  "start_step u s =
     (if u ! us_p s = CHR ''['' then s\<lparr>us_state := P_HOST\<rparr>
      else
        let p = scan_until (\<lambda>c. c = CHR '':'' \<or> c = CHR ''/'') u (us_p s) in
        if p < length u \<and> u ! p = CHR '':'' then s\<lparr>us_p := p, us_state := P_SCHEME_OR_PORT\<rparr>
        else s\<lparr>us_p := p, us_state := (if p < length u then P_REST else P_START), us_host := ms_at 0 p\<rparr>)"

definition scheme_step :: "string \<Rightarrow> uri_st \<Rightarrow> uri_st" where
  "scheme_step u s =
     (if length u - us_p s \<ge> 3 \<and> take 3 (drop (us_p s) u) = ''://'' then
        s\<lparr>us_scheme := ms_at 0 (us_p s), us_state := P_USER_INFO, us_p := us_p s + 3\<rparr>
      else s\<lparr>us_host := ms_at 0 (us_p s), us_state := P_PORT\<rparr>)"

definition user_step :: "string \<Rightarrow> uri_st \<Rightarrow> uri_st" where
  "user_step u s =
     (let q = scan_until (\<lambda>c. c = CHR ''@'' \<or> c = CHR ''['' \<or> c = CHR ''/'') u (us_p s);
          p = (if q = length u \<or> u ! q = CHR ''/'' \<or> u ! q = CHR ''['' then us_p s else q)
      in s\<lparr>us_user_info := ms_at (us_p s) (p - us_p s), us_p := p, us_state := P_HOST\<rparr>)"

definition host_step :: "string \<Rightarrow> char \<Rightarrow> uri_st \<Rightarrow> uri_st option" where
  "host_step u nxt s =
     (let p0 = (if u ! us_p s = CHR ''@'' then us_p s + 1 else us_p s);
          bracket = (char_at u nxt p0 = CHR ''['');
          q = scan_until (\<lambda>c. c = CHR '']'') u p0
      in if bracket \<and> length u \<le> q then None
         else
           let p = (if bracket then q + 1 else scan_until (\<lambda>c. c = CHR '':'' \<or> c = CHR ''/'') u p0)
           in Some (s\<lparr>us_host := ms_at p0 (p - p0), us_p := p,
                us_state := (if p < length u \<and> u ! p = CHR '':'' then P_PORT
                             else if p < length u \<and> u ! p = CHR ''/'' then P_REST else P_HOST)\<rparr>))"

definition port_step :: "string \<Rightarrow> uri_st \<Rightarrow> uri_st" where
  "port_step u s =
     (let p0 = us_p s + 1; p = scan_until (\<lambda>c. c = CHR ''/'') u p0
      in s\<lparr>us_port := foldl port_digit (us_port s) (take (p - p0) (drop p0 u)), us_p := p,
           us_state := (if p < length u then P_REST else P_PORT)\<rparr>)"

definition rest_step :: "string \<Rightarrow> uri_st \<Rightarrow> uri_st" where
  "rest_step u s =
     (let (p1, path) = parse_uri_component u (us_p s) ''?#'';
          (p2, query) = (if p1 < length u \<and> u ! (p1 - 1) = CHR ''?'' then parse_uri_component u p1 ''#'' else (p1, us_query s));
          (p3, fragment) = parse_uri_component u p2 ''''
      in s\<lparr>us_path := path, us_query := query, us_fragment := fragment, us_p := p3\<rparr>)"

definition uri_step :: "string \<Rightarrow> char \<Rightarrow> uri_st \<Rightarrow> uri_st option" where
  "uri_step u nxt s =
     (case us_state s of
        P_START \<Rightarrow> Some (start_step u s)
      | P_SCHEME_OR_PORT \<Rightarrow> Some (scheme_step u s)
      | P_USER_INFO \<Rightarrow> Some (user_step u s)
      | P_HOST \<Rightarrow> host_step u nxt s
      | P_PORT \<Rightarrow> Some (port_step u s)
      | P_REST \<Rightarrow> Some (rest_step u s))"

text \<open>The loop ends: a step moves on in the URI, or goes to a later state.\<close>

fun state_rank :: "uri_state \<Rightarrow> nat" where
  "state_rank P_START = 5"
| "state_rank P_SCHEME_OR_PORT = 4"
| "state_rank P_USER_INFO = 3"
| "state_rank P_HOST = 2"
| "state_rank P_PORT = 1"
| "state_rank P_REST = 0"

lemma scan_until_ge [simp]: "p \<le> scan_until stop u p"
  by (simp add: scan_until_def)

lemma scan_until_moves: "p < length u \<Longrightarrow> \<not> stop (u ! p) \<Longrightarrow> p < scan_until stop u p"
  by (simp add: scan_until_def Cons_nth_drop_Suc [symmetric])

lemma component_moves: "p < length u \<Longrightarrow> p < fst (parse_uri_component u p seps)"
  by (auto simp: parse_uri_component_def Let_def intro: le_imp_less_Suc)

lemma component_ge: "p \<le> fst (parse_uri_component u p seps)"
  by (auto simp: parse_uri_component_def Let_def intro: le_SucI)

lemma rest_moves:
  assumes "us_p s < length u"
  shows "us_p s < us_p (rest_step u s)"
proof -
  obtain p1 a where 1: "parse_uri_component u (us_p s) ''?#'' = (p1, a)" by fastforce
  obtain p2 q where 2: "(if p1 < length u \<and> u ! (p1 - 1) = CHR ''?'' then parse_uri_component u p1 ''#''
      else (p1, us_query s)) = (p2, q)" by fastforce
  obtain p3 f where 3: "parse_uri_component u p2 '''' = (p3, f)" by fastforce
  have "us_p s < p1" using component_moves [OF assms, of "''?#''"] 1 by simp
  also have "p1 \<le> p2" using 2 component_ge [of p1 u "''#''"] by (auto split: if_splits)
  also have "p2 \<le> p3" using 3 component_ge [of p2 u "''''"] by simp
  finally show ?thesis unfolding rest_step_def Let_def 1 split_conv 2 3 by simp
qed

lemma host_moves:
  assumes "us_p s < length u" and "host_step u nxt s = Some s'"
  shows "us_p s < us_p s' \<or> (us_p s' = us_p s \<and> us_state s' \<in> {P_PORT, P_REST})"
proof -
  let ?p0 = "if u ! us_p s = CHR ''@'' then us_p s + 1 else us_p s"
  let ?q = "scan_until (\<lambda>c. c = CHR '']'') u ?p0" and ?r = "scan_until (\<lambda>c. c = CHR '':'' \<or> c = CHR ''/'') u ?p0"
  let ?b = "char_at u nxt ?p0 = CHR ''[''"
  have p: "us_p s' = (if ?b then ?q + 1 else ?r)"
    and st: "us_state s' = (if us_p s' < length u \<and> u ! us_p s' = CHR '':'' then P_PORT
      else if us_p s' < length u \<and> u ! us_p s' = CHR ''/'' then P_REST else P_HOST)"
    using assms(2) unfolding host_step_def Let_def by (auto split: if_splits)
  have p0: "us_p s \<le> ?p0" by simp
  show ?thesis
  proof (cases "?b \<or> u ! us_p s = CHR ''@''")
    case True
    then have "us_p s < us_p s'"
    proof
      assume "?b"
      then have "us_p s' = ?q + 1" using p by simp
      then show ?thesis using order_trans [OF p0 scan_until_ge [of ?p0 "\<lambda>c. c = CHR '']''" u]] by simp
    next
      assume a: "u ! us_p s = CHR ''@''"
      then have "us_p s + 1 \<le> us_p s'" using p le_SucI [OF scan_until_ge [of "us_p s + 1"]] by simp
      then show ?thesis by simp
    qed
    then show ?thesis ..
  next
    case False
    then have "\<not> ?b" "u ! us_p s \<noteq> CHR ''@''" by blast+
    then have "us_p s' = scan_until (\<lambda>c. c = CHR '':'' \<or> c = CHR ''/'') u (us_p s)" using p by (simp only: if_False)
    moreover have "us_p s < scan_until (\<lambda>c. c = CHR '':'' \<or> c = CHR ''/'') u (us_p s)
        \<or> (us_p s = scan_until (\<lambda>c. c = CHR '':'' \<or> c = CHR ''/'') u (us_p s) \<and> (u ! us_p s = CHR '':'' \<or> u ! us_p s = CHR ''/''))"
      using Cons_nth_drop_Suc [OF assms(1), symmetric] by (auto simp: scan_until_def)
    ultimately show ?thesis using assms(1) st by auto
  qed
qed

lemma step_measure:
  assumes "us_p s < length u" and "uri_step u nxt s = Some s'"
  shows "6 * (length u - us_p s') + state_rank (us_state s') < 6 * (length u - us_p s) + state_rank (us_state s)
    \<or> length u \<le> us_p s'"
proof -
  have far: ?thesis if "us_p s < us_p s'"
  proof -
    have "state_rank (us_state s') \<le> 5" by (cases "us_state s'") simp_all
    then show ?thesis using that assms(1) by linarith
  qed
  have near: ?thesis if "us_p s \<le> us_p s'" "state_rank (us_state s') < state_rank (us_state s)"
    using that by linarith
  show ?thesis
  proof (cases "us_state s")
    case P_START
    then have s': "s' = start_step u s" using assms(2) by (simp add: uri_step_def)
    let ?p = "scan_until (\<lambda>c. c = CHR '':'' \<or> c = CHR ''/'') u (us_p s)"
    show ?thesis
    proof (cases "u ! us_p s = CHR ''[''")
      case True
      then show ?thesis using s' P_START by (intro near) (simp_all add: start_step_def)
    next
      case False
      then have p: "us_p s' = ?p" "?p < length u \<Longrightarrow> us_state s' = P_SCHEME_OR_PORT \<or> us_state s' = P_REST"
        using s' by (auto simp: start_step_def Let_def)
      have le: "us_p s \<le> us_p s'" unfolding p(1) by (rule scan_until_ge)
      show ?thesis
      proof (cases "?p < length u")
        case True
        from p(2) [OF this] show ?thesis by (intro near [OF le]) (auto simp: P_START)
      qed (simp add: p(1))
    qed
  next
    case P_SCHEME_OR_PORT
    then show ?thesis using assms(2) by (intro near) (auto simp: uri_step_def scheme_step_def)
  next
    case P_USER_INFO
    then show ?thesis using assms(2) by (intro near) (auto simp: uri_step_def user_step_def Let_def)
  next
    case P_HOST
    then have "host_step u nxt s = Some s'" using assms(2) by (simp add: uri_step_def)
    from host_moves [OF assms(1) this] show ?thesis
    proof
      assume "us_p s' = us_p s \<and> us_state s' \<in> {P_PORT, P_REST}"
      then show ?thesis using P_HOST by (intro near) auto
    qed (rule far)
  next
    case P_PORT
    then have "us_p s < us_p s'" using assms(2) scan_until_ge [of "us_p s + 1"]
      by (auto simp: uri_step_def port_step_def Let_def Suc_le_eq [symmetric])
    then show ?thesis by (rule far)
  next
    case P_REST
    then show ?thesis using assms rest_moves [OF assms(1)] by (intro far) (auto simp: uri_step_def)
  qed
qed

function uri_loop :: "string \<Rightarrow> char \<Rightarrow> uri_st \<Rightarrow> uri_st option" where
  "uri_loop u nxt s =
     (if us_p s < length u then
        (case uri_step u nxt s of None \<Rightarrow> None | Some s' \<Rightarrow> uri_loop u nxt s')
      else Some s)"
  by pat_completeness auto

termination
  by (relation "measure (\<lambda>(u, nxt, s). if us_p s < length u then Suc (6 * (length u - us_p s) + state_rank (us_state s)) else 0)")
    (use step_measure in fastforce)+

declare uri_loop.simps [simp del]

text \<open>The result and the components, in the order of the output parameters.\<close>

definition mg_parse_uri :: "string \<Rightarrow> char \<Rightarrow> uri_st option" where
  "mg_parse_uri u nxt = uri_loop u nxt uri_init"

section \<open>Normalising a path\<close>

text \<open>Back to the slash before the last component of what has been written.\<close>

definition drop_component :: "string \<Rightarrow> string" where
  "drop_component d =
     (let d1 = (if length d > 1 \<and> last d = CHR ''/'' then butlast d else d)
      in rev (dropWhile (\<lambda>c. c \<noteq> CHR ''/'') (rev d1)))"

text \<open>The loop: \<open>d\<close> is what has been written, \<open>s\<close> the rest of the input.\<close>

function normalize_loop :: "string \<Rightarrow> string \<Rightarrow> string" where
  "normalize_loop d s =
     (if s = [] then d
      else
        let component = takeWhile (\<lambda>c. c \<noteq> CHR ''/'') s;
            n = (if length component < length s then length component + 1 else length component)
        in if component = ''.'' then normalize_loop d (drop n s)
           else if component = ''..'' then normalize_loop (drop_component d) (drop n s)
           else normalize_loop (d @ take n s) (drop n s))"
  by pat_completeness auto

termination
  by (relation "measure (\<lambda>(d, s). length s)") auto

declare normalize_loop.simps [simp del]

definition mg_normalize_uri_path :: "string \<Rightarrow> string option" where
  "mg_normalize_uri_path path =
     (if path = [] \<or> hd path \<noteq> CHR ''/'' then None
      else let d = normalize_loop [] path in Some (if d = [] then ''/'' else d))"

section \<open>Assembling\<close>

definition string_bytes :: "string \<Rightarrow> u8 list" where
  "string_bytes s = map (\<lambda>c. of_nat (char_code c)) s"

text \<open>
  The strings appended before the path, for the path, and after it; a null pointer is treated
  as an empty string. \<open>dup\<close> says whether \<open>mg_strdup\<close> has memory. \<open>None\<close> is \<open>goto out\<close>.
\<close>

definition head_pieces :: "string \<Rightarrow> string \<Rightarrow> string \<Rightarrow> u32 \<Rightarrow> string list" where
  "head_pieces scheme user host port =
     (if scheme \<noteq> [] then [scheme, ''://''] else []) @ (if user \<noteq> [] then [user, ''@''] else [])
     @ (if host \<noteq> [] then [host] else []) @ (if port \<noteq> 0 then [CHR '':'' # show_nat (unat port)] else [])"

definition path_pieces :: "bool \<Rightarrow> string \<Rightarrow> bool \<Rightarrow> string list option" where
  "path_pieces dup path nrm =
     (if path \<noteq> [] then
        (if nrm then
           (if \<not> dup then None else map_option (\<lambda>np. [np]) (mg_normalize_uri_path path))
         else Some [path])
      else if nrm then Some [''/''] else Some [])"

definition tail_pieces :: "string \<Rightarrow> string \<Rightarrow> string list" where
  "tail_pieces query fragment =
     (if query \<noteq> [] then [''?'', query] else []) @ (if fragment \<noteq> [] then [''#'', fragment] else [])"

definition mg_assemble_uri :: "reallocator \<Rightarrow> bool \<Rightarrow> string \<Rightarrow> string \<Rightarrow> string \<Rightarrow> u32 \<Rightarrow> string \<Rightarrow> string \<Rightarrow> string
    \<Rightarrow> bool \<Rightarrow> (int \<times> mbuf) res" where
  "mg_assemble_uri ra dup scheme user host port path query fragment nrm =
     rbind (append_all mbuf_put (ra, mbuf_init ra 0) (map string_bytes (head_pieces scheme user host port))) (\<lambda>m.
       case path_pieces dup path nrm of
         None \<Rightarrow> Inr (- 1, mbuf_free ra (snd m))
       | Some ps \<Rightarrow> rbind (append_all mbuf_put m (map string_bytes (ps @ tail_pieces query fragment)))
           (\<lambda>m'. Inr (0, snd m')))"

section \<open>Paths as components\<close>

text \<open>
  The path as the list of its components, each with the slash behind it; a component named by
  one dot is dropped, two dots take the one before away, except the root.
\<close>

fun split_slashes :: "string \<Rightarrow> string list" where
  "split_slashes [] = []"
| "split_slashes (c # s) =
     (if c = CHR ''/'' then [c] # split_slashes s
      else case split_slashes s of [] \<Rightarrow> [[c]] | x # xs \<Rightarrow> (c # x) # xs)"

definition is_dot :: "string \<Rightarrow> bool" where
  "is_dot x \<longleftrightarrow> x = ''.'' \<or> x = ''./''"

definition is_dots :: "string \<Rightarrow> bool" where
  "is_dots x \<longleftrightarrow> x = ''..'' \<or> x = ''../''"

definition walk :: "string list \<Rightarrow> string \<Rightarrow> string list" where
  "walk xs x = (if is_dot x then xs else if is_dots x then (if length xs \<le> 1 then xs else butlast xs) else xs @ [x])"

definition resolve :: "string list \<Rightarrow> string list" where
  "resolve xs = foldl walk [] xs"

definition component :: "string \<Rightarrow> bool" where
  "component x \<longleftrightarrow> x \<noteq> [] \<and> CHR ''/'' \<notin> set (butlast x)"

definition slashed :: "string \<Rightarrow> bool" where
  "slashed x \<longleftrightarrow> component x \<and> last x = CHR ''/''"

lemma split_first:
  assumes "s \<noteq> []"
  defines "w \<equiv> takeWhile (\<lambda>c. c \<noteq> CHR ''/'') s"
  defines "n \<equiv> (if length w < length s then length w + 1 else length w)"
  shows "split_slashes s = take n s # split_slashes (drop n s)"
    and "take n s = w \<or> take n s = w @ ''/''" and "take n s = w \<Longrightarrow> drop n s = []" and "component (take n s)"
proof -
  have sp: "s = w @ drop (length w) s" unfolding w_def by (simp add: dropWhile_eq_drop [symmetric])
  have nw: "CHR ''/'' \<notin> set w" unfolding w_def by (auto dest: set_takeWhileD)
  have plain: "split_slashes (v @ r) = (case split_slashes r of [] \<Rightarrow> [v] | x # xs \<Rightarrow> (v @ x) # xs)"
    if "CHR ''/'' \<notin> set v" "v \<noteq> []" for v r
    using that(2,1) by (induction v rule: list_nonempty_induct) (auto split: list.splits)
  show all: "split_slashes s = take n s # split_slashes (drop n s)" and "take n s = w \<or> take n s = w @ ''/''"
    and "take n s = w \<Longrightarrow> drop n s = []" and "component (take n s)"
  proof -
    consider (out) "drop (length w) s = []" | (slash) r where "drop (length w) s = CHR ''/'' # r"
    proof (cases "drop (length w) s")
      case (Cons c r)
      then have "dropWhile (\<lambda>c. c \<noteq> CHR ''/'') s = c # r" unfolding w_def by (simp add: dropWhile_eq_drop)
      then have "c = CHR ''/''" by (metis (mono_tags, lifting) hd_dropWhile list.distinct(1) list.sel(1))
      then show ?thesis using Cons slash by simp
    qed (rule out)
    then have "split_slashes s = take n s # split_slashes (drop n s) \<and> (take n s = w \<or> take n s = w @ ''/'')
      \<and> (take n s = w \<longrightarrow> drop n s = []) \<and> component (take n s)"
    proof cases
      case out
      then have "s = w" "n = length w" using sp by (simp_all add: n_def)
      moreover from this have "split_slashes s = [w]" using plain [OF nw, of "[]"] assms(1) by simp
      ultimately show ?thesis using assms(1) nw by (auto simp: component_def dest: in_set_butlastD)
    next
      case slash
      then have s: "s = w @ CHR ''/'' # r" using sp by simp
      then have n: "n = length w + 1" by (simp add: n_def)
      then have "take n s = w @ ''/''" "drop n s = r" by (simp_all add: s)
      moreover have "split_slashes s = (w @ ''/'') # split_slashes r"
        using plain [OF nw, of "CHR ''/'' # r"] by (cases "w = []") (simp_all add: s)
      ultimately show ?thesis using nw by (auto simp: component_def butlast_append)
    qed
    then show "split_slashes s = take n s # split_slashes (drop n s)" "take n s = w \<or> take n s = w @ ''/''"
      "take n s = w \<Longrightarrow> drop n s = []" "component (take n s)" by blast+
  qed
qed

lemma slashed_iff: "slashed x \<longleftrightarrow> (\<exists>w. x = w @ ''/'' \<and> CHR ''/'' \<notin> set w)"
proof
  assume "slashed x"
  then have "x = butlast x @ [last x]" "last x = CHR ''/''" "CHR ''/'' \<notin> set (butlast x)"
    using append_butlast_last_id [of x] by (auto simp: slashed_def component_def)
  then show "\<exists>w. x = w @ ''/'' \<and> CHR ''/'' \<notin> set w" by metis
qed (auto simp: slashed_def component_def butlast_append)

text \<open>The first step: the component read, how it is named, what follows.\<close>

lemma split_step:
  assumes "s \<noteq> []"
  defines "w \<equiv> takeWhile (\<lambda>c. c \<noteq> CHR ''/'') s"
  defines "n \<equiv> (if length w < length s then length w + 1 else length w)"
  shows "is_dot (take n s) \<longleftrightarrow> w = ''.''" and "is_dots (take n s) \<longleftrightarrow> w = ''..''"
    and "drop n s \<noteq> [] \<Longrightarrow> slashed (take n s)"
proof -
  note f = split_first [OF assms(1), folded w_def, folded n_def]
  have nw: "CHR ''/'' \<notin> set w" unfolding w_def by (auto dest: set_takeWhileD)
  then have ne: "w \<noteq> ''./''" "w \<noteq> ''../''" by auto
  show "is_dot (take n s) \<longleftrightarrow> w = ''.''" "is_dots (take n s) \<longleftrightarrow> w = ''..''"
    using f(2) ne by (auto simp: is_dot_def is_dots_def append_eq_Cons_conv)
  show "slashed (take n s)" if "drop n s \<noteq> []" using f(2,3) that nw by (auto simp: slashed_iff)
qed

lemma drop_component_concat:
  assumes "list_all slashed xs" and "xs \<noteq> []" and "hd xs = ''/''"
  shows "drop_component (concat xs) = concat (if length xs \<le> 1 then xs else butlast xs)"
proof (cases xs rule: rev_cases)
  case (snoc ys y)
  obtain w where y: "y = w @ ''/''" "CHR ''/'' \<notin> set w" using assms(1) snoc by (auto simp: slashed_iff)
  show ?thesis
  proof (cases ys rule: rev_cases)
    case Nil
    then show ?thesis using snoc assms(3) by (simp add: drop_component_def)
  next
    case s: (snoc zs z)
    obtain v where z: "z = v @ ''/''" using assms(1) snoc s by (auto simp: slashed_iff)
    have "concat xs = (concat zs @ v @ ''/'') @ w @ ''/''" using snoc s y z by simp
    moreover have "dropWhile (\<lambda>c. c \<noteq> CHR ''/'') (rev w @ CHR ''/'' # r) = CHR ''/'' # r" for r
      using y(2) by (subst dropWhile_append2) auto
    ultimately have "drop_component (concat xs) = concat zs @ v @ ''/''"
      by (simp add: drop_component_def butlast_append)
    then show ?thesis using snoc s z by (simp add: butlast_append)
  qed
qed (use assms(2) in simp)

lemma normalize_loop_walk:
  assumes "xs \<noteq> []" and "hd xs = ''/''" and "s \<noteq> [] \<Longrightarrow> list_all slashed xs"
  shows "normalize_loop (concat xs) s = concat (foldl walk xs (split_slashes s))"
  using assms
proof (induction "length s" arbitrary: xs s rule: less_induct)
  case less
  show ?case
  proof (cases "s = []")
    case True
    then show ?thesis by (simp add: normalize_loop.simps)
  next
    case False
    let ?w = "takeWhile (\<lambda>c. c \<noteq> CHR ''/'') s"
    let ?n = "if length ?w < length s then length ?w + 1 else length ?w"
    note f = split_first [OF False] and st = split_step [OF False]
    have len: "length (drop ?n s) < length s"
      using f(4) False by (cases "take ?n s = []") (auto simp: component_def)
    have sl: "list_all slashed xs" using less.prems(3) False by simp
    have step: "normalize_loop (concat xs) s = normalize_loop (concat (walk xs (take ?n s))) (drop ?n s)"
    proof -
      consider "?w = ''.''" | "?w = ''..''" | "?w \<noteq> ''.''" "?w \<noteq> ''..''" by blast
      then show ?thesis
      proof cases
        case 1
        then show ?thesis using False st(1) by (subst normalize_loop.simps) (simp add: walk_def Let_def)
      next
        case 2
        then have "\<not> is_dot (take ?n s)" "is_dots (take ?n s)" using st by simp_all
        then show ?thesis using False 2 drop_component_concat [OF sl less.prems(1,2)]
          by (subst normalize_loop.simps) (simp add: walk_def Let_def)
      next
        case 3
        then have "\<not> is_dot (take ?n s)" "\<not> is_dots (take ?n s)" using st by simp_all
        then show ?thesis using False 3 by (subst normalize_loop.simps) (simp add: walk_def Let_def)
      qed
    qed
    have inv: "walk xs (take ?n s) \<noteq> [] \<and> hd (walk xs (take ?n s)) = ''/''
        \<and> (drop ?n s \<noteq> [] \<longrightarrow> list_all slashed (walk xs (take ?n s)))"
    proof -
      have "butlast xs \<noteq> [] \<and> hd (butlast xs) = hd xs \<and> list_all slashed (butlast xs)" if "\<not> length xs \<le> 1"
        using that sl by (cases xs) (auto simp: list_all_iff dest: in_set_butlastD)
      then show ?thesis using less.prems(1,2) sl st(3) by (auto simp: walk_def)
    qed
    have "normalize_loop (concat (walk xs (take ?n s))) (drop ?n s)
        = concat (foldl walk (walk xs (take ?n s)) (split_slashes (drop ?n s)))"
      by (rule less.hyps [OF len]) (use inv in blast)+
    then show ?thesis using step f(1) by simp
  qed
qed

lemma split_component: "component x \<Longrightarrow> split_slashes x = [x]"
proof -
  assume c: "component x"
  let ?w = "takeWhile (\<lambda>c. c \<noteq> CHR ''/'') x"
  let ?n = "if length ?w < length x then length ?w + 1 else length ?w"
  have ne: "x \<noteq> []" using c by (simp add: component_def)
  have "length (butlast x) \<le> length ?w"
  proof -
    have "x = butlast x @ [last x]" using ne by simp
    moreover have "takeWhile (\<lambda>c. c \<noteq> CHR ''/'') (butlast x @ r) = butlast x @ takeWhile (\<lambda>c. c \<noteq> CHR ''/'') r" for r
      using c by (subst takeWhile_append2) (auto simp: component_def)
    ultimately show ?thesis by (metis le_add1 length_append)
  qed
  then have "drop ?n x = []" by (cases "length ?w < length x") auto
  moreover from this have "take ?n x = x" by simp
  ultimately show ?thesis using split_first(1) [OF ne] by simp
qed

lemma split_slashed: "slashed x \<Longrightarrow> split_slashes (x @ r) = x # split_slashes r"
proof -
  assume "slashed x"
  then obtain w where w: "x = w @ ''/''" "CHR ''/'' \<notin> set w" by (auto simp: slashed_iff)
  let ?s = "x @ r"
  have tw: "takeWhile (\<lambda>c. c \<noteq> CHR ''/'') ?s = w" using w(2) unfolding w(1) append.assoc by (subst takeWhile_append2) auto
  have "?s \<noteq> []" "length w < length ?s" using w by simp_all
  then show ?thesis using split_first(1) [of ?s] w tw by simp
qed

text \<open>A list of components that a path is split into.\<close>

definition path_list :: "string list \<Rightarrow> bool" where
  "path_list xs \<longleftrightarrow> list_all slashed (butlast xs) \<and> (xs \<noteq> [] \<longrightarrow> component (last xs))"

lemma split_concat: "path_list xs \<Longrightarrow> split_slashes (concat xs) = xs"
proof (induction xs)
  case (Cons x xs)
  show ?case
  proof (cases "xs = []")
    case True
    then show ?thesis using Cons.prems split_component [of x] by (simp add: path_list_def)
  next
    case False
    then have "slashed x" "path_list xs" using Cons.prems by (simp_all add: path_list_def)
    then show ?thesis using Cons.IH split_slashed [of x] by simp
  qed
qed simp

lemma path_list_split: "path_list (split_slashes s)"
proof (induction "length s" arbitrary: s rule: less_induct)
  case less
  show ?case
  proof (cases "s = []")
    case False
    let ?w = "takeWhile (\<lambda>c. c \<noteq> CHR ''/'') s"
    let ?n = "if length ?w < length s then length ?w + 1 else length ?w"
    note f = split_first [OF False] and st = split_step [OF False]
    have "length (drop ?n s) < length s"
      using f(4) False by (cases "take ?n s = []") (auto simp: component_def)
    from less.hyps [OF this] have ih: "path_list (split_slashes (drop ?n s))" .
    have e: "split_slashes (drop ?n s) = [] \<longleftrightarrow> drop ?n s = []"
      by (cases "drop ?n s") (auto split: list.splits)
    show ?thesis using ih f(4) st(3) e unfolding f(1) by (cases "drop ?n s = []") (auto simp: path_list_def)
  qed (simp add: path_list_def)
qed

definition no_dots :: "string list \<Rightarrow> bool" where
  "no_dots xs \<longleftrightarrow> (\<forall>x\<in>set xs. \<not> is_dot x \<and> \<not> is_dots x)"

lemma slashed_path_list: "list_all slashed xs \<Longrightarrow> path_list xs"
  by (cases xs rule: rev_cases) (simp_all add: path_list_def, simp add: slashed_def)

lemma slashed_path_snoc: "list_all slashed xs \<Longrightarrow> component y \<Longrightarrow> path_list (xs @ [y])"
  by (simp add: path_list_def)

lemma butlast_kept: "list_all slashed xs \<Longrightarrow> list_all slashed (butlast xs)" "no_dots xs \<Longrightarrow> no_dots (butlast xs)"
  by (auto simp: list_all_iff no_dots_def dest: in_set_butlastD)

text \<open>What the walk keeps: everything but the last component read ends in a slash.\<close>

lemma walk_path_list:
  assumes "list_all slashed xs" and "path_list ys" and "no_dots xs"
  shows "path_list (foldl walk xs ys) \<and> no_dots (foldl walk xs ys)"
  using assms
proof (induction ys arbitrary: xs)
  case Nil
  then show ?case by (simp add: slashed_path_list)
next
  case (Cons y ys)
  note b = butlast_kept(1) [OF Cons.prems(1)] butlast_kept(2) [OF Cons.prems(3)]
  have nd: "no_dots (walk xs y)" using Cons.prems(3) b(2) by (auto simp: walk_def no_dots_def)
  show ?case
  proof (cases "ys = []")
    case True
    then have "component y" using Cons.prems(2) by (simp add: path_list_def)
    then have "path_list (walk xs y)" using Cons.prems(1) b(1)
      by (simp add: walk_def slashed_path_list slashed_path_snoc)
    then show ?thesis using True nd by simp
  next
    case False
    then have "slashed y" "path_list ys" using Cons.prems(2) by (simp_all add: path_list_def)
    then have "list_all slashed (walk xs y)" using Cons.prems(1) b(1) by (auto simp: walk_def)
    from Cons.IH [OF this \<open>path_list ys\<close> nd] show ?thesis by simp
  qed
qed

lemma foldl_walk_no_dots: "no_dots ys \<Longrightarrow> foldl walk xs ys = xs @ ys"
  by (induction ys arbitrary: xs) (auto simp: walk_def no_dots_def)

lemma walk_keeps_head: "xs \<noteq> [] \<Longrightarrow> foldl walk xs ys \<noteq> [] \<and> hd (foldl walk xs ys) = hd xs"
proof (induction ys arbitrary: xs)
  case (Cons y ys)
  have "walk xs y \<noteq> [] \<and> hd (walk xs y) = hd xs" using Cons.prems by (cases xs) (auto simp: walk_def)
  then show ?case using Cons.IH [of "walk xs y"] by simp
qed simp

lemma normalize_rooted:
  assumes "hd path = CHR ''/''" and "path \<noteq> []"
  shows "mg_normalize_uri_path path = Some (concat (resolve (split_slashes path)))"
    and "resolve (split_slashes path) \<noteq> [] \<and> hd (resolve (split_slashes path)) = ''/''"
    and "path_list (resolve (split_slashes path)) \<and> no_dots (resolve (split_slashes path))"
proof -
  obtain s where p: "path = CHR ''/'' # s" using assms by (cases path) auto
  have d: "\<not> is_dot ''/''" "\<not> is_dots ''/''" by (simp_all add: is_dot_def is_dots_def)
  have r: "resolve (split_slashes path) = foldl walk [''/''] (split_slashes s)"
    by (simp add: p resolve_def walk_def d)
  have "normalize_loop [] path = normalize_loop (concat [''/'']) s"
    by (subst normalize_loop.simps) (simp add: p)
  also have "\<dots> = concat (resolve (split_slashes path))"
    unfolding r by (rule normalize_loop_walk) (simp_all add: slashed_def component_def)
  finally have n: "normalize_loop [] path = concat (resolve (split_slashes path))" .
  show h: "resolve (split_slashes path) \<noteq> [] \<and> hd (resolve (split_slashes path)) = ''/''"
    unfolding r using walk_keeps_head [of "[''/'']"] by simp
  show "path_list (resolve (split_slashes path)) \<and> no_dots (resolve (split_slashes path))"
    unfolding resolve_def by (rule walk_path_list) (simp_all add: path_list_split no_dots_def)
  have "concat (resolve (split_slashes path)) \<noteq> []" using h by (cases "resolve (split_slashes path)") auto
  then show "mg_normalize_uri_path path = Some (concat (resolve (split_slashes path)))"
    using assms unfolding mg_normalize_uri_path_def n Let_def by (simp only: if_False simp_thms)
qed

text \<open>
  C39. A path is normalised exactly if it begins with a slash: the result is the list of its
  components after the dots are resolved (a dot is dropped, two dots take away the component
  before them, never the root), joined again. The result begins with a slash, no component of
  it is named by one or two dots, and normalising it once more changes nothing.
\<close>

theorem normalize_resolves_dots:
  "mg_normalize_uri_path path =
     (if path = [] \<or> hd path \<noteq> CHR ''/'' then None else Some (concat (resolve (split_slashes path))))
   \<and> (path \<noteq> [] \<and> hd path = CHR ''/'' \<longrightarrow>
        (let out = concat (resolve (split_slashes path))
         in hd out = CHR ''/'' \<and> split_slashes out = resolve (split_slashes path)
            \<and> (\<forall>x\<in>set (split_slashes out). \<not> is_dot x \<and> \<not> is_dots x)
            \<and> mg_normalize_uri_path out = Some out))"
proof (cases "path = [] \<or> hd path \<noteq> CHR ''/''")
  case True
  then show ?thesis by (auto simp: mg_normalize_uri_path_def)
next
  case False
  let ?xs = "resolve (split_slashes path)"
  have p: "hd path = CHR ''/''" "path \<noteq> []" using False by simp_all
  note n = normalize_rooted [OF p]
  obtain ys where ys: "?xs = ''/'' # ys" using n(2) by (cases ?xs) auto
  then have h: "hd (concat ?xs) = CHR ''/''" "concat ?xs \<noteq> []" by simp_all
  have s: "split_slashes (concat ?xs) = ?xs" by (rule split_concat) (simp add: n(3))
  have "resolve ?xs = ?xs" using n(3) by (simp add: resolve_def foldl_walk_no_dots)
  then have "mg_normalize_uri_path (concat ?xs) = Some (concat ?xs)"
    by (simp only: normalize_rooted(1) [OF h] s)
  then show ?thesis using p n h s by (simp add: Let_def no_dots_def)
qed

theorem normalize_resolves_dots_witness:
  "mg_normalize_uri_path ''/a/./b/../../c/..'' = Some ''/''
   \<and> split_slashes (concat (resolve (split_slashes ''/x//../y/./z''))) = [''/'', ''x/'', ''y/'', ''z'']"
proof -
  have "resolve (split_slashes ''/a/./b/../../c/..'') = [''/'']"
    "resolve (split_slashes ''/x//../y/./z'') = [''/'', ''x/'', ''y/'', ''z'']" by code_simp+
  with normalize_resolves_dots [of "''/a/./b/../../c/..''"] normalize_resolves_dots [of "''/x//../y/./z''"]
  show ?thesis by (simp add: Let_def)
qed

section \<open>Reading back what was assembled\<close>

lemma loop_step: "us_p s < length u \<Longrightarrow> uri_step u nxt s = Some s' \<Longrightarrow> uri_loop u nxt s = uri_loop u nxt s'"
  by (subst uri_loop.simps) simp

lemma loop_end: "length u \<le> us_p s \<Longrightarrow> uri_loop u nxt s = Some s"
  by (subst uri_loop.simps) simp

lemma scan_at:
  assumes "u = pre @ w @ r" and "\<And>c. c \<in> set w \<Longrightarrow> \<not> stop c" and "r = [] \<or> stop (hd r)"
  shows "scan_until stop u (length pre) = length pre + length w"
proof -
  have "takeWhile (\<lambda>c. \<not> stop c) (w @ r) = w" using assms(2,3) by (cases r) (auto simp: takeWhile_append2)
  then show ?thesis by (simp add: scan_until_def assms(1))
qed

lemma component_at:
  assumes "u = pre @ w @ r" and "\<And>c. c \<in> set w \<Longrightarrow> c \<notin> set seps" and "r = [] \<or> hd r \<in> set seps"
  shows "parse_uri_component u (length pre) seps
     = (length pre + length w + (if r = [] then 0 else 1), ms_at (length pre) (length w))"
proof -
  have "scan_until (\<lambda>c. c \<in> set seps) u (length pre) = length pre + length w"
    using assms by (intro scan_at [of u pre w r]) auto
  then show ?thesis by (simp add: parse_uri_component_def Let_def assms(1))
qed

text \<open>The components kept from an earlier point, and those read from the path on.\<close>

definition kept_front :: "uri_st \<Rightarrow> uri_st \<Rightarrow> bool" where
  "kept_front s r \<longleftrightarrow> us_scheme r = us_scheme s \<and> us_user_info r = us_user_info s"

definition uri_tail :: "string \<Rightarrow> string \<Rightarrow> string \<Rightarrow> string" where
  "uri_tail path query frag = path @ concat (tail_pieces query frag)"

definition tail_read :: "string \<Rightarrow> string \<Rightarrow> string \<Rightarrow> string \<Rightarrow> uri_st \<Rightarrow> bool" where
  "tail_read u path query frag r \<longleftrightarrow>
     slice u (us_path r) = path \<and> slice u (us_query r) = query \<and> slice u (us_fragment r) = frag
     \<and> us_path r = (if path = [] then ms_null else ms_at (length u - length (uri_tail path query frag)) (length path))
     \<and> ms_len (us_query r) = length query"

definition blank_tail :: "uri_st \<Rightarrow> bool" where
  "blank_tail s \<longleftrightarrow> us_path s = ms_null \<and> us_query s = ms_null \<and> us_fragment s = ms_null"

definition tail_ok :: "string \<Rightarrow> string \<Rightarrow> string \<Rightarrow> bool" where
  "tail_ok path query frag \<longleftrightarrow>
     (if path = [] then query = [] \<and> frag = []
      else hd path = CHR ''/'' \<and> CHR ''?'' \<notin> set path \<and> CHR ''#'' \<notin> set path \<and> CHR ''#'' \<notin> set query)"

lemma ms_at_sel [simp]: "ms_p (ms_at p n) = Some p" "ms_len (ms_at p n) = n"
  by (simp_all add: ms_at_def)

lemma slice_end [simp]: "slice u (ms_at p 0) = []"
  by (simp add: slice_def ms_at_def)

lemma fragment_component:
  assumes "u = pre @ (if frag \<noteq> [] then CHR ''#'' # frag else [])"
  shows "\<exists>p. parse_uri_component u (length pre + (if frag \<noteq> [] then 1 else 0)) [] = (length u, p) \<and> slice u p = frag"
proof -
  let ?pre = "pre @ (if frag \<noteq> [] then ''#'' else [])"
  have u: "u = ?pre @ frag @ []" using assms by simp
  have l: "length ?pre = length pre + (if frag \<noteq> [] then 1 else 0)" "length ?pre + length frag = length u"
    using assms by simp_all
  have "parse_uri_component u (length ?pre) [] = (length u, ms_at (length ?pre) (length frag))"
  proof -
    have "parse_uri_component u (length ?pre) []
        = (length ?pre + length frag + (if ([] :: string) = [] then 0 else 1), ms_at (length ?pre) (length frag))"
      by (rule component_at [OF u]) simp_all
    then show ?thesis by (simp only: l(2) simp_thms if_True add_0_right)
  qed
  then show ?thesis using slice_split [OF u] unfolding l(1) by blast
qed

lemma rest_stage:
  assumes u: "u = pre @ uri_tail path query frag" and ok: "tail_ok path query frag" "path \<noteq> []"
    and s: "us_state s = P_REST" "us_p s = length pre" "blank_tail s"
  shows "\<exists>r. uri_loop u nxt s = Some r \<and> tail_read u path query frag r \<and> kept_front s r
     \<and> us_host r = us_host s \<and> us_port r = us_port s"
proof -
  let ?f = "if frag \<noteq> [] then CHR ''#'' # frag else []" and ?q = "if query \<noteq> [] then CHR ''?'' # query else []"
  have u': "u = pre @ path @ (?q @ ?f)" using u by (simp add: uri_tail_def tail_pieces_def)
  have np: "\<And>c. c \<in> set path \<Longrightarrow> c \<notin> set ''?#''" and nq: "\<And>c. c \<in> set query \<Longrightarrow> c \<notin> set ''#''"
    using ok by (auto simp: tail_ok_def)
  have path: "parse_uri_component u (us_p s) ''?#''
      = (length pre + length path + (if ?q @ ?f = [] then 0 else 1), ms_at (length pre) (length path))"
    unfolding s(2) by (rule component_at [OF u' np]) auto
  have sp: "slice u (ms_at (length pre) (length path)) = path" by (rule slice_split [OF u'])
  have less: "us_p s < length u" using u' ok(2) s(2) by simp
  have st: "uri_step u nxt s = Some (rest_step u s)" by (simp add: uri_step_def s(1))
  have fin: "\<exists>r. uri_loop u nxt s = Some r \<and> tail_read u path query frag r \<and> kept_front s r
     \<and> us_host r = us_host s \<and> us_port r = us_port s"
    if "rest_step u s = s\<lparr>us_path := ms_at (length pre) (length path), us_query := q, us_fragment := f, us_p := length u\<rparr>"
      "slice u q = query" "ms_len q = length query" "slice u f = frag" for q f
    using loop_step [OF less st] that sp ok(2) u by (simp add: loop_end tail_read_def kept_front_def)
  show ?thesis
  proof (cases "query = []")
    case True
    then have u2: "u = (pre @ path) @ ?f" using u' by simp
    from fragment_component [OF u2] obtain f where f:
      "parse_uri_component u (length (pre @ path) + (if frag \<noteq> [] then 1 else 0)) [] = (length u, f)" "slice u f = frag" by blast
    have p1: "length pre + length path + (if ?q @ ?f = [] then 0 else 1) = length (pre @ path) + (if frag \<noteq> [] then 1 else 0)"
      using True by simp
    have nq': "\<not> (length (pre @ path) + (if frag \<noteq> [] then 1 else 0) < length u
        \<and> u ! (length (pre @ path) + (if frag \<noteq> [] then 1 else 0) - 1) = CHR ''?'')"
      using u2 nth_append_length [of "pre @ path" "CHR ''#''" frag] by (cases "frag = []") simp_all
    have "rest_step u s = s\<lparr>us_path := ms_at (length pre) (length path), us_query := us_query s, us_fragment := f, us_p := length u\<rparr>"
      unfolding rest_step_def path p1 Let_def split_conv if_not_P [OF nq'] f(1) by simp
    moreover have "slice u (us_query s) = query" "ms_len (us_query s) = length query"
      using s(3) True by (simp_all add: blank_tail_def slice_def ms_null_def)
    ultimately show ?thesis using f(2) by (rule fin)
  next
    case False
    let ?pre = "pre @ path @ ''?''"
    have u2: "u = ?pre @ query @ ?f" using u' False by simp
    have query: "parse_uri_component u (length ?pre) ''#''
        = (length ?pre + length query + (if ?f = [] then 0 else 1), ms_at (length ?pre) (length query))"
      by (rule component_at [OF u2 nq]) auto
    have u3: "u = (?pre @ query) @ ?f" using u2 by simp
    from fragment_component [OF u3] obtain f where f:
      "parse_uri_component u (length (?pre @ query) + (if frag \<noteq> [] then 1 else 0)) [] = (length u, f)" "slice u f = frag" by blast
    have p1: "length pre + length path + (if ?q @ ?f = [] then 0 else 1) = length ?pre" using False by simp
    have p2: "length ?pre + length query + (if ?f = [] then 0 else 1) = length (?pre @ query) + (if frag \<noteq> [] then 1 else 0)" by simp
    have isq: "length ?pre < length u \<and> u ! (length ?pre - 1) = CHR ''?''"
      using u2 False nth_append_length [of "pre @ path" "CHR ''?''" "query @ ?f"] by simp
    have "rest_step u s = s\<lparr>us_path := ms_at (length pre) (length path), us_query := ms_at (length ?pre) (length query),
        us_fragment := f, us_p := length u\<rparr>"
      unfolding rest_step_def path p1 Let_def split_conv if_P [OF isq] query p2 f(1) by simp
    then show ?thesis by (rule fin [OF _ slice_split [OF u2] ms_at_sel(2) f(2)])
  qed
qed

lemma tail_stage:
  assumes u: "u = pre @ uri_tail path query frag" and ok: "tail_ok path query frag"
    and s: "path \<noteq> [] \<Longrightarrow> us_state s = P_REST" "us_p s = length pre" "blank_tail s"
  shows "\<exists>r. uri_loop u nxt s = Some r \<and> tail_read u path query frag r \<and> kept_front s r
     \<and> us_host r = us_host s \<and> us_port r = us_port s"
proof (cases "path = []")
  case True
  then have "query = []" "frag = []" using ok by (simp_all add: tail_ok_def)
  then have "length u \<le> us_p s" "tail_read u path query frag s" using True u s(2,3)
    by (simp_all add: uri_tail_def tail_pieces_def tail_read_def blank_tail_def slice_def ms_null_def)
  then show ?thesis by (simp add: loop_end kept_front_def)
next
  case False
  show ?thesis by (rule rest_stage [OF u ok False s(1) [OF False] s(2,3)])
qed

lemma port_digits: "list_all c_isdigit s \<Longrightarrow> foldl port_digit 0 s = of_nat (read_nat s)"
proof (induction s rule: rev_induct)
  case Nil
  then show ?case by (simp add: read_nat_def)
next
  case (snoc c s)
  then have "port_digit w c = w * 10 + of_nat (digit_val c)" for w
    by (simp add: port_digit_def digit_val_def c_isdigit_def of_nat_diff)
  with snoc show ?case by (simp add: read_nat_snoc mult.commute)
qed

definition port_text :: "u32 \<Rightarrow> string" where
  "port_text port = (if port \<noteq> 0 then CHR '':'' # show_nat (unat port) else [])"

lemma tail_start: "tail_ok path query frag \<Longrightarrow> uri_tail path query frag = [] \<or> hd (uri_tail path query frag) = CHR ''/''"
  "tail_ok path query frag \<Longrightarrow> uri_tail path query frag = [] \<longleftrightarrow> path = []"
  by (auto simp: tail_ok_def uri_tail_def tail_pieces_def split: if_splits)

lemma port_stage:
  assumes u: "u = pre @ port_text port @ uri_tail path query frag" and ok: "tail_ok path query frag"
    and s: "port \<noteq> 0 \<Longrightarrow> us_state s = P_PORT" "port = 0 \<Longrightarrow> path \<noteq> [] \<Longrightarrow> us_state s = P_REST"
      "us_p s = length pre" "blank_tail s" "us_port s = 0"
  shows "\<exists>r. uri_loop u nxt s = Some r \<and> tail_read u path query frag r \<and> kept_front s r
     \<and> us_host r = us_host s \<and> us_port r = port"
proof (cases "port = 0")
  case True
  then show ?thesis using tail_stage [of u pre path query frag s] u ok s by (simp add: port_text_def)
next
  case False
  let ?d = "show_nat (unat port)" and ?t = "uri_tail path query frag"
  have u1: "u = (pre @ '':'') @ ?d @ ?t" using u False by (simp add: port_text_def)
  have u2: "u = (pre @ '':'' @ ?d) @ ?t" using u1 by simp
  have dig: "list_all c_isdigit ?d" by (rule show_nat_digits)
  then have ns: "\<And>c. c \<in> set ?d \<Longrightarrow> c \<noteq> CHR ''/''"
    by (auto simp: list_all_iff c_isdigit_def char_code_def)
  have q: "scan_until (\<lambda>c. c = CHR ''/'') u (length (pre @ '':'')) = length (pre @ '':'' @ ?d)"
    using scan_at [OF u1, of "\<lambda>c. c = CHR ''/''"] ns tail_start(1) [OF ok] by simp
  have tk: "take (length (pre @ '':'' @ ?d) - length (pre @ '':'')) (drop (length (pre @ '':'')) u) = ?d"
    using u1 by simp
  have p0: "us_p s + 1 = length (pre @ '':'')" using s(3) by simp
  have ps: "port_step u s = s\<lparr>us_port := port, us_p := length (pre @ '':'' @ ?d),
      us_state := (if length (pre @ '':'' @ ?d) < length u then P_REST else P_PORT)\<rparr>"
    unfolding port_step_def Let_def p0 q tk s(5) port_digits [OF dig] read_show_nat by simp
  have "length (pre @ '':'' @ ?d) < length u" if "path \<noteq> []"
    using that u2 tail_start(2) [OF ok] by simp
  then have "\<exists>r. uri_loop u nxt (port_step u s) = Some r \<and> tail_read u path query frag r \<and> kept_front (port_step u s) r
     \<and> us_host r = us_host (port_step u s) \<and> us_port r = us_port (port_step u s)"
    using s(4) by (intro tail_stage [OF u2 ok]) (simp_all add: ps blank_tail_def)
  moreover have "us_p s < length u" "uri_step u nxt s = Some (port_step u s)"
    using u1 s(1,3) False by (simp_all add: uri_step_def)
  ultimately show ?thesis by (simp add: loop_step kept_front_def ps)
qed

definition host_ok :: "string \<Rightarrow> bool" where
  "host_ok h \<longleftrightarrow> h \<noteq> [] \<and>
     (if hd h = CHR ''['' then last h = CHR '']'' \<and> CHR '']'' \<notin> set (butlast h)
      else list_all (\<lambda>c. c \<notin> set '':/@['') h)"

lemma rest_start:
  assumes "tail_ok path query frag"
  shows "port_text port @ uri_tail path query frag = [] \<or>
     hd (port_text port @ uri_tail path query frag) = (if port \<noteq> 0 then CHR '':'' else CHR ''/'')"
    and "port_text port @ uri_tail path query frag = [] \<longleftrightarrow> port = 0 \<and> path = []"
  using tail_start [OF assms] by (auto simp: port_text_def)

lemma host_stage:
  assumes u: "u = pre @ (if user then ''@'' else []) @ host @ port_text port @ uri_tail path query frag"
    and ok: "tail_ok path query frag" "host_ok host"
    and s: "us_state s = P_HOST" "us_p s = length pre" "blank_tail s" "us_port s = 0"
  shows "\<exists>r. uri_loop u nxt s = Some r \<and> tail_read u path query frag r \<and> kept_front s r
     \<and> slice u (us_host r) = host \<and> us_port r = port
     \<and> us_host r = ms_at (length (pre @ (if user then ''@'' else []))) (length host)"
proof -
  let ?r = "port_text port @ uri_tail path query frag" and ?pre = "pre @ (if user then ''@'' else [])"
  have u1: "u = ?pre @ host @ ?r" using u by simp
  have u2: "u = (?pre @ host) @ ?r" using u by simp
  have ne: "host \<noteq> []" using ok(2) by (simp add: host_ok_def)
  have at: "u ! us_p s = (if user then CHR ''@'' else hd host)"
    using u s(2) ne by (auto simp: nth_append hd_conv_nth)
  have hd: "hd host \<noteq> CHR ''@''" using ok(2) by (cases host) (auto simp: host_ok_def split: if_splits)
  have p0: "(if u ! us_p s = CHR ''@'' then us_p s + 1 else us_p s) = length ?pre"
    using at hd s(2) by auto
  have ca: "char_at u nxt (length ?pre) = hd host"
    using u1 ne by (auto simp: char_at_def nth_append hd_conv_nth)
  let ?e = "length (?pre @ host)"
  let ?s = "s\<lparr>us_host := ms_at (length ?pre) (length host), us_p := ?e,
     us_state := (if ?e < length u \<and> u ! ?e = CHR '':'' then P_PORT
                  else if ?e < length u \<and> u ! ?e = CHR ''/'' then P_REST else P_HOST)\<rparr>"
  have hs: "host_step u nxt s = Some ?s"
  proof (cases "hd host = CHR ''[''")
    case True
    then have l: "last host = CHR '']''" "CHR '']'' \<notin> set (butlast host)" using ok(2) by (simp_all add: host_ok_def)
    have "host = butlast host @ '']''" using append_butlast_last_id [OF ne] l(1) by simp
    then have u3: "u = ?pre @ butlast host @ ('']'' @ ?r)" using u1 by (metis append.assoc)
    have q: "scan_until (\<lambda>c. c = CHR '']'') u (length ?pre) = length ?pre + length (butlast host)"
      by (rule scan_at [OF u3]) (use l(2) in auto)
    have e: "length ?pre + length (butlast host) + 1 = ?e" "\<not> length u \<le> length ?pre + length (butlast host)"
    proof -
      have "0 < length host" "length u = length ?pre + length host + length ?r" using ne u1 by simp_all
      then show "length ?pre + length (butlast host) + 1 = ?e" "\<not> length u \<le> length ?pre + length (butlast host)"
        unfolding length_append length_butlast by linarith+
    qed
    have d: "?e - length ?pre = length host" by simp
    show ?thesis unfolding host_step_def Let_def p0 ca q e(1) using e(2) True d by (simp only: if_True simp_thms if_False)
  next
    case False
    then have nh: "\<And>c. c \<in> set host \<Longrightarrow> \<not> (c = CHR '':'' \<or> c = CHR ''/'')"
      using ok(2) by (auto simp: host_ok_def list_all_iff)
    have "?r = [] \<or> (hd ?r = CHR '':'' \<or> hd ?r = CHR ''/'')" using rest_start(1) [OF ok(1), of port] by (cases "port = 0") auto
    then have q: "scan_until (\<lambda>c. c = CHR '':'' \<or> c = CHR ''/'') u (length ?pre) = length ?pre + length host"
      by (intro scan_at [OF u1]) (use nh in auto)
    have d: "length ?pre + length host = ?e" "?e - length ?pre = length host" by simp_all
    show ?thesis unfolding host_step_def Let_def p0 ca q using False d by (simp only: if_False simp_thms)
  qed
  have uat: "u ! ?e = hd ?r" if "?r \<noteq> []" using u2 that by (metis hd_conv_nth nth_append_length_plus add_0_right)
  have e2: "?e < length u \<longleftrightarrow> ?r \<noteq> []" using u2 by simp
  have "us_state ?s = P_PORT" if "port \<noteq> 0"
    using that uat e2 rest_start [OF ok(1), of port] by auto
  moreover have "us_state ?s = P_REST" if "port = 0" "path \<noteq> []"
    using that uat e2 rest_start [OF ok(1), of port] by auto
  ultimately have "\<exists>r. uri_loop u nxt ?s = Some r \<and> tail_read u path query frag r \<and> kept_front ?s r
     \<and> us_host r = us_host ?s \<and> us_port r = port"
    using s(3,4) by (intro port_stage [OF u2 ok(1)]) (simp_all add: blank_tail_def)
  then obtain r where r: "uri_loop u nxt ?s = Some r" "tail_read u path query frag r" "kept_front ?s r"
    "us_host r = us_host ?s" "us_port r = port" by blast
  have lt: "us_p s < length u" using u s(2) ne by simp
  have st: "uri_step u nxt s = Some ?s" by (simp only: uri_step_def s(1) uri_state.case hs)
  have h: "slice u (us_host r) = host" using slice_split [OF u1] r(4) by simp
  have k: "kept_front s r" "us_host r = ms_at (length ?pre) (length host)" using r(3,4) by (simp_all add: kept_front_def)
  show ?thesis using r(1,2,5) h k unfolding loop_step [OF lt st] by (intro exI [of _ r] conjI)
qed

lemma scan_no_user:
  assumes u: "u = pre @ host @ port_text port @ uri_tail path query frag"
    and ok: "tail_ok path query frag" "host_ok host"
    and q: "q = scan_until (\<lambda>c. c = CHR ''@'' \<or> c = CHR ''['' \<or> c = CHR ''/'') u (length pre)"
  shows "q = length u \<or> u ! q = CHR ''/'' \<or> u ! q = CHR ''[''"
proof (cases "hd host = CHR ''[''")
  case True
  then obtain h where "host = CHR ''['' # h" using ok(2) by (cases host) (auto simp: host_ok_def)
  then have u1: "u = pre @ [] @ (CHR ''['' # h @ port_text port @ uri_tail path query frag)" using u by simp
  have "q = length pre" using scan_at [OF u1] by (simp add: q)
  then show ?thesis using u1 by simp
next
  case False
  let ?w = "host @ port_text port" and ?t = "uri_tail path query frag"
  have u1: "u = pre @ ?w @ ?t" using u by simp
  have dig: "list_all c_isdigit (show_nat n)" for n by (rule show_nat_digits)
  have "c \<noteq> CHR ''@'' \<and> c \<noteq> CHR ''['' \<and> c \<noteq> CHR ''/''" if "c \<in> set (port_text port)" for c
    using that dig [of "unat port"] by (auto simp: port_text_def list_all_iff c_isdigit_def char_code_def split: if_splits)
  then have w: "\<And>c. c \<in> set ?w \<Longrightarrow> \<not> (c = CHR ''@'' \<or> c = CHR ''['' \<or> c = CHR ''/'')"
    using ok(2) False by (auto simp: host_ok_def list_all_iff)
  have q': "q = length pre + length ?w"
    unfolding q by (rule scan_at [OF u1]) (use w tail_start(1) [OF ok(1)] in auto)
  show ?thesis
  proof (cases ?t)
    case Nil
    then show ?thesis using u1 q' by simp
  next
    case (Cons c t)
    then have "c = CHR ''/''" using tail_start(1) [OF ok(1)] by simp
    then have "u ! q = CHR ''/''" using nth_append_length [of "pre @ ?w" c t] u1 Cons q' by simp
    then show ?thesis by blast
  qed
qed

definition user_text :: "string \<Rightarrow> string" where
  "user_text user = (if user \<noteq> [] then user @ ''@'' else [])"

definition user_ok :: "string \<Rightarrow> bool" where
  "user_ok user \<longleftrightarrow> list_all (\<lambda>c. c \<notin> set ''@[/'') user"

lemma user_stage:
  assumes u: "u = pre @ user_text user @ host @ port_text port @ uri_tail path query frag"
    and ok: "tail_ok path query frag" "host_ok host" "user_ok user"
    and s: "us_state s = P_USER_INFO" "us_p s = length pre" "blank_tail s" "us_port s = 0"
  shows "\<exists>r. uri_loop u nxt s = Some r \<and> tail_read u path query frag r \<and> us_scheme r = us_scheme s
     \<and> slice u (us_user_info r) = user \<and> slice u (us_host r) = host \<and> us_port r = port
     \<and> us_host r = ms_at (length (pre @ user_text user)) (length host) \<and> ms_len (us_user_info r) = length user"
proof -
  let ?stop = "\<lambda>c. c = CHR ''@'' \<or> c = CHR ''['' \<or> c = CHR ''/''"
  let ?r = "port_text port @ uri_tail path query frag"
  have ne: "host \<noteq> []" using ok(2) by (simp add: host_ok_def)
  let ?s = "s\<lparr>us_user_info := ms_at (length pre) (length user), us_p := length (pre @ user), us_state := P_HOST\<rparr>"
  have us: "user_step u s = ?s"
  proof (cases "user = []")
    case False
    then have u1: "u = pre @ user @ (''@'' @ host @ ?r)" using u by (simp add: user_text_def)
    have q: "scan_until ?stop u (length pre) = length pre + length user"
      by (rule scan_at [OF u1]) (use ok(3) in \<open>auto simp: user_ok_def list_all_iff\<close>)
    have "length pre + length user < length u" "u ! (length pre + length user) = CHR ''@''"
      using u1 nth_append_length [of "pre @ user" "CHR ''@''" "host @ ?r"] by simp_all
    then show ?thesis unfolding user_step_def Let_def s(2) q by simp
  next
    case True
    have u1: "u = pre @ host @ ?r" using u True by (simp add: user_text_def)
    from scan_no_user [OF u1 ok(1,2) refl] show ?thesis
      unfolding user_step_def Let_def s(2) by (simp only: if_True simp_thms True) simp
  qed
  have u2: "u = (pre @ user) @ (if user \<noteq> [] then ''@'' else []) @ host @ ?r" using u by (simp add: user_text_def)
  obtain r where r: "uri_loop u nxt ?s = Some r" "tail_read u path query frag r" "kept_front ?s r"
    "slice u (us_host r) = host" "us_port r = port"
    "us_host r = ms_at (length ((pre @ user) @ (if user \<noteq> [] then ''@'' else []))) (length host)"
  proof -
    have "us_state ?s = P_HOST" "us_p ?s = length (pre @ user)" "blank_tail ?s" "us_port ?s = 0"
      using s(3,4) by (simp_all add: blank_tail_def)
    from host_stage [OF u2 ok(1,2) this] that show thesis by blast
  qed
  have lt: "us_p s < length u" using u2 ne s(2) by simp
  have st: "uri_step u nxt s = Some ?s" by (simp only: uri_step_def s(1) uri_state.case us)
  have "u = pre @ user @ ((if user \<noteq> [] then ''@'' else []) @ host @ ?r)" using u2 by simp
  then have "slice u (us_user_info r) = user" "us_scheme r = us_scheme s" "ms_len (us_user_info r) = length user"
    using slice_split [of u pre user] r(3) by (simp_all add: kept_front_def)
  moreover have "us_host r = ms_at (length (pre @ user_text user)) (length host)" using r(6) by (simp add: user_text_def)
  ultimately show ?thesis using r(1,2,4,5) unfolding loop_step [OF lt st] by (intro exI [of _ r] conjI)
qed

definition scheme_ok :: "string \<Rightarrow> bool" where
  "scheme_ok sch \<longleftrightarrow> sch \<noteq> [] \<and> hd sch \<noteq> CHR ''['' \<and> CHR '':'' \<notin> set sch \<and> CHR ''/'' \<notin> set sch"

definition uri_text :: "string \<Rightarrow> string \<Rightarrow> string \<Rightarrow> u32 \<Rightarrow> string \<Rightarrow> string \<Rightarrow> string \<Rightarrow> string" where
  "uri_text sch user host port path query frag =
     sch @ ''://'' @ user_text user @ host @ port_text port @ uri_tail path query frag"

lemma uri_parsed:
  assumes ok: "scheme_ok sch" "user_ok user" "host_ok host" "tail_ok path query frag"
    and u: "u = uri_text sch user host port path query frag"
  shows "\<exists>r. mg_parse_uri u nxt = Some r \<and> slice u (us_scheme r) = sch \<and> slice u (us_user_info r) = user
     \<and> slice u (us_host r) = host \<and> us_port r = port \<and> tail_read u path query frag r
     \<and> us_host r = ms_at (length (sch @ ''://'' @ user_text user)) (length host) \<and> ms_len (us_user_info r) = length user
     \<and> us_scheme r = ms_at 0 (length sch)"
proof -
  let ?rest = "user_text user @ host @ port_text port @ uri_tail path query frag"
  have u1: "u = [] @ sch @ (''://'' @ ?rest)" using u by (simp add: uri_text_def)
  have u2: "u = (sch @ ''://'') @ ?rest" using u by (simp add: uri_text_def)
  have sch: "sch \<noteq> []" "hd sch \<noteq> CHR ''[''" using ok(1) by (simp_all add: scheme_ok_def)
  have ne: "0 < length u" "u ! 0 \<noteq> CHR ''[''" using u1 sch by (auto simp: nth_append hd_conv_nth)
  have q: "scan_until (\<lambda>c. c = CHR '':'' \<or> c = CHR ''/'') u 0 = length sch"
  proof -
    have "scan_until (\<lambda>c. c = CHR '':'' \<or> c = CHR ''/'') u (length ([] :: string)) = length ([] :: string) + length sch"
      by (rule scan_at [OF u1]) (use ok(1) in \<open>auto simp: scheme_ok_def\<close>)
    then show ?thesis by simp
  qed
  let ?s1 = "uri_init\<lparr>us_p := length sch, us_state := P_SCHEME_OR_PORT\<rparr>"
  let ?s2 = "?s1\<lparr>us_scheme := ms_at 0 (length sch), us_state := P_USER_INFO, us_p := length (sch @ ''://'')\<rparr>"
  have at: "length sch < length u" "u ! length sch = CHR '':''" "take 3 (drop (length sch) u) = ''://''"
    using u1 nth_append_length [of sch "CHR '':''" "''//'' @ ?rest"] by simp_all
  have l3: "length u - length sch \<ge> 3" using u1 by simp
  have "start_step u uri_init = ?s1"
    using ne(2) at unfolding start_step_def Let_def by (simp add: uri_init_def q)
  then have st1: "uri_step u nxt uri_init = Some ?s1" by (simp add: uri_step_def uri_init_def)
  have st2: "uri_step u nxt ?s1 = Some ?s2" using at(3) l3 by (simp add: uri_step_def scheme_step_def)
  have lt: "us_p uri_init < length u" "us_p ?s1 < length u" using ne at by (simp_all add: uri_init_def)
  have run: "mg_parse_uri u nxt = uri_loop u nxt ?s2"
    unfolding mg_parse_uri_def loop_step [OF lt(1) st1] loop_step [OF lt(2) st2] ..
  have "\<exists>r. uri_loop u nxt ?s2 = Some r \<and> tail_read u path query frag r \<and> us_scheme r = us_scheme ?s2
     \<and> slice u (us_user_info r) = user \<and> slice u (us_host r) = host \<and> us_port r = port
     \<and> us_host r = ms_at (length ((sch @ ''://'') @ user_text user)) (length host) \<and> ms_len (us_user_info r) = length user"
    by (rule user_stage [OF u2 ok(4,3,2)]) (simp_all add: uri_init_def blank_tail_def)
  then show ?thesis unfolding run using slice_split [OF u1] by auto
qed

text \<open>Without a scheme, and then without a user, the host begins the URI.\<close>

definition plain_host :: "string \<Rightarrow> bool" where
  "plain_host h \<longleftrightarrow> h \<noteq> [] \<and> list_all (\<lambda>c. c \<notin> set '':/@['') h"

lemma uri_parsed_plain:
  assumes ok: "plain_host host" "tail_ok path query frag"
    and u: "u = host @ port_text port @ uri_tail path query frag"
  shows "\<exists>r. mg_parse_uri u nxt = Some r \<and> us_scheme r = ms_null \<and> us_user_info r = ms_null
     \<and> us_host r = ms_at 0 (length host) \<and> us_port r = port \<and> tail_read u path query frag r"
proof -
  let ?r = "port_text port @ uri_tail path query frag"
  have host: "host \<noteq> []" "hd host \<noteq> CHR ''[''" "\<And>c. c \<in> set host \<Longrightarrow> \<not> (c = CHR '':'' \<or> c = CHR ''/'')"
    using ok(1) by (auto simp: plain_host_def list_all_iff)
  have ne: "0 < length u" "u ! 0 \<noteq> CHR ''[''" using u host(1,2) by (auto simp: nth_append hd_conv_nth)
  have "?r = [] \<or> (hd ?r = CHR '':'' \<or> hd ?r = CHR ''/'')" using rest_start(1) [OF ok(2), of port] by (cases "port = 0") auto
  then have "scan_until (\<lambda>c. c = CHR '':'' \<or> c = CHR ''/'') u (length ([] :: string)) = length ([] :: string) + length host"
    by (intro scan_at [of u "[]" host ?r]) (use u host(3) in auto)
  then have q: "scan_until (\<lambda>c. c = CHR '':'' \<or> c = CHR ''/'') u 0 = length host" by simp
  have at: "u ! length host = hd ?r" if "?r \<noteq> []" using u that by (metis hd_conv_nth nth_append_length_plus add_0_right)
  have len: "length host < length u \<longleftrightarrow> ?r \<noteq> []" using u by simp
  have run: "\<exists>s. uri_loop u nxt uri_init = uri_loop u nxt s \<and> us_p s = length host \<and> us_host s = ms_at 0 (length host)
     \<and> blank_tail s \<and> us_port s = 0 \<and> us_scheme s = ms_null \<and> us_user_info s = ms_null
     \<and> (port \<noteq> 0 \<longrightarrow> us_state s = P_PORT) \<and> (port = 0 \<longrightarrow> path \<noteq> [] \<longrightarrow> us_state s = P_REST)"
  proof (cases "port = 0")
    case True
    have "\<not> (length host < length u \<and> u ! length host = CHR '':'')" using len at rest_start(1) [OF ok(2), of port] True by auto
    then have st: "uri_step u nxt uri_init = Some (uri_init\<lparr>us_p := length host,
        us_state := (if length host < length u then P_REST else P_START), us_host := ms_at 0 (length host)\<rparr>)" (is "_ = Some ?s")
      using ne(2) by (simp add: uri_step_def start_step_def uri_init_def q Let_def)
    have "length host < length u" if "path \<noteq> []" using that len rest_start(2) [OF ok(2), of port] True by simp
    then show ?thesis using loop_step [OF _ st] ne(1) True
      by (intro exI [of _ ?s]) (simp add: uri_init_def blank_tail_def)
  next
    case False
    let ?s1 = "uri_init\<lparr>us_p := length host, us_state := P_SCHEME_OR_PORT\<rparr>"
    have colon: "length host < length u" "u ! length host = CHR '':''"
      using len at rest_start [OF ok(2), of port] False by auto
    then have st1: "uri_step u nxt uri_init = Some ?s1"
      using ne(2) by (simp add: uri_step_def start_step_def uri_init_def q Let_def)
    obtain d ds where d: "show_nat (unat port) = d # ds" by (cases "show_nat (unat port)") simp_all
    then have "d \<noteq> CHR ''/''" using show_nat_digits [of "unat port"] by (auto simp: c_isdigit_def char_code_def)
    then have "take 3 (drop (length host) u) \<noteq> ''://''" using u False d by (simp add: port_text_def)
    then have st2: "uri_step u nxt ?s1 = Some (?s1\<lparr>us_host := ms_at 0 (length host), us_state := P_PORT\<rparr>)" (is "_ = Some ?s2")
      by (simp add: uri_step_def scheme_step_def)
    have "uri_loop u nxt uri_init = uri_loop u nxt ?s2"
      using loop_step [OF _ st1] loop_step [OF _ st2] ne(1) colon(1) by (simp add: uri_init_def)
    then show ?thesis using False by (intro exI [of _ ?s2]) (simp add: uri_init_def blank_tail_def)
  qed
  then obtain s where s: "uri_loop u nxt uri_init = uri_loop u nxt s" "us_p s = length host" "us_host s = ms_at 0 (length host)"
     "blank_tail s" "us_port s = 0" "us_scheme s = ms_null" "us_user_info s = ms_null"
     "port \<noteq> 0 \<Longrightarrow> us_state s = P_PORT" "port = 0 \<Longrightarrow> path \<noteq> [] \<Longrightarrow> us_state s = P_REST" by blast
  from port_stage [OF u ok(2) s(8,9,2,4,5), of nxt] s(1,3,6,7) show ?thesis
    by (auto simp: mg_parse_uri_def kept_front_def)
qed

lemma append_all_append: "append_all app b (xs @ ys) = rbind (append_all app b xs) (\<lambda>m. append_all app m ys)"
  by (induction xs arbitrary: b) (auto simp: rbind_def split: sum.splits)

lemma free_empty: "mbuf_data (mbuf_free ra a) = []"
  by (simp add: mbuf_free_def mbuf_init_def mbuf_resize_def mbuf_data_def)

lemma string_bytes_simps [simp]:
  "string_bytes [] = []" "string_bytes (s @ t) = string_bytes s @ string_bytes t" "length (string_bytes s) = length s"
  by (simp_all add: string_bytes_def)

lemma concat_string_bytes: "concat (map string_bytes xs) = string_bytes (concat xs)"
  by (induction xs) simp_all

lemma head_pieces_text:
  assumes "sch \<noteq> []" and "host \<noteq> []"
  shows "concat (head_pieces sch user host port) = sch @ ''://'' @ user_text user @ host @ port_text port"
  using assms by (simp add: head_pieces_def user_text_def port_text_def)

text \<open>A query right behind the host is not seen: it becomes part of the host.\<close>

lemma query_without_path:
  "case mg_parse_uri ''http://h?x=1'' NUL of None \<Rightarrow> False
   | Some r \<Rightarrow> slice ''http://h?x=1'' (us_host r) = ''h?x=1'' \<and> slice ''http://h?x=1'' (us_query r) = []"
  by code_simp



end
