(* ===== verification/ProvaDma.thy ===== *)
theory ProvaDma
  imports HttpLib "HOL-Library.Signed_Division"
begin

text \<open>
  The two programs that try out the DMA engine of the VME controller (\<open>provadma.c\<close>,
  \<open>provadmalib.c\<close>): their options, their buffers and the calls they make. The VME libraries
  are not in the repository: a run is the list of the calls made to them, and what they
  answer is a parameter. Output on the terminal is kept only for the words that differ.
\<close>

section \<open>Options\<close>

text \<open>The local variables of \<open>main\<close> that options set; they have no initial value.\<close>

record dma_args =
  da_address :: int
  da_setvar :: int
  da_blttype :: int
  da_addressspace :: int
  da_sizeinbyte :: int

text \<open>One argument: its second character selects the variable, the rest is a number in base 16.\<close>

definition dma_option :: "string \<Rightarrow> dma_args \<Rightarrow> dma_args" where
  "dma_option a c =
     (let k = (case tl a of [] \<Rightarrow> NUL | x # _ \<Rightarrow> x); n = strtoul16 (drop 2 a)
      in if k = CHR ''r'' then c\<lparr>da_address := n, da_setvar := 0\<rparr>
         else if k = CHR ''w'' then c\<lparr>da_address := n, da_setvar := 1\<rparr>
         else if k = CHR ''b'' then c\<lparr>da_blttype := n\<rparr>
         else if k = CHR ''a'' then c\<lparr>da_addressspace := n\<rparr>
         else if k = CHR ''z'' then c\<lparr>da_sizeinbyte := n\<rparr>
         else c)"

text \<open>The loop ends at the first argument that does not begin with a dash.\<close>

fun dma_options :: "string list \<Rightarrow> dma_args \<Rightarrow> dma_args" where
  "dma_options [] c = c"
| "dma_options (a # rest) c =
     (if a \<noteq> [] \<and> hd a = CHR ''-'' then dma_options rest (dma_option a c) else c)"

datatype addr_mode = VME_A16 | VME_A24 | VME_A32 | VME_A64

definition addrs_of :: "int \<Rightarrow> addr_mode option" where
  "addrs_of n = (if n = 1 then Some VME_A16 else if n = 2 then Some VME_A24
     else if n = 3 then Some VME_A32 else if n = 4 then Some VME_A64 else None)"

datatype blt_mode = VME_BLT | VME_MBLT | VME_2eVME | VME_2eSST | VME_2eSSTB

definition btype_of :: "int \<Rightarrow> blt_mode option" where
  "btype_of n = (if n = 2 then Some VME_BLT else if n = 4 then Some VME_MBLT
     else if n = 8 then Some VME_2eVME else if n = 16 then Some VME_2eSST
     else if n = 32 then Some VME_2eSSTB else None)"

section \<open>Calls\<close>

datatype dma_buf = DmaSrc | DmaDst | TestBuf | GenPatt

text \<open>The end of a transfer: a buffer of the program or an address of the bus.\<close>

datatype dma_end = InBuf dma_buf | OnBus int

datatype dma_call =
    OpenCtl | IoctlInfo int | CloseFd int
  | InitDma addr_mode int addr_mode int
  | FlushLine dma_buf nat
  | Sync
  | DoDma int int dma_end dma_end
  | VmeOpenChannel string string
  | VmeSetExceptionHandling
  | VmeSetDtype int int
  | VmeSetProperty int int int
  | VmeMapAddress int int int int
  | CacheInv dma_buf nat
  | VmeDmaWrite int int dma_buf int
  | VmeDmaRead int int dma_buf int
  | VmeCloseChannel int

text \<open>
  What the environment does: whether the n-th \<open>malloc\<close> of that size succeeds, the answers of
  the control device, the descriptors, what a transfer from the bus leaves in the buffer
  of words, and what \<open>dcbz\<close> at a word of a buffer does to it.
\<close>

record dma_env =
  de_malloc :: "nat \<Rightarrow> int \<Rightarrow> bool"
  de_ctl :: int
  de_info :: int
  de_controller :: int
  de_fd :: int
  de_channel :: "string \<Rightarrow> int"
  de_read :: "int \<Rightarrow> int \<Rightarrow> u32 list \<Rightarrow> u32 list"
  de_dcbz :: "u32 list \<Rightarrow> nat \<Rightarrow> u32 list"

text \<open>The status of the process, the calls, the words sent to the bus, the lines printed.\<close>

record dma_run =
  dr_exit :: int
  dr_calls :: "dma_call list"
  dr_sent :: "u32 list option"
  dr_diffs :: "(nat \<times> u32 \<times> u32) list"

definition dma_stop :: "int \<Rightarrow> dma_call list \<Rightarrow> dma_run" where
  "dma_stop n calls = \<lparr>dr_exit = n, dr_calls = calls, dr_sent = None, dr_diffs = []\<rparr>"

text \<open>\<open>getMyInfo\<close>: the descriptor is left open when the request fails.\<close>

definition getMyInfo :: "dma_env \<Rightarrow> int \<times> dma_call list" where
  "getMyInfo env =
     (if de_ctl env < 0 then (1, [OpenCtl])
      else if de_info env < 0 then (1, [OpenCtl, IoctlInfo (de_ctl env)])
      else (0, [OpenCtl, IoctlInfo (de_ctl env), CloseFd (de_ctl env)]))"

definition maxchannel :: "dma_env \<Rightarrow> int" where
  "maxchannel env = (if de_controller env \<noteq> 0x014810e3 then 1 else 2)"

section \<open>Buffers\<close>

definition dma_words :: "int \<Rightarrow> nat" where "dma_words n = nat (n sdiv 4)"

definition dma_lines :: "int \<Rightarrow> nat" where "dma_lines n = nat (n sdiv 32 + 1)"

definition src_pattern :: "int \<Rightarrow> u32 list" where
  "src_pattern n = map (\<lambda>i. if i mod 2 \<noteq> 0 then 0xbeef123 else push_bit 8 (of_nat i)) [0..<dma_words n]"

definition gen_pattern :: "int \<Rightarrow> u32 list" where
  "gen_pattern n = map (\<lambda>i. if i mod 2 \<noteq> 0 then 0xdeadbeef else of_nat i) [0..<dma_words n]"

definition all_minus_99 :: "int \<Rightarrow> u32 list" where
  "all_minus_99 n = replicate (dma_words n) (- 99)"

text \<open>The comparison loop.\<close>

definition diffs :: "nat \<Rightarrow> u32 list \<Rightarrow> u32 list \<Rightarrow> (nat \<times> u32 \<times> u32) list" where
  "diffs n src dst = map (\<lambda>i. (i, src ! i, dst ! i)) (filter (\<lambda>i. src ! i \<noteq> dst ! i) [0..<n])"

definition flush_lines :: "dma_buf \<Rightarrow> int \<Rightarrow> dma_call list" where
  "flush_lines b n = map (\<lambda>i. FlushLine b (8 * i)) [0..<dma_lines n]"

section \<open>The programs\<close>

text \<open>The part of \<open>main\<close> that both have: options, checks, allocations (of the buffers that
  the size is for), information of the controller. \<open>Inl\<close> is a run that is over.\<close>

definition dma_check :: "dma_env \<Rightarrow> dma_args \<Rightarrow> nat \<Rightarrow> string list \<Rightarrow> dma_run + dma_args \<times> dma_call list" where
  "dma_check env junk nbufs argv =
     (if length argv < 4 then Inl (dma_stop (- 1) [])
      else
        let c = dma_options (tl argv) junk in
        if addrs_of (da_addressspace c) = None then Inl (dma_stop (- 1) [])
        else if btype_of (da_blttype c) = None then Inl (dma_stop (- 1) [])
        else if \<exists>i<nbufs. \<not> de_malloc env i (da_sizeinbyte c) then Inl (dma_stop (- 1) [])
        else if fst (getMyInfo env) \<noteq> 0 then Inl (dma_stop 1 (snd (getMyInfo env)))
        else Inr (c, snd (getMyInfo env)))"

definition provadma :: "dma_env \<Rightarrow> dma_args \<Rightarrow> string list \<Rightarrow> dma_run" where
  "provadma env junk argv =
     (case dma_check env junk 3 argv of
        Inl r \<Rightarrow> r
      | Inr (c, calls0) \<Rightarrow>
          let n = da_sizeinbyte c; fd = de_fd env; src = src_pattern n; dst = all_minus_99 n;
              init = calls0 @ [InitDma VME_A32 (da_blttype c) VME_A32 (da_blttype c)];
              wr = (if da_setvar c = 1
                    then flush_lines DmaSrc n @ [Sync, DoDma fd n (InBuf DmaSrc) (OnBus (da_address c))] else []);
              rd = (if da_setvar c = 0
                    then flush_lines DmaDst n @ [Sync, DoDma fd n (OnBus (da_address c)) (InBuf DmaDst)] else [])
          in \<lparr>dr_exit = 0, dr_calls = init @ wr @ rd @ [CloseFd fd],
              dr_sent = (if da_setvar c = 1 then Some src else None),
              dr_diffs = (if da_setvar c = 0
                          then diffs (dma_words n) src (de_read env (da_address c) n dst) else [])\<rparr>)"

text \<open>\<open>cacheinv2\<close> on every word of a buffer.\<close>

fun cacheinv_words :: "dma_env \<Rightarrow> nat \<Rightarrow> u32 list \<Rightarrow> u32 list" where
  "cacheinv_words env 0 ws = ws"
| "cacheinv_words env (Suc n) ws = de_dcbz env (cacheinv_words env n ws) n"

definition each_word :: "(dma_buf \<Rightarrow> nat \<Rightarrow> dma_call) \<Rightarrow> int \<Rightarrow> dma_call list" where
  "each_word f n = concat (map (\<lambda>i. [f TestBuf i, Sync, f GenPatt i, Sync]) [0..<dma_words n])"

definition provadmalib :: "dma_env \<Rightarrow> dma_args \<Rightarrow> string list \<Rightarrow> dma_run" where
  "provadmalib env junk argv =
     (case dma_check env junk 2 argv of
        Inl r \<Rightarrow> r
      | Inr (c, calls0) \<Rightarrow>
          let n = da_sizeinbyte c; dma = de_channel env ''dma''; pio = de_channel env ''pio'';
              base = uint (0xFFFF0000 AND (of_int (da_address c) :: u32));
              gen = cacheinv_words env (dma_words n) (gen_pattern n);
              test = cacheinv_words env (dma_words n) (all_minus_99 n);
              init = calls0 @ [VmeOpenChannel ''prova'' ''dma'', VmeOpenChannel ''prova'' ''pio'',
                VmeSetExceptionHandling, VmeSetDtype pio 0, VmeSetProperty dma 10 8,
                VmeMapAddress dma base n 0x9, VmeMapAddress pio base 0x1000000 0x9];
              wr = (if da_setvar c = 1 then [VmeDmaWrite dma 0 GenPatt n] else []);
              rd = (if da_setvar c = 0 then [VmeDmaRead dma 0 TestBuf n] else [])
          in \<lparr>dr_exit = 0,
              dr_calls = init @ each_word FlushLine n @ each_word CacheInv n @ wr @ rd
                @ [VmeCloseChannel pio, VmeCloseChannel dma],
              dr_sent = (if da_setvar c = 1 then Some gen else None),
              dr_diffs = (if da_setvar c = 0 then diffs (dma_words n) gen (de_read env base n test) else [])\<rparr>)"

section \<open>What the options set\<close>

fun opt_arg :: "char \<times> string \<Rightarrow> string" where
  "opt_arg (k, v) = CHR ''-'' # k # v"

text \<open>The last option of each letter counts; \<open>-r\<close> and \<open>-w\<close> replace each other.\<close>

definition last_opt :: "(char \<times> string) list \<Rightarrow> char \<Rightarrow> int option" where
  "last_opt opts k = map_option strtoul16 (map_of (rev opts) k)"

definition last_dir :: "(char \<times> string) list \<Rightarrow> (char \<times> int) option" where
  "last_dir opts = map_option (map_prod id strtoul16)
     (find (\<lambda>(k, v). k = CHR ''r'' \<or> k = CHR ''w'') (rev opts))"

definition args_of :: "(char \<times> string) list \<Rightarrow> dma_args \<Rightarrow> dma_args" where
  "args_of opts c =
     \<lparr>da_address = (case last_dir opts of None \<Rightarrow> da_address c | Some (k, n) \<Rightarrow> n),
      da_setvar = (case last_dir opts of None \<Rightarrow> da_setvar c | Some (k, n) \<Rightarrow> if k = CHR ''r'' then 0 else 1),
      da_blttype = (case last_opt opts (CHR ''b'') of None \<Rightarrow> da_blttype c | Some n \<Rightarrow> n),
      da_addressspace = (case last_opt opts (CHR ''a'') of None \<Rightarrow> da_addressspace c | Some n \<Rightarrow> n),
      da_sizeinbyte = (case last_opt opts (CHR ''z'') of None \<Rightarrow> da_sizeinbyte c | Some n \<Rightarrow> n)\<rparr>"

lemma dma_options_snoc: "dma_options (map opt_arg opts @ [opt_arg p]) c = dma_option (opt_arg p) (dma_options (map opt_arg opts) c)"
proof (induction opts arbitrary: c)
  case Nil
  then show ?case by (cases p) simp
next
  case (Cons q opts)
  then show ?case by (cases q) simp
qed

lemma dma_option_args: "dma_option (opt_arg (k, v)) (args_of opts c) = args_of (opts @ [(k, v)]) c"
proof -
  have u: "dma_option (opt_arg (k, v)) e =
      (if k = CHR ''r'' then e\<lparr>da_address := strtoul16 v, da_setvar := 0\<rparr>
       else if k = CHR ''w'' then e\<lparr>da_address := strtoul16 v, da_setvar := 1\<rparr>
       else if k = CHR ''b'' then e\<lparr>da_blttype := strtoul16 v\<rparr>
       else if k = CHR ''a'' then e\<lparr>da_addressspace := strtoul16 v\<rparr>
       else if k = CHR ''z'' then e\<lparr>da_sizeinbyte := strtoul16 v\<rparr> else e)" for e
    by (simp add: dma_option_def)
  have o: "last_opt (opts @ [(k, v)]) x = (if x = k then Some (strtoul16 v) else last_opt opts x)" for x
    by (simp add: last_opt_def)
  have d: "last_dir (opts @ [(k, v)]) = (if k = CHR ''r'' \<or> k = CHR ''w'' then Some (k, strtoul16 v) else last_dir opts)"
    by (simp add: last_dir_def)
  consider "k = CHR ''r''" | "k = CHR ''w''" | "k = CHR ''b''" | "k = CHR ''a''" | "k = CHR ''z''"
    | "k \<noteq> CHR ''r''" "k \<noteq> CHR ''w''" "k \<noteq> CHR ''b''" "k \<noteq> CHR ''a''" "k \<noteq> CHR ''z''" by blast
  then show ?thesis unfolding u args_of_def o d by cases simp_all
qed

lemma dma_options_args: "dma_options (map opt_arg opts) c = args_of opts c"
proof (induction opts rule: rev_induct)
  case Nil
  then show ?case by (simp add: args_of_def last_opt_def last_dir_def)
next
  case (snoc p opts)
  obtain k v where p: "p = (k, v)" by (cases p)
  show ?case unfolding map_append list.map dma_options_snoc snoc.IH unfolding p by (rule dma_option_args)
qed

lemma last_dir_cases: "last_dir opts = Some (d, n) \<Longrightarrow> d = CHR ''r'' \<or> d = CHR ''w''"
  by (auto simp: last_dir_def find_Some_iff)

section \<open>Runs with complete options\<close>

definition complete_opts :: "(char \<times> string) list \<Rightarrow> int \<Rightarrow> int \<Rightarrow> char \<Rightarrow> int \<Rightarrow> bool" where
  "complete_opts opts sz blt d addr \<longleftrightarrow>
     2 < length opts \<and> last_opt opts (CHR ''z'') = Some sz \<and> 0 \<le> sz
     \<and> last_opt opts (CHR ''b'') = Some blt \<and> btype_of blt \<noteq> None
     \<and> (case last_opt opts (CHR ''a'') of None \<Rightarrow> False | Some a \<Rightarrow> addrs_of a \<noteq> None)
     \<and> last_dir opts = Some (d, addr)"

definition env_ok :: "dma_env \<Rightarrow> int \<Rightarrow> bool" where
  "env_ok env sz \<longleftrightarrow> (\<forall>i<3. de_malloc env i sz) \<and> 0 \<le> de_ctl env \<and> 0 \<le> de_info env"

lemma dma_check_ok:
  assumes "complete_opts opts sz blt d addr" and "env_ok env sz" and "nbufs \<le> 3"
  obtains c where "dma_check env junk nbufs (prog # map opt_arg opts)
      = Inr (c, [OpenCtl, IoctlInfo (de_ctl env), CloseFd (de_ctl env)])"
    and "da_sizeinbyte c = sz" and "da_blttype c = blt" and "da_address c = addr"
    and "da_setvar c = (if d = CHR ''r'' then 0 else 1)"
proof -
  let ?c = "args_of opts junk"
  have a: "da_sizeinbyte ?c = sz" "da_blttype ?c = blt" "da_address ?c = addr"
    "da_setvar ?c = (if d = CHR ''r'' then 0 else 1)" "addrs_of (da_addressspace ?c) \<noteq> None"
    using assms(1) by (auto simp: complete_opts_def args_of_def split: option.splits)
  have "\<not> (\<exists>i<nbufs. \<not> de_malloc env i sz)" using assms(2,3) by (auto simp: env_ok_def)
  moreover have "getMyInfo env = (0, [OpenCtl, IoctlInfo (de_ctl env), CloseFd (de_ctl env)])"
    using assms(2) by (simp add: getMyInfo_def env_ok_def)
  moreover have "\<not> length (prog # map opt_arg opts) < 4" "btype_of blt \<noteq> None"
    using assms(1) by (simp_all add: complete_opts_def)
  ultimately have "dma_check env junk nbufs (prog # map opt_arg opts)
      = Inr (?c, [OpenCtl, IoctlInfo (de_ctl env), CloseFd (de_ctl env)])"
    unfolding dma_check_def list.sel dma_options_args Let_def a(1,2) using a(5) by simp
  then show thesis using that a by blast
qed

section \<open>Comparing and flushing\<close>

lemma diffs_empty:
  assumes "length src = n" and "length dst = n"
  shows "diffs n src dst = [] \<longleftrightarrow> dst = src"
proof -
  have "diffs n src dst = [] \<longleftrightarrow> (\<forall>i<n. src ! i = dst ! i)" by (auto simp: diffs_def filter_empty_conv)
  also have "\<dots> \<longleftrightarrow> src = dst" by (simp only: list_eq_iff_nth_eq assms simp_thms)
  finally show ?thesis by (simp only: eq_commute)
qed

lemma sdiv_div: "0 \<le> (n :: int) \<Longrightarrow> 0 < m \<Longrightarrow> n sdiv m = n div m"
  by (simp add: signed_divide_int_def sgn_if)

lemma dma_words_div: "0 \<le> n \<Longrightarrow> dma_words n = nat n div 4"
  by (simp add: dma_words_def sdiv_div nat_div_distrib)

lemma dma_lines_div: "0 \<le> n \<Longrightarrow> dma_lines n = nat n div 32 + 1"
  by (simp add: dma_lines_def sdiv_div nat_add_distrib nat_div_distrib pos_imp_zdiv_nonneg_iff)

lemma length_patterns [simp]:
  "length (src_pattern n) = dma_words n" "length (gen_pattern n) = dma_words n" "length (all_minus_99 n) = dma_words n"
  by (simp_all add: src_pattern_def gen_pattern_def all_minus_99_def)

text \<open>
  \<open>dcbf\<close> flushes the cache line that holds its address: lines are the aligned blocks of 32 bytes.
  For a buffer at address \<open>a\<close> the flushed pointers reach every byte exactly if what the buffer
  takes of its first line fits together with the rest of its size.
\<close>

lemma flushed_bytes:
  assumes "0 \<le> n"
  shows "(\<forall>k<nat n. \<exists>i. FlushLine b i \<in> set (flush_lines b n) \<and> (a + 4 * i) div 32 = (a + k) div 32)
    \<longleftrightarrow> a mod 32 + nat n mod 32 \<le> 32"
proof -
  let ?m = "nat n"
  have l: "(\<exists>i. FlushLine b i \<in> set (flush_lines b n) \<and> (a + 4 * i) div 32 = (a + k) div 32)
      \<longleftrightarrow> (a + k) div 32 \<le> a div 32 + ?m div 32" for k
  proof
    assume "\<exists>i. FlushLine b i \<in> set (flush_lines b n) \<and> (a + 4 * i) div 32 = (a + k) div 32"
    then obtain j where "j < ?m div 32 + 1" "(a + 4 * (8 * j)) div 32 = (a + k) div 32"
      by (auto simp: flush_lines_def dma_lines_div [OF assms] simp del: upt_Suc)
    then show "(a + k) div 32 \<le> a div 32 + ?m div 32" by simp
  next
    assume r: "(a + k) div 32 \<le> a div 32 + ?m div 32"
    let ?j = "(a + k) div 32 - a div 32"
    have "a div 32 \<le> (a + k) div 32" by (rule div_le_mono) simp
    then have "(a + 4 * (8 * ?j)) div 32 = (a + k) div 32" by simp
    moreover have "FlushLine b (8 * ?j) \<in> set (flush_lines b n)"
      using r by (auto simp: flush_lines_def dma_lines_div [OF assms] simp del: upt_Suc)
    ultimately show "\<exists>i. FlushLine b i \<in> set (flush_lines b n) \<and> (a + 4 * i) div 32 = (a + k) div 32" by blast
  qed
  have "(\<forall>k<?m. (a + k) div 32 \<le> a div 32 + ?m div 32) \<longleftrightarrow> ?m = 0 \<or> (a + (?m - 1)) div 32 \<le> a div 32 + ?m div 32"
  proof
    assume r: "?m = 0 \<or> (a + (?m - 1)) div 32 \<le> a div 32 + ?m div 32"
    show "\<forall>k<?m. (a + k) div 32 \<le> a div 32 + ?m div 32"
    proof (intro allI impI)
      fix k assume "k < ?m"
      then have "(a + k) div 32 \<le> (a + (?m - 1)) div 32" by (intro div_le_mono) simp
      then show "(a + k) div 32 \<le> a div 32 + ?m div 32" using r \<open>k < ?m\<close> by linarith
    qed
  next
    assume "\<forall>k<?m. (a + k) div 32 \<le> a div 32 + ?m div 32"
    then have "?m - 1 < ?m \<longrightarrow> (a + (?m - 1)) div 32 \<le> a div 32 + ?m div 32" by blast
    then show "?m = 0 \<or> (a + (?m - 1)) div 32 \<le> a div 32 + ?m div 32" by (cases ?m) simp_all
  qed
  also have "\<dots> \<longleftrightarrow> a mod 32 + ?m mod 32 \<le> 32"
  proof -
    have le: "x div 32 \<le> y \<longleftrightarrow> x < 32 * y + 32" for x y :: nat
      using div_less_iff_less_mult [of 32 x "y + 1"] by (simp add: less_Suc_eq_le algebra_simps)
    have ar: "(m = 0 \<or> x + (m - 1) < 32 * (A + Q) + 32) \<longleftrightarrow> r + s \<le> 32"
      if "x = 32 * A + r" "m = 32 * Q + s" "r < 32" for x m A Q r s :: nat
      using that by (cases "m = 0") auto
    show ?thesis unfolding le by (rule ar) simp_all
  qed
  finally show ?thesis unfolding l .
qed

fun is_transfer :: "dma_call \<Rightarrow> bool" where
  "is_transfer (DoDma _ _ _ _) = True"
| "is_transfer (VmeDmaWrite _ _ _ _) = True"
| "is_transfer (VmeDmaRead _ _ _ _) = True"
| "is_transfer _ = False"

lemma no_transfer_flush [simp]: "filter is_transfer (flush_lines b n) = []"
  by (simp add: flush_lines_def filter_empty_conv)

lemma no_transfer_each [simp]:
  "filter is_transfer (each_word FlushLine n) = []" "filter is_transfer (each_word CacheInv n) = []"
  by (simp_all add: each_word_def filter_empty_conv)

section \<open>The transfer of provadma\<close>


section \<open>The pattern of provadmalib\<close>

text \<open>
  \<open>dcbz\<close> does not invalidate a cache line, it sets the line to zero: the word at the address
  becomes zero, the other words become zero or stay.
\<close>

definition dcbz_ok :: "dma_env \<Rightarrow> bool" where
  "dcbz_ok env \<longleftrightarrow> (\<forall>ws i. i < length ws \<longrightarrow> length (de_dcbz env ws i) = length ws
     \<and> de_dcbz env ws i ! i = 0
     \<and> (\<forall>j<length ws. de_dcbz env ws i ! j = 0 \<or> de_dcbz env ws i ! j = ws ! j))"

lemma cacheinv_prefix:
  assumes "dcbz_ok env" and "n \<le> length ws"
  shows "length (cacheinv_words env n ws) = length ws \<and> (\<forall>j<n. cacheinv_words env n ws ! j = 0)"
  using assms(2)
proof (induction n)
  case (Suc n)
  let ?w = "cacheinv_words env n ws"
  have ih: "length ?w = length ws" "\<And>j. j < n \<Longrightarrow> ?w ! j = 0" using Suc by simp_all
  then have "n < length ?w" using Suc.prems by simp
  then have d: "length (de_dcbz env ?w n) = length ?w" "de_dcbz env ?w n ! n = 0"
    "\<And>j. j < length ?w \<Longrightarrow> de_dcbz env ?w n ! j = 0 \<or> de_dcbz env ?w n ! j = ?w ! j"
    using assms(1) unfolding dcbz_ok_def by blast+
  have "de_dcbz env ?w n ! j = 0" if "j < Suc n" for j
  proof (cases "j = n")
    case False
    then have "j < n" "j < length ?w" using that \<open>n < length ?w\<close> by simp_all
    then show ?thesis using d(3) [of j] ih(2) [of j] by simp
  qed (simp add: d(2))
  then show ?case using d(1) ih(1) by simp
qed simp

lemma cacheinv_zero:
  assumes "dcbz_ok env" and "n = length ws"
  shows "cacheinv_words env n ws = replicate n 0"
  using cacheinv_prefix [OF assms(1), of n ws] assms(2) by (simp add: list_eq_iff_nth_eq)

text \<open>
  \<open>provadmalib\<close> never uses its test pattern: the loop that is to invalidate the cache sets
  both buffers to zero, so a write sends zeros, and a read compares the words of the board
  with zeros: it prints exactly the words that are not zero.
\<close>

theorem provadmalib_pattern_lost:
  assumes "complete_opts opts sz blt d addr" and "env_ok env sz" and "dcbz_ok env"
  shows "let r = provadmalib env junk (prog # map opt_arg opts); n = dma_words sz; dma = de_channel env ''dma'';
      got = de_read env (uint (0xFFFF0000 AND (of_int addr :: u32))) sz (replicate n 0)
    in dr_exit r = 0
       \<and> (if d = CHR ''w''
          then filter is_transfer (dr_calls r) = [VmeDmaWrite dma 0 GenPatt sz]
            \<and> dr_sent r = Some (replicate n 0) \<and> dr_diffs r = []
          else filter is_transfer (dr_calls r) = [VmeDmaRead dma 0 TestBuf sz]
            \<and> dr_sent r = None \<and> dr_diffs r = [(i, 0, got ! i). i \<leftarrow> [0..<n], got ! i \<noteq> 0])"
proof -
  obtain c where chk: "dma_check env junk 2 (prog # map opt_arg opts)
      = Inr (c, [OpenCtl, IoctlInfo (de_ctl env), CloseFd (de_ctl env)])"
    and c: "da_sizeinbyte c = sz" "da_blttype c = blt" "da_address c = addr" "da_setvar c = (if d = CHR ''r'' then 0 else 1)"
    by (rule dma_check_ok [OF assms(1,2), of 2]) simp_all
  have d: "d = CHR ''r'' \<or> d = CHR ''w''"
    using assms(1) last_dir_cases by (auto simp: complete_opts_def)
  have z: "cacheinv_words env (dma_words sz) (gen_pattern sz) = replicate (dma_words sz) 0"
    "cacheinv_words env (dma_words sz) (all_minus_99 sz) = replicate (dma_words sz) 0"
    by (simp_all add: cacheinv_zero [OF assms(3)])
  have df: "diffs n (replicate n 0) got = [(i, 0, got ! i). i \<leftarrow> [0..<n], got ! i \<noteq> 0]" for n got
  proof -
    have "diffs n (replicate n 0) got = map (\<lambda>i. (i, 0, got ! i)) (filter (\<lambda>i. got ! i \<noteq> 0) [0..<n])"
      unfolding diffs_def by (intro map_cong filter_cong) auto
    also have "map (\<lambda>i. (i, 0, got ! i)) (filter (\<lambda>i. got ! i \<noteq> 0) xs)
        = [(i, 0, got ! i). i \<leftarrow> xs, got ! i \<noteq> 0]" for xs
      by (induction xs) simp_all
    finally show ?thesis .
  qed
  from d show ?thesis
  proof
    assume "d = CHR ''w''"
    then show ?thesis by (simp add: provadmalib_def chk c Let_def z)
  next
    assume "d = CHR ''r''"
    then show ?thesis by (simp add: provadmalib_def chk c Let_def z df)
  qed
qed

section \<open>Examples\<close>

definition ex_opts :: "(char \<times> string) list" where
  "ex_opts = [(CHR ''w'', ''30000000''), (CHR ''b'', ''2''), (CHR ''a'', ''1''), (CHR ''z'', ''10''), (CHR ''r'', ''40'')]"

definition ex_dma_env :: dma_env where
  "ex_dma_env = \<lparr>de_malloc = (\<lambda>i n. True), de_ctl = 3, de_info = 0, de_controller = 0, de_fd = 4,
     de_channel = (\<lambda>s. 7), de_read = (\<lambda>a n ws. map (\<lambda>w. 5) ws), de_dcbz = (\<lambda>ws i. ws[i := 0])\<rparr>"

definition ex_junk :: dma_args where
  "ex_junk = \<lparr>da_address = 1, da_setvar = 7, da_blttype = 3, da_addressspace = 9, da_sizeinbyte = 5\<rparr>"

lemma ex_complete: "complete_opts ex_opts 16 2 (CHR ''r'') 64"
  by code_simp

lemma ex_dma_env_ok: "env_ok ex_dma_env 16" "dcbz_ok ex_dma_env"
  by (simp_all add: env_ok_def dcbz_ok_def ex_dma_env_def nth_list_update)


theorem provadmalib_pattern_lost_witness:
  "let r = provadmalib ex_dma_env ex_junk (''provadmalib'' # map opt_arg ex_opts)
   in dr_sent r = None \<and> dr_diffs r = [(0, 0, 5), (1, 0, 5), (2, 0, 5), (3, 0, 5)]"
proof -
  have f: "de_read ex_dma_env = (\<lambda>a n ws. map (\<lambda>w. 5) ws)" by (simp add: ex_dma_env_def)
  have w: "dma_words 16 = 4" by code_simp
  show ?thesis using provadmalib_pattern_lost [OF ex_complete ex_dma_env_ok, of ex_junk "''provadmalib''"]
    by (simp add: f w Let_def upt_rec)
qed

end
