(* ===== verification/HttpThreads.thy ===== *)
theory HttpThreads
  imports HttpLib
begin

text \<open>
  The two threads of \<open>http_lib.c\<close> on one handle: the client, which sends a request and waits
  for its answer (\<open>http_request\<close>, \<open>http_wait_answer\<close>, \<open>http_get_answer\<close>,
  \<open>http_client_deinit\<close>), and the receiver (\<open>receive\<close>, \<open>getResponse\<close>). A step is what a thread
  does between two points where the other one can come in between: taking or releasing the
  mutex, waiting, signalling, one byte of the body.
\<close>

section \<open>States\<close>

datatype owner = Client | Receiver

text \<open>Where the client is; \<open>CRet m\<close> has copied \<open>m\<close> and is about to read \<open>p->retcode\<close>.\<close>

datatype client_pc = CIdle | CEnter | CCheck | CWait | CWake | CUnlock | CGet | CCopy | CRet string | CGone

text \<open>
  Where the receiver is: reading a header; with a header read, before the lock; in the body,
  with the bytes that come; with the result of \<open>getResponse\<close>; before the signal; before the
  test of \<open>p->exit\<close>.
\<close>

datatype receiver_pc = RHeader | RLock int string | RBody int string | RDone int | RSignal | RLoop

record http_sys =
  y_h :: http_handle
  y_lock :: "owner option"
  y_client :: client_pc
  y_recv :: receiver_pc
  y_got :: "(string \<times> int) list"
  y_freed :: bool

definition sys_init :: "http_handle \<Rightarrow> http_sys" where
  "sys_init h = \<lparr>y_h = h, y_lock = None, y_client = CIdle, y_recv = RHeader, y_got = [], y_freed = False\<rparr>"

definition store_byte :: "http_handle \<Rightarrow> char \<Rightarrow> http_handle" where
  "store_byte h c = (if length (hh_answer h) < MAXBUFFER - 1 then h\<lparr>hh_answer := hh_answer h @ [c]\<rparr> else h)"

section \<open>Steps\<close>

text \<open>
  \<open>reps\<close> are the answers of the server, a status and a body for each request in order; an
  answer comes only after its request. \<open>cap\<close> is the size of the client's buffer.
\<close>

inductive thread_step :: "(int \<times> string) list \<Rightarrow> nat \<Rightarrow> http_sys \<Rightarrow> http_sys \<Rightarrow> bool" for reps cap where
  Send: "y_client s = CIdle \<Longrightarrow> unat (hh_sendid (y_h s)) < length reps \<Longrightarrow>
     thread_step reps cap s (s\<lparr>y_client := CEnter, y_h := (y_h s)\<lparr>hh_sendid := hh_sendid (y_h s) + 1\<rparr>\<rparr>)"
| LockWait: "y_client s = CEnter \<Longrightarrow> y_lock s = None \<Longrightarrow>
     thread_step reps cap s (s\<lparr>y_client := CCheck, y_lock := Some Client\<rparr>)"
| MustWait: "y_client s = CCheck \<Longrightarrow> hh_sendid (y_h s) \<ge> hh_recvid (y_h s) \<Longrightarrow>
     thread_step reps cap s (s\<lparr>y_client := CWait, y_lock := None\<rparr>)"
| NoWait: "y_client s = CCheck \<Longrightarrow> \<not> hh_sendid (y_h s) \<ge> hh_recvid (y_h s) \<Longrightarrow>
     thread_step reps cap s (s\<lparr>y_client := CUnlock\<rparr>)"
| Relock: "y_client s = CWake \<Longrightarrow> y_lock s = None \<Longrightarrow>
     thread_step reps cap s (s\<lparr>y_client := CUnlock, y_lock := Some Client\<rparr>)"
| Unlock: "y_client s = CUnlock \<Longrightarrow> thread_step reps cap s (s\<lparr>y_client := CGet, y_lock := None\<rparr>)"
| LockGet: "y_client s = CGet \<Longrightarrow> y_lock s = None \<Longrightarrow>
     thread_step reps cap s (s\<lparr>y_client := CCopy, y_lock := Some Client\<rparr>)"
| Copy: "y_client s = CCopy \<Longrightarrow> http_get_answer (y_h s) cap (int cap) = Inr (m, r) \<Longrightarrow>
     thread_step reps cap s (s\<lparr>y_client := CRet m, y_lock := None\<rparr>)"
| Ret: "y_client s = CRet m \<Longrightarrow>
     thread_step reps cap s (s\<lparr>y_client := CIdle, y_got := y_got s @ [(m, hh_retcode (y_h s))]\<rparr>)"
| Deinit: "y_client s = CIdle \<Longrightarrow>
     thread_step reps cap s (s\<lparr>y_client := CGone, y_freed := True, y_h := (y_h s)\<lparr>hh_exit := 1\<rparr>\<rparr>)"
| Header: "y_recv s = RHeader \<Longrightarrow> hh_recvid (y_h s) < hh_sendid (y_h s) \<Longrightarrow>
     reps ! unat (hh_recvid (y_h s)) = (code, body) \<Longrightarrow>
     thread_step reps cap s (s\<lparr>y_recv := RLock code body\<rparr>)"
| LockBody: "y_recv s = RLock code body \<Longrightarrow> y_lock s = None \<Longrightarrow>
     thread_step reps cap s (s\<lparr>y_recv := RBody code body, y_lock := Some Receiver,
       y_h := (y_h s)\<lparr>hh_answer := [], hh_recvid := hh_recvid (y_h s) + 1\<rparr>\<rparr>)"
| Byte: "y_recv s = RBody code (c # rest) \<Longrightarrow>
     thread_step reps cap s (s\<lparr>y_recv := RBody code rest, y_h := store_byte (y_h s) c\<rparr>)"
| EndBody: "y_recv s = RBody code [] \<Longrightarrow> thread_step reps cap s (s\<lparr>y_recv := RDone code, y_lock := None\<rparr>)"
| SetCode: "y_recv s = RDone code \<Longrightarrow>
     thread_step reps cap s (s\<lparr>y_recv := RSignal, y_h := (y_h s)\<lparr>hh_retcode := code\<rparr>\<rparr>)"
| Signal: "y_recv s = RSignal \<Longrightarrow>
     thread_step reps cap s (s\<lparr>y_recv := RLoop, y_client := (if y_client s = CWait then CWake else y_client s)\<rparr>)"
| Loop: "y_recv s = RLoop \<Longrightarrow> hh_exit (y_h s) = 0 \<Longrightarrow> thread_step reps cap s (s\<lparr>y_recv := RHeader\<rparr>)"

text \<open>
  What comes from outside: a wake-up without a signal, a header that cannot be read, a body that
  breaks off. After a failing header \<open>getResponse\<close> has not taken the mutex, but it releases it
  all the same at its end, whoever holds it (a default mutex has no check of the owner).
\<close>

datatype outside = Wakeups | BadHeaders | CutBodies

inductive outside_step :: "outside \<Rightarrow> http_sys \<Rightarrow> http_sys \<Rightarrow> bool" where
  Spurious: "y_client s = CWait \<Longrightarrow> outside_step Wakeups s (s\<lparr>y_client := CWake\<rparr>)"
| BadHeader: "y_recv s = RHeader \<Longrightarrow> code \<le> 0 \<Longrightarrow>
     outside_step BadHeaders s (s\<lparr>y_recv := RDone code, y_lock := None\<rparr>)"
| CutBody: "y_recv s = RBody code rest \<Longrightarrow>
     outside_step CutBodies s (s\<lparr>y_recv := RDone code, y_lock := None\<rparr>)"

text \<open>The states reached; \<open>E\<close> says which outside steps occur.\<close>

inductive reached :: "(int \<times> string) list \<Rightarrow> nat \<Rightarrow> http_handle \<Rightarrow> outside set \<Rightarrow> http_sys \<Rightarrow> bool" for reps cap h E where
  start: "reached reps cap h E (sys_init h)"
| thread: "reached reps cap h E s \<Longrightarrow> thread_step reps cap s s' \<Longrightarrow> reached reps cap h E s'"
| outside: "reached reps cap h E s \<Longrightarrow> e \<in> E \<Longrightarrow> outside_step e s s' \<Longrightarrow> reached reps cap h E s'"

inductive_cases outsideE: "outside_step e s s'"

section \<open>Runs without outside steps\<close>

definition stored :: "string \<Rightarrow> string" where
  "stored body = take (MAXBUFFER - 1) body"

text \<open>What \<open>http_request\<close> gives for an answer of the server.\<close>

definition delivered :: "nat \<Rightarrow> int \<times> string \<Rightarrow> (string \<times> int) res" where
  "delivered cap r =
     (let l = length (stored (snd r)); n = (if size_of_int (int cap) < l then size_of_int (int cap) else l + 1)
      in guard_res (n \<le> cap) OutOfBounds (Inr (take n (stored (snd r) @ [NUL]), fst r)))"

definition final :: "http_handle \<Rightarrow> int \<times> string \<Rightarrow> bool" where
  "final h r \<longleftrightarrow> hh_answer h = stored (snd r) \<and> hh_retcode h = fst r"

lemma final_delivered: "final h r \<Longrightarrow> http_get_answer h cap (int cap) = delivered cap r"
  by (simp add: final_def http_get_answer_def delivered_def)

text \<open>The receiver before it has taken the answer \<open>r\<close> in, and from then on.\<close>

fun not_begun :: "receiver_pc \<Rightarrow> int \<times> string \<Rightarrow> bool" where
  "not_begun RHeader r = True"
| "not_begun RLoop r = True"
| "not_begun (RLock code body) r = (r = (code, body))"
| "not_begun _ r = False"

fun begun :: "receiver_pc \<Rightarrow> http_handle \<Rightarrow> int \<times> string \<Rightarrow> bool" where
  "begun (RBody code rest) h r =
     (code = fst r \<and> stored (snd r) = stored (hh_answer h @ rest) \<and> length (hh_answer h) \<le> MAXBUFFER - 1)"
| "begun (RDone code) h r = (code = fst r \<and> hh_answer h = stored (snd r))"
| "begun RSignal h r = final h r"
| "begun RLoop h r = final h r"
| "begun RHeader h r = final h r"
| "begun (RLock code body) h r = False"

fun phase :: "client_pc \<Rightarrow> receiver_pc \<Rightarrow> http_handle \<Rightarrow> (int \<times> string) list \<Rightarrow> nat \<Rightarrow> nat \<Rightarrow> bool" where
  "phase CIdle rc h reps cap g = (unat (hh_sendid h) = g \<and> unat (hh_recvid h) = g \<and> (rc = RLoop \<or> rc = RHeader))"
| "phase CGone rc h reps cap g = (unat (hh_sendid h) = g \<and> unat (hh_recvid h) = g \<and> (rc = RLoop \<or> rc = RHeader))"
| "phase (CRet m) rc h reps cap g = (unat (hh_sendid h) = g + 1 \<and> unat (hh_recvid h) = g + 1
     \<and> (rc = RLoop \<or> rc = RHeader) \<and> final h (reps ! g) \<and> delivered cap (reps ! g) = Inr (m, fst (reps ! g)))"
| "phase cl rc h reps cap g =
     (unat (hh_sendid h) = g + 1
      \<and> (if cl = CEnter \<or> cl = CCheck \<or> cl = CWait
         then (unat (hh_recvid h) = g \<and> not_begun rc (reps ! g)) \<or> (unat (hh_recvid h) = g + 1 \<and> begun rc h (reps ! g))
         else unat (hh_recvid h) = g + 1 \<and> (rc = RLoop \<or> rc = RHeader) \<and> final h (reps ! g)))"

definition lock_ok :: "http_sys \<Rightarrow> bool" where
  "lock_ok s \<longleftrightarrow> (y_lock s = Some Client \<longleftrightarrow> y_client s = CCheck \<or> y_client s = CUnlock \<or> y_client s = CCopy)
     \<and> (y_lock s = Some Receiver \<longleftrightarrow> (\<exists>code rest. y_recv s = RBody code rest))"

definition in_order :: "(int \<times> string) list \<Rightarrow> nat \<Rightarrow> http_sys \<Rightarrow> bool" where
  "in_order reps cap s \<longleftrightarrow> length (y_got s) \<le> length reps
     \<and> (\<forall>k<length (y_got s). delivered cap (reps ! k) = Inr (y_got s ! k))"

definition clean_inv :: "(int \<times> string) list \<Rightarrow> nat \<Rightarrow> http_sys \<Rightarrow> bool" where
  "clean_inv reps cap s \<longleftrightarrow> lock_ok s \<and> in_order reps cap s \<and> unat (hh_sendid (y_h s)) \<le> length reps
     \<and> phase (y_client s) (y_recv s) (y_h s) reps cap (length (y_got s))"

lemma unat_inc: "unat w < n \<Longrightarrow> n < 2 ^ 64 \<Longrightarrow> unat (w + 1 :: u64) = unat w + 1"
  by (simp add: unat_word_ariths)

lemma stored_step:
  assumes "stored b = stored (hh_answer h @ c # rest)" and "length (hh_answer h) \<le> MAXBUFFER - 1"
  shows "stored b = stored (hh_answer (store_byte h c) @ rest) \<and> length (hh_answer (store_byte h c)) \<le> MAXBUFFER - 1"
  using assms by (auto simp: stored_def store_byte_def take_Cons')

lemma lock_step: "thread_step reps cap s s' \<Longrightarrow> lock_ok s \<Longrightarrow> lock_ok s'"
  by (erule thread_step.cases) (auto simp: lock_ok_def)

lemma store_byte_fields [simp]:
  "hh_sendid (store_byte h c) = hh_sendid h" "hh_recvid (store_byte h c) = hh_recvid h"
  "hh_retcode (store_byte h c) = hh_retcode h"
  by (simp_all add: store_byte_def)

lemma delivered_code: "delivered cap x = Inr (m, r) \<Longrightarrow> r = fst x"
  by (simp add: delivered_def Let_def guard_res_def split: if_splits)

lemma clean_step:
  assumes "thread_step reps cap s s'" and "clean_inv reps cap s" and "length reps < 2 ^ 64"
  shows "clean_inv reps cap s'"
  using assms(1)
proof cases
  case Send
  then show ?thesis using assms(2,3) lock_step [OF assms(1)] unat_inc [of "hh_sendid (y_h s)" "length reps"]
    by (auto simp: clean_inv_def in_order_def final_def)
next
  case LockWait
  then show ?thesis using assms(2) lock_step [OF assms(1)] by (auto simp: clean_inv_def in_order_def)
next
  case MustWait
  then show ?thesis using assms(2) lock_step [OF assms(1)] by (auto simp: clean_inv_def in_order_def)
next
  case NoWait
  then show ?thesis using assms(2) by (auto simp: clean_inv_def word_le_nat_alt)
next
  case Relock
  then show ?thesis using assms(2) lock_step [OF assms(1)] by (auto simp: clean_inv_def in_order_def)
next
  case Unlock
  then show ?thesis using assms(2) lock_step [OF assms(1)] by (auto simp: clean_inv_def in_order_def)
next
  case LockGet
  then show ?thesis using assms(2) lock_step [OF assms(1)] by (auto simp: clean_inv_def in_order_def)
next
  case (Copy m r)
  let ?x = "reps ! length (y_got s)"
  have f: "final (y_h s) ?x" using assms(2) Copy by (simp add: clean_inv_def)
  then have "delivered cap ?x = Inr (m, r)" using Copy final_delivered [OF f, of cap] by simp
  then have "delivered cap ?x = Inr (m, fst ?x)" using delivered_code by metis
  then show ?thesis using assms(2) Copy lock_step [OF assms(1)] f
    by (simp add: clean_inv_def in_order_def)
next
  case (Ret m)
  then show ?thesis using assms(2) lock_step [OF assms(1)]
    by (auto simp: clean_inv_def in_order_def final_def nth_append less_Suc_eq)
next
  case Deinit
  then show ?thesis using assms(2) lock_step [OF assms(1)] by (auto simp: clean_inv_def in_order_def)
next
  case (Header code body)
  then show ?thesis using assms(2) lock_step [OF assms(1)]
    by (cases "y_client s") (auto simp: clean_inv_def in_order_def word_less_nat_alt)
next
  case (LockBody code body)
  then show ?thesis using assms(2,3) lock_step [OF assms(1)] unat_inc [of "hh_recvid (y_h s)" "length reps"]
    by (cases "y_client s") (auto simp: clean_inv_def in_order_def)
next
  case (Byte code c rest)
  then show ?thesis using assms(2) lock_step [OF assms(1)] stored_step [of _ "y_h s" c rest]
    by (cases "y_client s") (auto simp: clean_inv_def in_order_def)
next
  case (EndBody code)
  then show ?thesis using assms(2) lock_step [OF assms(1)]
    by (cases "y_client s") (auto simp: clean_inv_def in_order_def stored_def)
next
  case (SetCode code)
  then show ?thesis using assms(2) lock_step [OF assms(1)]
    by (cases "y_client s") (auto simp: clean_inv_def in_order_def final_def)
next
  case Signal
  then show ?thesis using assms(2) lock_step [OF assms(1)]
    by (cases "y_client s") (auto simp: clean_inv_def in_order_def)
next
  case Loop
  then show ?thesis using assms(2) lock_step [OF assms(1)]
    by (cases "y_client s") (auto simp: clean_inv_def in_order_def)
qed

lemma clean_reached:
  assumes "reached reps cap h {} s" and "length reps < 2 ^ 64" and "hh_sendid h = 0" "hh_recvid h = 0"
  shows "clean_inv reps cap s"
  using assms(1)
proof induction
  case start
  then show ?case using assms(3,4) by (simp add: clean_inv_def lock_ok_def in_order_def sys_init_def)
next
  case (thread s s')
  then show ?case using clean_step assms(2) by blast
qed simp

lemma lock_reached:
  assumes "reached reps cap h E s" and "BadHeaders \<notin> E"
  shows "lock_ok s"
  using assms(1)
proof (induction rule: reached.induct)
  case (outside s e s')
  from outside(3,2) assms(2) have "y_recv s' = y_recv s \<and> y_lock s' = y_lock s \<and> y_client s = CWait \<and> y_client s' = CWake
     \<or> (\<exists>code rest. y_recv s = RBody code rest \<and> y_recv s' = RDone code \<and> y_lock s' = None \<and> y_client s' = y_client s)"
    by (cases rule: outside_step.cases) auto
  then show ?case using outside(4) by (cases "y_recv s") (auto simp: lock_ok_def)
qed (auto simp: lock_ok_def sys_init_def dest: lock_step)

text \<open>The handle is given up only by \<open>http_client_deinit\<close>.\<close>

lemma exit_reached: "reached reps cap h E s \<Longrightarrow> hh_exit h = 0 \<Longrightarrow> y_client s \<noteq> CGone \<Longrightarrow> hh_exit (y_h s) = 0"
proof (induction rule: reached.induct)
  case (thread s s')
  from thread(2-5) show ?case
    by (cases rule: thread_step.cases) (auto simp: store_byte_def split: if_splits)
next
  case (outside s e s')
  from outside(3-6) show ?case by (cases rule: outside_step.cases) auto
qed (simp add: sys_init_def)

lemma init_handle:
  "http_client_init a b sock = Inr (Some h) \<Longrightarrow>
     hh_sendid h = 0 \<and> hh_recvid h = 0 \<and> hh_exit h = 0 \<and> hh_answer h = [] \<and> hh_retcode h = 0"
  by (auto simp: http_client_init_def guard_res_def split: if_splits)

section \<open>Particular runs\<close>

lemma foldl_store:
  "hh_sendid (foldl store_byte h cs) = hh_sendid h" "hh_recvid (foldl store_byte h cs) = hh_recvid h"
  "hh_retcode (foldl store_byte h cs) = hh_retcode h" "hh_exit (foldl store_byte h cs) = hh_exit h"
  by (induction cs arbitrary: h) (simp_all add: store_byte_def)

lemma foldl_store_answer:
  "length (hh_answer h) \<le> MAXBUFFER - 1 \<Longrightarrow> hh_answer (foldl store_byte h cs) = stored (hh_answer h @ cs)"
proof (induction cs arbitrary: h)
  case Nil
  then show ?case by (simp add: stored_def)
next
  case (Cons c cs)
  have "stored (hh_answer h @ c # cs) = stored (hh_answer (store_byte h c) @ cs) \<and> length (hh_answer (store_byte h c)) \<le> MAXBUFFER - 1"
    by (rule stored_step [OF refl Cons.prems])
  then show ?case using Cons.IH [of "store_byte h c"] by simp
qed

lemma body_run:
  "reached reps cap h E s \<Longrightarrow> y_recv s = RBody code rest \<Longrightarrow>
     reached reps cap h E (s\<lparr>y_recv := RBody code [], y_h := foldl store_byte (y_h s) rest\<rparr>)"
proof (induction rest arbitrary: s)
  case Nil
  then have "s\<lparr>y_recv := RBody code [], y_h := foldl store_byte (y_h s) []\<rparr> = s" by simp
  then show ?case using Nil(1) by simp
next
  case (Cons c rest)
  from Cons.IH [OF reached.thread [OF Cons.prems(1) Byte [OF Cons.prems(2)]]] show ?case by simp
qed

text \<open>The receiver takes an answer in, from the header to the signal.\<close>

lemma receive_run:
  assumes "reached reps cap h E s" and "y_recv s = RHeader" and "y_lock s = None"
    and "hh_recvid (y_h s) < hh_sendid (y_h s)" and "reps ! unat (hh_recvid (y_h s)) = (code, body)"
  shows "\<exists>hn. reached reps cap h E (s\<lparr>y_recv := RLoop, y_h := hn,
        y_client := (if y_client s = CWait then CWake else y_client s)\<rparr>)
     \<and> hh_answer hn = stored body \<and> hh_retcode hn = code \<and> hh_sendid hn = hh_sendid (y_h s)
     \<and> hh_recvid hn = hh_recvid (y_h s) + 1 \<and> hh_exit hn = hh_exit (y_h s)"
proof -
  let ?h1 = "(y_h s)\<lparr>hh_answer := [], hh_recvid := hh_recvid (y_h s) + 1\<rparr>"
  let ?h2 = "foldl store_byte ?h1 body"
  have 1: "reached reps cap h E (s\<lparr>y_recv := RLock code body\<rparr>)"
    by (rule reached.thread [OF assms(1) Header [OF assms(2,4,5)]])
  have 2: "reached reps cap h E (s\<lparr>y_recv := RBody code body, y_lock := Some Receiver, y_h := ?h1\<rparr>)"
    using reached.thread [OF 1 LockBody [of _ code body]] assms(3) by (cases s) simp
  have 3: "reached reps cap h E (s\<lparr>y_recv := RBody code [], y_lock := Some Receiver, y_h := ?h2\<rparr>)"
    using body_run [OF 2] by (cases s) simp
  have 4: "reached reps cap h E (s\<lparr>y_recv := RDone code, y_lock := None, y_h := ?h2\<rparr>)"
    using reached.thread [OF 3 EndBody [of _ code]] by (cases s) simp
  have 5: "reached reps cap h E (s\<lparr>y_recv := RSignal, y_lock := None, y_h := ?h2\<lparr>hh_retcode := code\<rparr>\<rparr>)"
    using reached.thread [OF 4 SetCode [of _ code]] by (cases s) simp
  have 6: "reached reps cap h E (s\<lparr>y_recv := RLoop, y_lock := None, y_h := ?h2\<lparr>hh_retcode := code\<rparr>,
      y_client := (if y_client s = CWait then CWake else y_client s)\<rparr>)"
    using reached.thread [OF 5 Signal] by (cases s) (simp cong: if_cong)
  have "s\<lparr>y_recv := RLoop, y_lock := None, y_h := hn, y_client := c\<rparr> = s\<lparr>y_recv := RLoop, y_h := hn, y_client := c\<rparr>" for hn c
    using assms(3) by (cases s) simp
  with 6 have "reached reps cap h E (s\<lparr>y_recv := RLoop, y_h := ?h2\<lparr>hh_retcode := code\<rparr>,
      y_client := (if y_client s = CWait then CWake else y_client s)\<rparr>)" by simp
  then show ?thesis by - (rule exI, intro conjI, assumption, simp_all add: foldl_store foldl_store_answer)
qed


section \<open>What must happen\<close>

text \<open>On every way the two threads can go on from \<open>s\<close>, they come to a state with \<open>P\<close>.\<close>

inductive inevitable :: "(int \<times> string) list \<Rightarrow> nat \<Rightarrow> (http_sys \<Rightarrow> bool) \<Rightarrow> http_sys \<Rightarrow> bool" for reps cap P where
  now: "P s \<Longrightarrow> inevitable reps cap P s"
| later: "thread_step reps cap s s0 \<Longrightarrow> (\<And>s'. thread_step reps cap s s' \<Longrightarrow> inevitable reps cap P s')
     \<Longrightarrow> inevitable reps cap P s"

lemma inevitable_measure:
  fixes m :: "http_sys \<Rightarrow> nat"
  assumes "\<And>s. Q s \<Longrightarrow> \<not> P s \<Longrightarrow> \<exists>s'. thread_step reps cap s s'"
    and "\<And>s s'. Q s \<Longrightarrow> \<not> P s \<Longrightarrow> thread_step reps cap s s' \<Longrightarrow> Q s' \<and> m s' < m s"
  shows "Q s \<Longrightarrow> inevitable reps cap P s"
proof (induction "m s" arbitrary: s rule: less_induct)
  case less
  show ?case
  proof (cases "P s")
    case False
    from assms(1) [OF less.prems False] obtain s0 where "thread_step reps cap s s0" ..
    then show ?thesis by (rule later) (use assms(2) [OF less.prems False] less.hyps in blast)
  qed (rule now)
qed

text \<open>The receiver has the answer to the last request in the handle and has given its signal.\<close>

definition signalled :: "http_sys \<Rightarrow> bool" where
  "signalled s \<longleftrightarrow> unat (hh_recvid (y_h s)) = length (y_got s) + 1 \<and> (y_recv s = RLoop \<or> y_recv s = RHeader)"

text \<open>The client on the way from its wait to the return, with the answers \<open>gs\<close> before.\<close>

definition returning :: "(int \<times> string) list \<Rightarrow> nat \<Rightarrow> (string \<times> int) list \<Rightarrow> string \<times> int \<Rightarrow> http_sys \<Rightarrow> bool" where
  "returning reps cap gs ans s \<longleftrightarrow> clean_inv reps cap s \<and> hh_exit (y_h s) = 0
     \<and> (y_got s = gs \<and> length gs < length reps
          \<and> (y_client s = CWait \<and> \<not> signalled s \<or> y_client s = CWake \<or> y_client s = CUnlock
             \<or> y_client s = CGet \<or> y_client s = CCopy \<or> (\<exists>m. y_client s = CRet m))
        \<or> y_client s = CIdle \<and> y_got s = gs @ [ans])"

fun recv_left :: "nat \<Rightarrow> receiver_pc \<Rightarrow> nat" where
  "recv_left n RLoop = n + 6"
| "recv_left n RHeader = n + 5"
| "recv_left n (RLock code body) = length body + 4"
| "recv_left n (RBody code rest) = length rest + 3"
| "recv_left n (RDone code) = 2"
| "recv_left n RSignal = 1"

definition steps_left :: "nat \<Rightarrow> http_sys \<Rightarrow> nat" where
  "steps_left n s =
     (let r = (if y_recv s = RLoop then 1 else 0) in
      case y_client s of CWait \<Rightarrow> 20 + recv_left n (y_recv s)
      | CWake \<Rightarrow> 18 + r | CUnlock \<Rightarrow> 16 + r | CGet \<Rightarrow> 14 + r | CCopy \<Rightarrow> 12 + r | CRet m \<Rightarrow> 10 + r | _ \<Rightarrow> 0)"

lemma returning_step:
  assumes "returning reps cap gs ans s" and "y_got s = gs" and "thread_step reps cap s s'" and "length reps < 2 ^ 64"
    and "delivered cap (reps ! length gs) = Inr ans"
  shows "returning reps cap gs ans s' \<and> steps_left (length (snd (reps ! length gs))) s' < steps_left (length (snd (reps ! length gs))) s"
proof -
  have c: "clean_inv reps cap s" "clean_inv reps cap s'"
    using assms(1) clean_step [OF assms(3) _ assms(4)] by (auto simp: returning_def)
  show ?thesis
    using assms(3)
  proof cases
    case (Ret m)
    then show ?thesis using c assms(1,2,5) by (auto simp: returning_def clean_inv_def final_def steps_left_def)
  next
    case (Header code body)
    then show ?thesis using c assms(1,2) by (auto simp: returning_def signalled_def clean_inv_def steps_left_def)
  next
    case (LockBody code body)
    then show ?thesis using c assms(1,2) by (auto simp: returning_def signalled_def clean_inv_def steps_left_def)
  qed (use c assms(1,2) in \<open>auto simp: returning_def signalled_def clean_inv_def steps_left_def store_byte_def\<close>)
qed

lemma lock_free: "lock_ok s \<Longrightarrow> y_client s \<noteq> CCheck \<Longrightarrow> y_client s \<noteq> CUnlock \<Longrightarrow> y_client s \<noteq> CCopy
    \<Longrightarrow> (\<And>code rest. y_recv s \<noteq> RBody code rest) \<Longrightarrow> y_lock s = None"
  by (cases "y_lock s") (auto simp: lock_ok_def intro: owner.exhaust)

lemma returning_next:
  assumes "returning reps cap gs ans s" and "y_got s = gs" and "delivered cap (reps ! length gs) = Inr ans"
  shows "\<exists>s'. thread_step reps cap s s'"
proof -
  have c: "clean_inv reps cap s" "lock_ok s" using assms(1) by (auto simp: returning_def clean_inv_def)
  consider "y_client s = CWait" "\<not> signalled s" | "y_client s = CWake \<or> y_client s = CGet" | "y_client s = CUnlock"
    | "y_client s = CCopy" | m where "y_client s = CRet m"
    using assms(1,2) by (auto simp: returning_def)
  then show ?thesis
  proof cases
    case 1
    show ?thesis
    proof (cases "y_recv s")
      case RHeader
      then have "hh_recvid (y_h s) < hh_sendid (y_h s)" using 1 c by (simp add: clean_inv_def signalled_def word_less_nat_alt)
      then show ?thesis using Header [OF RHeader] by (metis surj_pair)
    next
      case (RLock code body)
      then show ?thesis using LockBody [OF RLock lock_free [OF c(2)]] 1 by auto
    next
      case (RBody code rest)
      then show ?thesis by (cases rest) (blast intro: Byte EndBody)+
    next
      case RLoop
      then show ?thesis using Loop assms(1) by (auto simp: returning_def)
    qed (blast intro: SetCode Signal)+
  next
    case 2
    then have "y_lock s = None" using c lock_free [OF c(2)] by (auto simp: clean_inv_def)
    then show ?thesis using 2 by (blast intro: Relock LockGet)
  next
    case 4
    then have "final (y_h s) (reps ! length gs)" using c(1) assms(2) by (simp add: clean_inv_def)
    then show ?thesis using final_delivered [of "y_h s" _ cap] Copy [OF 4, of cap] assms(3) by (metis surj_pair)
  qed (blast intro: Unlock Ret)+
qed

lemma returns:
  assumes "returning reps cap gs ans s" and "length reps < 2 ^ 64" and "delivered cap (reps ! length gs) = Inr ans"
  shows "inevitable reps cap (\<lambda>s. y_client s = CIdle \<and> y_got s = gs @ [ans]) s"
proof (rule inevitable_measure [where Q = "returning reps cap gs ans" and m = "steps_left (length (snd (reps ! length gs)))", OF _ _ assms(1)])
  fix s assume q: "returning reps cap gs ans s" "\<not> (y_client s = CIdle \<and> y_got s = gs @ [ans])"
  then have g: "y_got s = gs" by (auto simp: returning_def)
  show "\<exists>s'. thread_step reps cap s s'" by (rule returning_next [OF q(1) g assms(3)])
  fix s' assume "thread_step reps cap s s'"
  then show "returning reps cap gs ans s' \<and> steps_left (length (snd (reps ! length gs))) s'
       < steps_left (length (snd (reps ! length gs))) s"
    by (rule returning_step [OF q(1) g _ assms(2,3)])
qed

text \<open>The client that comes to its wait after the signal.\<close>

definition too_late :: "(int \<times> string) list \<Rightarrow> nat \<Rightarrow> (string \<times> int) list \<Rightarrow> http_sys \<Rightarrow> bool" where
  "too_late reps cap gs s \<longleftrightarrow> clean_inv reps cap s \<and> hh_exit (y_h s) = 0 \<and> y_got s = gs \<and> signalled s
     \<and> (y_client s = CEnter \<or> y_client s = CCheck \<or> y_client s = CWait)"

definition late_left :: "http_sys \<Rightarrow> nat" where
  "late_left s = (case y_client s of CEnter \<Rightarrow> 4 | CCheck \<Rightarrow> 2 | _ \<Rightarrow> 0) + (if y_recv s = RLoop then 1 else 0)"

lemma too_late_next:
  assumes "too_late reps cap gs s" and "\<not> (y_client s = CWait \<and> y_recv s = RHeader)"
  shows "\<exists>s'. thread_step reps cap s s'"
proof -
  have c: "clean_inv reps cap s" "lock_ok s" using assms(1) by (auto simp: too_late_def clean_inv_def)
  consider "y_recv s = RLoop" | "y_recv s = RHeader" "y_client s = CEnter" | "y_client s = CCheck"
    using assms by (auto simp: too_late_def signalled_def)
  then show ?thesis
  proof cases
    case 1
    then show ?thesis using Loop assms(1) by (auto simp: too_late_def)
  next
    case 2
    then show ?thesis using LockWait [OF 2(2) lock_free [OF c(2)]] by auto
  next
    case 3
    then have "hh_sendid (y_h s) \<ge> hh_recvid (y_h s)"
      using assms(1) c(1) by (auto simp: too_late_def signalled_def clean_inv_def word_le_nat_alt)
    then show ?thesis using MustWait [OF 3] by blast
  qed
qed

lemma too_late_step:
  assumes "too_late reps cap gs s" and "thread_step reps cap s s'" and "length reps < 2 ^ 64"
  shows "too_late reps cap gs s' \<and> late_left s' < late_left s"
proof -
  have c: "clean_inv reps cap s" "clean_inv reps cap s'"
    using assms(1) clean_step [OF assms(2) _ assms(3)] by (auto simp: too_late_def)
  show ?thesis
    using assms(2) by cases (use c assms(1) in \<open>auto simp: too_late_def signalled_def late_left_def clean_inv_def word_le_nat_alt word_less_nat_alt\<close>)
qed

lemma too_late_stuck:
  assumes "too_late reps cap gs s" and "y_client s = CWait" and "y_recv s = RHeader"
  shows "final (y_h s) (reps ! length gs) \<and> (\<forall>s'. \<not> thread_step reps cap s s')"
proof -
  have "unat (hh_recvid (y_h s)) = unat (hh_sendid (y_h s)) \<and> final (y_h s) (reps ! length gs)"
    using assms by (auto simp: too_late_def clean_inv_def signalled_def)
  then show ?thesis using assms(2,3) by (auto elim!: thread_step.cases simp: word_less_nat_alt)
qed

lemma waits_for_ever:
  assumes "too_late reps cap gs s" and "length reps < 2 ^ 64"
  shows "inevitable reps cap (\<lambda>s. y_client s = CWait \<and> y_got s = gs \<and> final (y_h s) (reps ! length gs)
      \<and> (\<forall>s'. \<not> thread_step reps cap s s')) s"
proof (rule inevitable_measure [where Q = "too_late reps cap gs" and m = late_left, OF _ _ assms(1)])
  fix s assume q: "too_late reps cap gs s"
    and n: "\<not> (y_client s = CWait \<and> y_got s = gs \<and> final (y_h s) (reps ! length gs) \<and> (\<forall>s'. \<not> thread_step reps cap s s'))"
  have "\<not> (y_client s = CWait \<and> y_recv s = RHeader)"
    using too_late_stuck [OF q] n q by (auto simp: too_late_def)
  then show "\<exists>s'. thread_step reps cap s s'" by (rule too_late_next [OF q])
  fix s' assume "thread_step reps cap s s'"
  then show "too_late reps cap gs s' \<and> late_left s' < late_left s" by (rule too_late_step [OF q _ assms(2)])
qed

lemma inevitable_reached: "inevitable reps cap P s \<Longrightarrow> reached reps cap h E s \<Longrightarrow> \<exists>s'. reached reps cap h E s' \<and> P s'"
  by (induction rule: inevitable.induct) (blast intro: thread)+

text \<open>The client waits for the first answer.\<close>

lemma run_to_wait:
  assumes "hh_sendid h = 0" "hh_recvid h = 0" and "reps \<noteq> []"
  shows "reached reps cap h E ((sys_init h)\<lparr>y_client := CWait, y_h := h\<lparr>hh_sendid := 1\<rparr>\<rparr>)"
proof -
  let ?s = "\<lambda>c. (sys_init h)\<lparr>y_client := c, y_h := h\<lparr>hh_sendid := 1\<rparr>\<rparr>"
  have 1: "reached reps cap h E (?s CEnter)"
    using reached.thread [OF reached.start Send [of "sys_init h"]] by (simp add: sys_init_def assms)
  have 2: "reached reps cap h E ((?s CCheck)\<lparr>y_lock := Some Client\<rparr>)"
    using reached.thread [OF 1 LockWait] by (simp add: sys_init_def)
  show ?thesis using reached.thread [OF 2 MustWait] by (simp add: sys_init_def assms)
qed

text \<open>The first answer is there, and the client is before its wait.\<close>

lemma run_to_loss:
  assumes "hh_sendid h = 0" "hh_recvid h = 0" and "reps = (code, body) # later"
  shows "\<exists>hn. reached reps cap h E ((sys_init h)\<lparr>y_client := CEnter, y_h := hn, y_recv := RLoop\<rparr>) \<and> hh_recvid hn = 1"
proof -
  have "reached reps cap h E ((sys_init h)\<lparr>y_client := CEnter, y_h := h\<lparr>hh_sendid := 1\<rparr>\<rparr>)"
    using reached.thread [OF reached.start Send [of "sys_init h"]] by (simp add: sys_init_def assms)
  from receive_run [OF this, of code body] show ?thesis by (auto simp: sys_init_def assms)
qed

text \<open>Two failing headers take the mutex from the client and give the receiver the answer to write.\<close>

lemma overlap:
  assumes "hh_sendid h = 0" "hh_recvid h = 0" "hh_exit h = 0" and "reps = (code, body) # later"
  shows "\<exists>s. reached reps cap h {BadHeaders} s \<and> y_client s = CCopy \<and> y_recv s = RBody code body"
proof -
  let ?R = "reached reps cap h {BadHeaders}"
  let ?h = "h\<lparr>hh_sendid := 1, hh_retcode := - 1\<rparr>"
  let ?s = "\<lambda>c l r. (sys_init h)\<lparr>y_client := c, y_lock := l, y_recv := r, y_h := ?h\<rparr>"
  have w: "?R ((sys_init h)\<lparr>y_client := CWait, y_h := h\<lparr>hh_sendid := 1\<rparr>\<rparr>)"
    by (rule run_to_wait) (simp_all add: assms)
  have "?R ((sys_init h)\<lparr>y_client := CWait, y_h := h\<lparr>hh_sendid := 1\<rparr>, y_recv := RDone (- 1)\<rparr>)"
    using reached.outside [OF w _ BadHeader [of _ "- 1"]] by (simp add: sys_init_def)
  from reached.thread [OF this SetCode [of _ "- 1"]] have 1: "?R (?s CWait None RSignal)" by (simp add: sys_init_def)
  have 2: "?R (?s CWake None RLoop)" using reached.thread [OF 1 Signal] by (simp add: sys_init_def)
  have 3: "?R (?s CUnlock (Some Client) RLoop)" using reached.thread [OF 2 Relock] by (simp add: sys_init_def)
  have 4: "?R (?s CGet None RLoop)" using reached.thread [OF 3 Unlock] by (simp add: sys_init_def)
  have 5: "?R (?s CCopy (Some Client) RLoop)" using reached.thread [OF 4 LockGet] by (simp add: sys_init_def)
  have 6: "?R (?s CCopy (Some Client) RHeader)" using reached.thread [OF 5 Loop] by (simp add: sys_init_def assms)
  have 7: "?R (?s CCopy None (RDone (- 1)))"
    using reached.outside [OF 6 _ BadHeader [of _ "- 1"]] by (simp add: sys_init_def)
  have 8: "?R (?s CCopy None RSignal)" using reached.thread [OF 7 SetCode [of _ "- 1"]] by (simp add: sys_init_def)
  have 9: "?R (?s CCopy None RLoop)" using reached.thread [OF 8 Signal] by (simp add: sys_init_def)
  have 10: "?R (?s CCopy None RHeader)" using reached.thread [OF 9 Loop] by (simp add: sys_init_def assms)
  have 11: "?R (?s CCopy None (RLock code body))"
    using reached.thread [OF 10 Header [of _ reps code body]] by (simp add: sys_init_def assms)
  show ?thesis
    by (rule exI, rule conjI, rule reached.thread [OF 11 LockBody [of _ code body]]) (simp_all add: sys_init_def)
qed

section \<open>Properties\<close>



lemma ex_client: "http_client_init True True 3 = Inr (Some (ex_http\<lparr>hh_sendid := 0\<rparr>))"
  by (simp add: http_client_init_def guard_res_def ex_http_def)

lemma ex_delivered: "delivered 16 (200, ''ok'') = Inr (''ok'' @ [NUL], 200)"
  by (simp add: delivered_def stored_def MAXBUFFER_def size_of_int_def guard_res_def)

lemma ex_returns:
  "inevitable [(200, ''ok'')] 16 (\<lambda>s. y_client s = CIdle \<and> y_got s = [] @ [(''ok'' @ [NUL], 200)])
     ((sys_init (ex_http\<lparr>hh_sendid := 0\<rparr>))\<lparr>y_client := CWait, y_h := (ex_http\<lparr>hh_sendid := 0\<rparr>)\<lparr>hh_sendid := 1\<rparr>\<rparr>)"
  by (rule returns)
    (simp_all add: returning_def clean_inv_def lock_ok_def in_order_def sys_init_def signalled_def ex_http_def ex_delivered)



end
