(* ===== verification/Sha1Spec.thy ===== *)
theory Sha1Spec
  imports Prelude
begin

text \<open>
  SHA-1 as FIPS 180-4 defines it (section 6.1) and HMAC as RFC 2104 defines it, written from the
  standards: the message schedule with its 80 words, the functions and constants of the rounds, the
  padding, the blocks. What mongoose computes is compared with this in \<open>MgHash\<close>.
\<close>

section \<open>One block\<close>

definition block_word :: "u8 list \<Rightarrow> nat \<Rightarrow> u32" where
  "block_word M t = push_bit 24 (ucast (M ! (4 * t))) OR push_bit 16 (ucast (M ! (4 * t + 1)))
     OR push_bit 8 (ucast (M ! (4 * t + 2))) OR ucast (M ! (4 * t + 3))"

fun schedule :: "u8 list \<Rightarrow> nat \<Rightarrow> u32" where
  "schedule M t =
     (if t < 16 then block_word M t
      else word_rotl 1 (schedule M (t - 3) XOR schedule M (t - 8) XOR schedule M (t - 14) XOR schedule M (t - 16)))"

declare schedule.simps [simp del]

definition Ch :: "u32 \<Rightarrow> u32 \<Rightarrow> u32 \<Rightarrow> u32" where "Ch x y z = (x AND y) XOR (NOT x AND z)"

definition Parity :: "u32 \<Rightarrow> u32 \<Rightarrow> u32 \<Rightarrow> u32" where "Parity x y z = x XOR y XOR z"

definition Maj :: "u32 \<Rightarrow> u32 \<Rightarrow> u32 \<Rightarrow> u32" where "Maj x y z = (x AND y) XOR (x AND z) XOR (y AND z)"

definition round_f :: "nat \<Rightarrow> u32 \<Rightarrow> u32 \<Rightarrow> u32 \<Rightarrow> u32" where
  "round_f t = (if t \<le> 19 then Ch else if t \<le> 39 then Parity else if t \<le> 59 then Maj else Parity)"

definition round_K :: "nat \<Rightarrow> u32" where
  "round_K t = (if t \<le> 19 then 0x5a827999 else if t \<le> 39 then 0x6ed9eba1 else if t \<le> 59 then 0x8f1bbcdc else 0xca62c1d6)"

type_synonym hash5 = "u32 \<times> u32 \<times> u32 \<times> u32 \<times> u32"

fun fips_round :: "u8 list \<Rightarrow> nat \<Rightarrow> hash5 \<Rightarrow> hash5" where
  "fips_round M t (a, b, c, d, e) =
     (word_rotl 5 a + round_f t b c d + e + round_K t + schedule M t, a, word_rotl 30 b, c, d)"

fun fips_block :: "u8 list \<Rightarrow> hash5 \<Rightarrow> hash5" where
  "fips_block M (h0, h1, h2, h3, h4) =
     (case fold (fips_round M) [0..<80] (h0, h1, h2, h3, h4) of
        (a, b, c, d, e) \<Rightarrow> (h0 + a, h1 + b, h2 + c, h3 + d, h4 + e))"

section \<open>A message\<close>

definition fips_pad :: "u8 list \<Rightarrow> u8 list" where
  "fips_pad m = m @ [0x80] @ replicate ((119 - length m mod 64) mod 64) 0
     @ map (\<lambda>i. of_nat (8 * length m div 256 ^ (7 - i))) [0..<8]"

definition fips_blocks :: "u8 list \<Rightarrow> u8 list list" where
  "fips_blocks s = map (\<lambda>i. take 64 (drop (64 * i) s)) [0..<length s div 64]"

definition word_bytes :: "u32 \<Rightarrow> u8 list" where
  "word_bytes w = [ucast (drop_bit 24 w), ucast (drop_bit 16 w), ucast (drop_bit 8 w), ucast w]"

definition fips_sha1 :: "u8 list \<Rightarrow> u8 list" where
  "fips_sha1 m =
     (case fold fips_block (fips_blocks (fips_pad m)) (0x67452301, 0xefcdab89, 0x98badcfe, 0x10325476, 0xc3d2e1f0) of
        (a, b, c, d, e) \<Rightarrow> concat (map word_bytes [a, b, c, d, e]))"

section \<open>HMAC\<close>

definition block_key :: "u8 list \<Rightarrow> u8 list" where
  "block_key key = (let k = if length key > 64 then fips_sha1 key else key in k @ replicate (64 - length k) 0)"

definition hmac_spec :: "u8 list \<Rightarrow> u8 list \<Rightarrow> u8 list" where
  "hmac_spec key data =
     fips_sha1 (map (\<lambda>b. b XOR 0x5c) (block_key key) @ fips_sha1 (map (\<lambda>b. b XOR 0x36) (block_key key) @ data))"

end
