(* ===== verification/MgHash.thy ===== *)
theory MgHash
  imports MgMbuf Sha1Spec
begin

text \<open>
  The digests of mongoose: MD5 (\<open>cs_md5_*\<close>), SHA-1 (\<open>cs_sha1_*\<close>) and HMAC-SHA1 (\<open>cs_hmac_sha1\<close>),
  on a little-endian machine, where \<open>byteReverse\<close> does nothing. Both digests take their input in
  pieces; the interface \<open>stream_digest\<close> is what a client relies on. What SHA-1 and HMAC should
  compute is in \<open>Sha1Spec\<close>, from the standards.
\<close>

section \<open>Words and rotations\<close>

definition rol :: "u32 \<Rightarrow> nat \<Rightarrow> u32" where
  "rol v n = push_bit n v OR drop_bit (32 - n) v"

text \<open>The words that a block of bytes is read as through a pointer to \<open>uint32_t\<close>.\<close>

definition le_word :: "u8 list \<Rightarrow> nat \<Rightarrow> u32" where
  "le_word b i = ucast (b ! (4 * i)) OR push_bit 8 (ucast (b ! (4 * i + 1)))
     OR push_bit 16 (ucast (b ! (4 * i + 2))) OR push_bit 24 (ucast (b ! (4 * i + 3)))"

definition le_words :: "u8 list \<Rightarrow> u32 list" where
  "le_words b = map (le_word b) [0..<16]"

definition le_bytes :: "u32 \<Rightarrow> u8 list" where
  "le_bytes w = map (\<lambda>i. ucast (drop_bit (8 * i) w)) [0..<4]"

section \<open>MD5\<close>

record cs_md5_ctx =
  md_buf :: "u32 list"
  md_bits0 :: u32
  md_bits1 :: u32
  md_in :: "u8 list"

definition F1 :: "u32 \<Rightarrow> u32 \<Rightarrow> u32 \<Rightarrow> u32" where "F1 x y z = z XOR (x AND (y XOR z))"

definition F2 :: "u32 \<Rightarrow> u32 \<Rightarrow> u32 \<Rightarrow> u32" where "F2 x y z = F1 z x y"

definition F3 :: "u32 \<Rightarrow> u32 \<Rightarrow> u32 \<Rightarrow> u32" where "F3 x y z = x XOR y XOR z"

definition F4 :: "u32 \<Rightarrow> u32 \<Rightarrow> u32 \<Rightarrow> u32" where "F4 x y z = y XOR (x OR NOT z)"

definition MD5STEP :: "(u32 \<Rightarrow> u32 \<Rightarrow> u32 \<Rightarrow> u32) \<Rightarrow> u32 \<Rightarrow> u32 \<Rightarrow> u32 \<Rightarrow> u32 \<Rightarrow> u32 \<Rightarrow> nat \<Rightarrow> u32" where
  "MD5STEP f w x y z data s = rol (w + (f x y z + data)) s + x"

text \<open>\<open>cs_md5_init\<close>; the block is not initialised.\<close>

definition cs_md5_init :: "u8 list \<Rightarrow> cs_md5_ctx" where
  "cs_md5_init junk = \<lparr>md_buf = [0x67452301, 0xefcdab89, 0x98badcfe, 0x10325476], md_bits0 = 0, md_bits1 = 0, md_in = junk\<rparr>"

text \<open>
  The 64 lines of \<open>cs_md5_transform\<close>: the function, the variable that the step changes (the
  other three follow it in the order a, b, c, d), the word of the block, the constant, the
  rotation.
\<close>

datatype md5_reg = RA | RB | RC | RD

definition md5_steps :: "((u32 \<Rightarrow> u32 \<Rightarrow> u32 \<Rightarrow> u32) \<times> md5_reg \<times> nat \<times> u32 \<times> nat) list" where
  "md5_steps =
    [(F1, RA, 0, 0xd76aa478, 7), (F1, RD, 1, 0xe8c7b756, 12),
     (F1, RC, 2, 0x242070db, 17), (F1, RB, 3, 0xc1bdceee, 22),
     (F1, RA, 4, 0xf57c0faf, 7), (F1, RD, 5, 0x4787c62a, 12),
     (F1, RC, 6, 0xa8304613, 17), (F1, RB, 7, 0xfd469501, 22),
     (F1, RA, 8, 0x698098d8, 7), (F1, RD, 9, 0x8b44f7af, 12),
     (F1, RC, 10, 0xffff5bb1, 17), (F1, RB, 11, 0x895cd7be, 22),
     (F1, RA, 12, 0x6b901122, 7), (F1, RD, 13, 0xfd987193, 12),
     (F1, RC, 14, 0xa679438e, 17), (F1, RB, 15, 0x49b40821, 22),
     (F2, RA, 1, 0xf61e2562, 5), (F2, RD, 6, 0xc040b340, 9),
     (F2, RC, 11, 0x265e5a51, 14), (F2, RB, 0, 0xe9b6c7aa, 20),
     (F2, RA, 5, 0xd62f105d, 5), (F2, RD, 10, 0x02441453, 9),
     (F2, RC, 15, 0xd8a1e681, 14), (F2, RB, 4, 0xe7d3fbc8, 20),
     (F2, RA, 9, 0x21e1cde6, 5), (F2, RD, 14, 0xc33707d6, 9),
     (F2, RC, 3, 0xf4d50d87, 14), (F2, RB, 8, 0x455a14ed, 20),
     (F2, RA, 13, 0xa9e3e905, 5), (F2, RD, 2, 0xfcefa3f8, 9),
     (F2, RC, 7, 0x676f02d9, 14), (F2, RB, 12, 0x8d2a4c8a, 20),
     (F3, RA, 5, 0xfffa3942, 4), (F3, RD, 8, 0x8771f681, 11),
     (F3, RC, 11, 0x6d9d6122, 16), (F3, RB, 14, 0xfde5380c, 23),
     (F3, RA, 1, 0xa4beea44, 4), (F3, RD, 4, 0x4bdecfa9, 11),
     (F3, RC, 7, 0xf6bb4b60, 16), (F3, RB, 10, 0xbebfbc70, 23),
     (F3, RA, 13, 0x289b7ec6, 4), (F3, RD, 0, 0xeaa127fa, 11),
     (F3, RC, 3, 0xd4ef3085, 16), (F3, RB, 6, 0x04881d05, 23),
     (F3, RA, 9, 0xd9d4d039, 4), (F3, RD, 12, 0xe6db99e5, 11),
     (F3, RC, 15, 0x1fa27cf8, 16), (F3, RB, 2, 0xc4ac5665, 23),
     (F4, RA, 0, 0xf4292244, 6), (F4, RD, 7, 0x432aff97, 10),
     (F4, RC, 14, 0xab9423a7, 15), (F4, RB, 5, 0xfc93a039, 21),
     (F4, RA, 12, 0x655b59c3, 6), (F4, RD, 3, 0x8f0ccc92, 10),
     (F4, RC, 10, 0xffeff47d, 15), (F4, RB, 1, 0x85845dd1, 21),
     (F4, RA, 8, 0x6fa87e4f, 6), (F4, RD, 15, 0xfe2ce6e0, 10),
     (F4, RC, 6, 0xa3014314, 15), (F4, RB, 13, 0x4e0811a1, 21),
     (F4, RA, 4, 0xf7537e82, 6), (F4, RD, 11, 0xbd3af235, 10),
     (F4, RC, 2, 0x2ad7d2bb, 15), (F4, RB, 9, 0xeb86d391, 21)]"

fun md5_step :: "u32 list \<Rightarrow> (u32 \<Rightarrow> u32 \<Rightarrow> u32 \<Rightarrow> u32) \<times> md5_reg \<times> nat \<times> u32 \<times> nat
    \<Rightarrow> u32 \<times> u32 \<times> u32 \<times> u32 \<Rightarrow> u32 \<times> u32 \<times> u32 \<times> u32" where
  "md5_step m (f, RA, k, t, s) (a, b, c, d) = (MD5STEP f a b c d (m ! k + t) s, b, c, d)"
| "md5_step m (f, RD, k, t, s) (a, b, c, d) = (a, b, c, MD5STEP f d a b c (m ! k + t) s)"
| "md5_step m (f, RC, k, t, s) (a, b, c, d) = (a, b, MD5STEP f c d a b (m ! k + t) s, d)"
| "md5_step m (f, RB, k, t, s) (a, b, c, d) = (a, MD5STEP f b c d a (m ! k + t) s, c, d)"

definition cs_md5_transform :: "u32 list \<Rightarrow> u8 list \<Rightarrow> u32 list" where
  "cs_md5_transform buf block =
     (let (a, b, c, d) = fold (md5_step (le_words block)) md5_steps (buf ! 0, buf ! 1, buf ! 2, buf ! 3)
      in [buf ! 0 + a, buf ! 1 + b, buf ! 2 + c, buf ! 3 + d])"

text \<open>The loop over the whole blocks, and the copy of the rest.\<close>

function md5_blocks :: "cs_md5_ctx \<Rightarrow> u8 list \<Rightarrow> cs_md5_ctx" where
  "md5_blocks ctx buf =
     (if length buf \<ge> 64 then
        md5_blocks (ctx\<lparr>md_in := take 64 buf, md_buf := cs_md5_transform (md_buf ctx) (take 64 buf)\<rparr>) (drop 64 buf)
      else ctx\<lparr>md_in := put_at 0 buf (md_in ctx)\<rparr>)"
  by pat_completeness auto

termination
  by (relation "measure (\<lambda>(ctx, buf). length buf)") auto

declare md5_blocks.simps [simp del]

definition cs_md5_update :: "cs_md5_ctx \<Rightarrow> u8 list \<Rightarrow> cs_md5_ctx" where
  "cs_md5_update ctx buf =
     (let len = length buf; t0 = md_bits0 ctx; bits0 = t0 + push_bit 3 (of_nat len);
          bits1 = (if bits0 < t0 then md_bits1 ctx + 1 else md_bits1 ctx) + drop_bit 29 (of_nat len);
          ctx1 = ctx\<lparr>md_bits0 := bits0, md_bits1 := bits1\<rparr>;
          t = unat (drop_bit 3 t0 AND 0x3f)
      in if t \<noteq> 0 then
           (if len < 64 - t then ctx1\<lparr>md_in := put_at t buf (md_in ctx1)\<rparr>
            else
              let inn = put_at t (take (64 - t) buf) (md_in ctx1)
              in md5_blocks (ctx1\<lparr>md_in := inn, md_buf := cs_md5_transform (md_buf ctx1) inn\<rparr>) (drop (64 - t) buf))
         else md5_blocks ctx1 buf)"

definition cs_md5_final :: "cs_md5_ctx \<Rightarrow> u8 list" where
  "cs_md5_final ctx =
     (let count = unat (drop_bit 3 (md_bits0 ctx) AND 0x3F);
          in1 = put_at count [0x80] (md_in ctx);
          left = 64 - 1 - count;
          (buf, in2) = (if left < 8 then
              (cs_md5_transform (md_buf ctx) (put_at (count + 1) (replicate left 0) in1),
               put_at 0 (replicate 56 0) (put_at (count + 1) (replicate left 0) in1))
            else (md_buf ctx, put_at (count + 1) (replicate (left - 8) 0) in1));
          in3 = put_at 60 (le_bytes (md_bits1 ctx)) (put_at 56 (le_bytes (md_bits0 ctx)) in2)
      in concat (map le_bytes (cs_md5_transform buf in3)))"

section \<open>SHA-1\<close>

record cs_sha1_ctx =
  sh_state :: "u32 list"
  sh_count0 :: u32
  sh_count1 :: u32
  sh_buffer :: "u8 list"

text \<open>\<open>blk0\<close> turns a word of the block around in place, \<open>blk\<close> makes the next word.\<close>

definition blk0 :: "u32 list \<Rightarrow> nat \<Rightarrow> u32 list" where
  "blk0 l i = l[i := (rol (l ! i) 24 AND 0xFF00FF00) OR (rol (l ! i) 8 AND 0x00FF00FF)]"

definition blk :: "u32 list \<Rightarrow> nat \<Rightarrow> u32 list" where
  "blk l i = l[i mod 16 := rol (l ! ((i + 13) mod 16) XOR l ! ((i + 8) mod 16) XOR l ! ((i + 2) mod 16) XOR l ! (i mod 16)) 1]"

text \<open>
  The line of round \<open>i\<close>: \<open>R0\<close> to \<open>R4\<close>, applied to the five variables, which move by one place
  from line to line.
\<close>

definition sha1_f :: "nat \<Rightarrow> u32 \<Rightarrow> u32 \<Rightarrow> u32 \<Rightarrow> u32" where
  "sha1_f i w x y =
     (if i < 20 then ((w AND (x XOR y)) XOR y) + 0x5A827999
      else if i < 40 then (w XOR x XOR y) + 0x6ED9EBA1
      else if i < 60 then (((w OR x) AND y) OR (w AND x)) + 0x8F1BBCDC
      else (w XOR x XOR y) + 0xCA62C1D6)"

fun sha1_round :: "nat \<Rightarrow> u32 list \<times> u32 \<times> u32 \<times> u32 \<times> u32 \<times> u32 \<Rightarrow> u32 list \<times> u32 \<times> u32 \<times> u32 \<times> u32 \<times> u32" where
  "sha1_round i (l, v, w, x, y, z) =
     (let l' = (if i < 16 then blk0 l i else blk l i)
      in (l', z + (sha1_f i w x y + l' ! (i mod 16) + rol v 5), v, rol w 30, x, y))"

definition cs_sha1_transform :: "u32 list \<Rightarrow> u8 list \<Rightarrow> u32 list" where
  "cs_sha1_transform state buffer =
     (let (l, a, b, c, d, e) = fold sha1_round [0..<80]
            (le_words buffer, state ! 0, state ! 1, state ! 2, state ! 3, state ! 4)
      in [state ! 0 + a, state ! 1 + b, state ! 2 + c, state ! 3 + d, state ! 4 + e])"

definition cs_sha1_init :: "u8 list \<Rightarrow> cs_sha1_ctx" where
  "cs_sha1_init junk = \<lparr>sh_state = [0x67452301, 0xEFCDAB89, 0x98BADCFE, 0x10325476, 0xC3D2E1F0],
     sh_count0 = 0, sh_count1 = 0, sh_buffer = junk\<rparr>"

text \<open>
  \<open>for (; i + 63 < len; i += 64)\<close> on \<open>uint32_t\<close>: the sum can wrap, and the block is then read
  past the end of the data. The result is the state and the last \<open>i\<close>.
\<close>

function sha1_blocks :: "u32 list \<Rightarrow> u8 list \<Rightarrow> nat \<Rightarrow> (u32 list \<times> nat) res" where
  "sha1_blocks st data i =
     (if (of_nat i + 63 :: u32) < of_nat (length data) then
        (if i + 64 \<le> length data
         then sha1_blocks (cs_sha1_transform st (take 64 (drop i data))) data (i + 64)
         else Inl OutOfBounds)
      else Inr (st, i))"
  by pat_completeness auto

termination
  by (relation "measure (\<lambda>(st, data, i). length data - i)") auto

declare sha1_blocks.simps [simp del]

definition cs_sha1_update :: "cs_sha1_ctx \<Rightarrow> u8 list \<Rightarrow> cs_sha1_ctx res" where
  "cs_sha1_update ctx data =
     (let len = length data; j0 = sh_count0 ctx; count0 = j0 + push_bit 3 (of_nat len);
          count1 = (if count0 < j0 then sh_count1 ctx + 1 else sh_count1 ctx) + drop_bit 29 (of_nat len);
          ctx1 = ctx\<lparr>sh_count0 := count0, sh_count1 := count1\<rparr>;
          j = unat (drop_bit 3 j0 AND 63)
      in if (of_nat j + of_nat len :: u32) > 63 then
           guard_res (64 - j \<le> len) OutOfBounds
             (let buf = put_at j (take (64 - j) data) (sh_buffer ctx1)
              in rbind (sha1_blocks (cs_sha1_transform (sh_state ctx1) buf) data (64 - j)) (\<lambda>(st, i).
                   Inr (ctx1\<lparr>sh_state := st, sh_buffer := put_at 0 (drop i data) buf\<rparr>)))
         else guard_res (j + len \<le> 64) OutOfBounds
           (Inr (ctx1\<lparr>sh_buffer := put_at j data (sh_buffer ctx1)\<rparr>)))"

text \<open>The padding loop, one byte at a time; 64 rounds are enough.\<close>

fun sha1_pad :: "nat \<Rightarrow> cs_sha1_ctx \<Rightarrow> cs_sha1_ctx res" where
  "sha1_pad 0 ctx = Inl NoReturn"
| "sha1_pad (Suc n) ctx =
     (if sh_count0 ctx AND 504 \<noteq> 448 then rbind (cs_sha1_update ctx [0]) (sha1_pad n) else Inr ctx)"

definition be_bytes :: "u32 \<Rightarrow> u8 list" where
  "be_bytes w = map (\<lambda>i. ucast (drop_bit ((3 - i) * 8) w)) [0..<4]"

definition cs_sha1_final :: "cs_sha1_ctx \<Rightarrow> u8 list res" where
  "cs_sha1_final ctx =
     (let finalcount = be_bytes (sh_count1 ctx) @ be_bytes (sh_count0 ctx)
      in rbind (cs_sha1_update ctx [0x80]) (\<lambda>c1. rbind (sha1_pad 64 c1) (\<lambda>c2.
           rbind (cs_sha1_update c2 finalcount) (\<lambda>c3. Inr (concat (map be_bytes (sh_state c3)))))))"

section \<open>HMAC\<close>

text \<open>
  \<open>mg_hash_sha1_v\<close>: the digest of some pieces; a length goes through \<open>uint32_t\<close>, the type of the
  parameter. \<open>cs_hmac_sha1\<close> has the same three calls (init, updates, final) written out each time.
\<close>

definition mg_hash_sha1_v :: "u8 list \<Rightarrow> u8 list list \<Rightarrow> u8 list res" where
  "mg_hash_sha1_v junk pieces =
     rbind (foldl (\<lambda>r p. rbind r (\<lambda>c. cs_sha1_update c (take (unat (of_nat (length p) :: u32)) p)))
       (Inr (cs_sha1_init junk)) pieces) cs_sha1_final"

definition cs_hmac_sha1 :: "u8 list \<Rightarrow> u8 list \<Rightarrow> u8 list \<Rightarrow> u8 list res" where
  "cs_hmac_sha1 junk key data =
     rbind (if length key > 64 then mg_hash_sha1_v junk [key] else Inr key) (\<lambda>k.
       let buf = put_at 0 k (replicate 64 0); buf1 = map (\<lambda>b. b XOR 0x36) buf; buf2 = map (\<lambda>b. b XOR 0x5c) buf
       in rbind (mg_hash_sha1_v junk [buf1, data]) (\<lambda>out. mg_hash_sha1_v junk [buf2, out]))"

section \<open>Whole blocks and the rest\<close>

function full_blocks :: "u8 list \<Rightarrow> u8 list list" where
  "full_blocks xs = (if length xs < 64 then [] else take 64 xs # full_blocks (drop 64 xs))"
  by pat_completeness auto

termination
  by (relation "measure length") auto

declare full_blocks.simps [simp del]

definition rest_of :: "u8 list \<Rightarrow> u8 list" where
  "rest_of xs = drop (64 * (length xs div 64)) xs"

lemma full_blocks_short: "length xs < 64 \<Longrightarrow> full_blocks xs = []"
  by (simp add: full_blocks.simps)

lemma full_blocks_block: "length b = 64 \<Longrightarrow> full_blocks (b @ xs) = b # full_blocks xs"
  by (subst full_blocks.simps) simp

lemma length_rest: "length (rest_of xs) = length xs mod 64"
  by (simp add: rest_of_def minus_mult_div_eq_mod)

lemma rest_short: "length xs < 64 \<Longrightarrow> rest_of xs = xs"
  by (simp add: rest_of_def)

lemma rest_block: "length b = 64 \<Longrightarrow> rest_of (b @ xs) = rest_of xs"
proof -
  assume b: "length b = 64"
  have "(64 + length xs) div 64 = 1 + length xs div 64" by (subst div_add_self1) simp_all
  then have "64 * (length (b @ xs) div 64) - length b = 64 * (length xs div 64)" using b by simp
  moreover have "length b \<le> 64 * (length (b @ xs) div 64)" using b \<open>(64 + length xs) div 64 = _\<close> by simp
  ultimately show ?thesis by (simp add: rest_of_def)
qed

lemma pieces_append:
  "full_blocks (xs @ ys) = full_blocks xs @ full_blocks (rest_of xs @ ys) \<and> rest_of (xs @ ys) = rest_of (rest_of xs @ ys)"
proof (induction "length xs" arbitrary: xs rule: less_induct)
  case less
  show ?case
  proof (cases "length xs < 64")
    case False
    define b ys' where "b = take 64 xs" and "ys' = drop 64 xs"
    have split: "xs = b @ ys'" and b: "length b = 64" and short: "length ys' < length xs"
      using False by (simp_all add: b_def ys'_def)
    show ?thesis using less [OF short] unfolding split append.assoc full_blocks_block [OF b] rest_block [OF b] by simp
  qed (simp add: full_blocks_short rest_short)
qed

lemmas blocks_append = pieces_append [THEN conjunct1]
  and rest_append = pieces_append [THEN conjunct2]

section \<open>The count of bits\<close>

lemma unat_u32: "unat (of_nat x :: u32) = x mod 2 ^ 32"
  by (simp add: unat_of_nat)

lemma unat_of_nat_self: "of_nat (unat w) = (w :: u32)"
  by simp

lemma bit_offset: "unat (drop_bit 3 (of_nat (8 * n) :: u32) AND 0x3f) = n mod 64"
proof -
  have m: "w AND 0x3f = take_bit 6 w" for w :: u32 by (simp add: take_bit_eq_mask mask_eq_exp_minus_1)
  have "(8 * n) mod (8 * 2 ^ 29) = 8 * (n mod 2 ^ 29)" by (rule mult_mod_right [symmetric])
  then have "unat (drop_bit 3 (of_nat (8 * n) :: u32)) = n mod 2 ^ 29"
    unfolding unat_drop_bit_eq unat_u32 by (simp add: drop_bit_eq_div)
  moreover have "(n mod 2 ^ 29) mod 64 = n mod 64"
    using mod_mod_cancel [of 64 "2 ^ 29" n] by simp
  ultimately show ?thesis unfolding m by (simp add: take_bit_eq_mod unat_mod_distrib)
qed

lemma carry_iff: "a < m \<Longrightarrow> b < m \<Longrightarrow> (a + b) mod m < a \<longleftrightarrow> m \<le> a + b" for a b m :: nat
proof -
  assume a: "a < m" "b < m"
  show ?thesis
  proof (cases "m \<le> a + b")
    case True
    then have "(a + b) mod m = a + b - m" using a by (simp add: mod_if)
    then show ?thesis using True a by linarith
  qed simp
qed

lemma bit_count:
  fixes n k :: nat
  assumes "k < 2 ^ 32"
  defines "t0 \<equiv> (of_nat (8 * n) :: u32)" and "t1 \<equiv> (of_nat (8 * (n + k)) :: u32)"
  shows "t0 + push_bit 3 (of_nat k) = t1"
    and "(if t1 < t0 then of_nat (8 * n div 2 ^ 32) + 1 else of_nat (8 * n div 2 ^ 32)) + drop_bit 29 (of_nat k)
      = (of_nat (8 * (n + k) div 2 ^ 32) :: u32)"
proof -
  let ?M = "2 ^ 32 :: nat"
  show "t0 + push_bit 3 (of_nat k) = t1" by (simp add: t0_def t1_def push_bit_eq_mult algebra_simps)
  have u: "unat t0 = 8 * n mod ?M" "unat t1 = (8 * n + 8 * k) mod ?M"
    unfolding t0_def t1_def unat_u32 by (simp_all only: distrib_left)
  have lt: "t1 < t0 \<longleftrightarrow> ?M \<le> 8 * n mod ?M + 8 * k mod ?M"
    unfolding word_less_nat_alt u mod_add_eq [of "8 * n" ?M "8 * k", symmetric]
    by (rule carry_iff) simp_all
  have "unat (drop_bit 29 (of_nat k :: u32)) = k div 2 ^ 29"
    using assms(1) unfolding unat_drop_bit_eq unat_u32 by (simp add: drop_bit_eq_div)
  also have "\<dots> = 8 * k div ?M"
    using div_mult_mult1 [of 8 k "2 ^ 29"] by simp
  finally have d: "drop_bit 29 (of_nat k :: u32) = of_nat (8 * k div ?M)" by (metis unat_of_nat_self)
  have "8 * (n + k) div ?M = 8 * n div ?M + 8 * k div ?M + (8 * n mod ?M + 8 * k mod ?M) div ?M"
    using div_add1_eq [of "8 * n" "8 * k" ?M] by (simp add: algebra_simps)
  also have "(8 * n mod ?M + 8 * k mod ?M) div ?M = (if t1 < t0 then 1 else 0)"
  proof -
    have "8 * n mod ?M < ?M" "8 * k mod ?M < ?M" by simp_all
    then show ?thesis unfolding lt by (auto intro: div_nat_eqI)
  qed
  finally have e: "8 * (n + k) div ?M = 8 * n div ?M + 8 * k div ?M + (if t1 < t0 then 1 else 0)" .
  show "(if t1 < t0 then of_nat (8 * n div 2 ^ 32) + 1 else of_nat (8 * n div 2 ^ 32)) + drop_bit 29 (of_nat k)
      = (of_nat (8 * (n + k) div 2 ^ 32) :: u32)"
    unfolding d e by (simp add: algebra_simps)
qed

section \<open>What a context has taken\<close>

text \<open>
  The count and the block of a context that has taken \<open>m\<close>: the bits of \<open>m\<close> in two words, and
  the bytes after the last whole block at the front of the block.
\<close>

definition counted :: "u32 \<Rightarrow> u32 \<Rightarrow> u8 list \<Rightarrow> bool" where
  "counted lo hi m \<longleftrightarrow> lo = of_nat (8 * length m) \<and> hi = of_nat (8 * length m div 2 ^ 32)"

definition held :: "u8 list \<Rightarrow> u8 list \<Rightarrow> bool" where
  "held b m \<longleftrightarrow> length b = 64 \<and> take (length m mod 64) b = rest_of m"

lemma counted_Nil: "counted 0 0 []"
  by (simp add: counted_def)

lemma counted_offset: "counted lo hi m \<Longrightarrow> unat (drop_bit 3 lo AND 0x3f) = length m mod 64"
  unfolding counted_def using bit_offset by simp

lemma counted_append:
  assumes "counted lo hi m" "length xs < 2 ^ 32"
  shows "counted (lo + push_bit 3 (of_nat (length xs)))
    ((if lo + push_bit 3 (of_nat (length xs)) < lo then hi + 1 else hi) + drop_bit 29 (of_nat (length xs))) (m @ xs)"
proof -
  have lo: "lo = of_nat (8 * length m)" and hi: "hi = of_nat (8 * length m div 2 ^ 32)"
    using assms(1) by (simp_all only: counted_def)
  show ?thesis
    unfolding counted_def lo hi length_append bit_count(1) [OF assms(2), of "length m"]
    by (rule conjI [OF refl bit_count(2) [OF assms(2)]])
qed

lemma length_put_at: "n + length xs \<le> length b \<Longrightarrow> length (put_at n xs b) = length b"
  by (simp add: put_at_def)

lemma put_at_front: "length p = n \<Longrightarrow> take n b = p \<Longrightarrow> put_at n xs b = p @ xs @ drop (n + length xs) b"
  by (simp add: put_at_def)

lemma take_put_at: "n + length xs \<le> length b \<Longrightarrow> take (n + length xs) (put_at n xs b) = take n b @ xs"
  by (simp add: put_at_def)

lemma held_Nil: "length b = 64 \<Longrightarrow> held b []"
  by (simp add: held_def rest_of_def)

lemma held_short:
  assumes "held b m" "length m mod 64 + length xs < 64"
  shows "held (put_at (length m mod 64) xs b) (m @ xs)" and "full_blocks (m @ xs) = full_blocks m"
proof -
  have len: "length (m @ xs) mod 64 = length m mod 64 + length xs"
    using assms(2) by (metis length_append mod_add_left_eq mod_less)
  have "rest_of (m @ xs) = rest_of m @ xs"
    using assms(2) by (subst rest_append) (simp add: rest_short length_rest)
  then show "held (put_at (length m mod 64) xs b) (m @ xs)"
    using assms unfolding held_def len by (simp add: length_put_at take_put_at)
  show "full_blocks (m @ xs) = full_blocks m"
    using assms(2) by (subst blocks_append) (simp add: full_blocks_short length_rest)
qed

lemma held_long:
  assumes "held b m" "64 \<le> length m mod 64 + length xs"
  defines "k \<equiv> 64 - length m mod 64"
  defines "b' \<equiv> put_at (length m mod 64) (take k xs) b"
  shows "full_blocks (m @ xs) = full_blocks m @ b' # full_blocks (drop k xs)"
    and "rest_of (m @ xs) = rest_of (drop k xs)" and "length b' = 64"
proof -
  have k: "k \<le> length xs" "length m mod 64 + k = 64" using assms(2) by (simp_all add: k_def)
  have b': "b' = rest_of m @ take k xs"
    using assms(1) k unfolding b'_def held_def by (simp add: put_at_def)
  show len: "length b' = 64" using k by (simp add: b' length_rest)
  have split: "rest_of m @ xs = b' @ drop k xs" by (simp add: b')
  show "full_blocks (m @ xs) = full_blocks m @ b' # full_blocks (drop k xs)"
    by (subst blocks_append) (simp only: split full_blocks_block [OF len])
  show "rest_of (m @ xs) = rest_of (drop k xs)"
    by (subst rest_append) (simp only: split rest_block [OF len])
qed

lemma held_restart:
  assumes "length b = 64" "rest_of m = rest_of xs"
  shows "held (put_at 0 (rest_of xs) b) m"
proof -
  have "length m mod 64 = length xs mod 64" using length_rest assms(2) by metis
  then show ?thesis using assms by (simp add: held_def put_at_def length_rest)
qed

section \<open>Updates\<close>

definition taken_md5 :: "u8 list \<Rightarrow> cs_md5_ctx \<Rightarrow> bool" where
  "taken_md5 m c \<longleftrightarrow> md_buf c = foldl cs_md5_transform (md_buf (cs_md5_init [])) (full_blocks m)
     \<and> counted (md_bits0 c) (md_bits1 c) m \<and> held (md_in c) m"

definition taken_sha1 :: "u8 list \<Rightarrow> cs_sha1_ctx \<Rightarrow> bool" where
  "taken_sha1 m c \<longleftrightarrow> sh_state c = foldl cs_sha1_transform (sh_state (cs_sha1_init [])) (full_blocks m)
     \<and> counted (sh_count0 c) (sh_count1 c) m \<and> held (sh_buffer c) m"

lemma md5_blocks_result:
  "length (md_in c) = 64 \<Longrightarrow> \<exists>b. length b = 64 \<and> md5_blocks c xs =
     c\<lparr>md_buf := foldl cs_md5_transform (md_buf c) (full_blocks xs), md_in := put_at 0 (rest_of xs) b\<rparr>"
proof (induction c xs rule: md5_blocks.induct)
  case (1 c xs)
  show ?case
  proof (cases "64 \<le> length xs")
    case True
    obtain b where "length b = 64" and b: "md5_blocks (c\<lparr>md_in := take 64 xs, md_buf := cs_md5_transform (md_buf c) (take 64 xs)\<rparr>) (drop 64 xs) =
       c\<lparr>md_buf := foldl cs_md5_transform (cs_md5_transform (md_buf c) (take 64 xs)) (full_blocks (drop 64 xs)),
         md_in := put_at 0 (rest_of (drop 64 xs)) b\<rparr>"
      using 1(1) [OF True] True by auto
    moreover have "full_blocks xs = take 64 xs # full_blocks (drop 64 xs)" "rest_of xs = rest_of (drop 64 xs)"
      using full_blocks_block [of "take 64 xs" "drop 64 xs"] rest_block [of "take 64 xs" "drop 64 xs"] True by simp_all
    ultimately show ?thesis using True by (subst md5_blocks.simps) auto
  next
    case False
    then show ?thesis using 1(2) by (subst md5_blocks.simps) (auto simp: full_blocks_short rest_short)
  qed
qed

lemma md5_blocks_taken:
  assumes "counted (md_bits0 c) (md_bits1 c) m" "length (md_in c) = 64" "rest_of m = rest_of xs"
    and "foldl cs_md5_transform (md_buf c) (full_blocks xs) = foldl cs_md5_transform (md_buf (cs_md5_init [])) (full_blocks m)"
  shows "taken_md5 m (md5_blocks c xs)"
  using md5_blocks_result [OF assms(2), of xs] assms by (auto simp: taken_md5_def intro: held_restart)

lemma md5_update_taken:
  assumes "taken_md5 m c" "length xs < 2 ^ 32"
  shows "taken_md5 (m @ xs) (cs_md5_update c xs)"
proof -
  have st: "md_buf c = foldl cs_md5_transform (md_buf (cs_md5_init [])) (full_blocks m)"
    and cnt: "counted (md_bits0 c) (md_bits1 c) m" and hd: "held (md_in c) m"
    using assms(1) by (simp_all only: taken_md5_def)
  have b64: "length (md_in c) = 64" using hd by (simp add: held_def)
  note defs = cs_md5_update_def Let_def counted_offset [OF cnt]
  note cnt' = counted_append [OF cnt assms(2)]
  consider (none) "length m mod 64 = 0" | (short) "length m mod 64 \<noteq> 0" "length xs < 64 - length m mod 64"
    | (long) "length m mod 64 \<noteq> 0" "\<not> length xs < 64 - length m mod 64" by blast
  then show ?thesis
  proof cases
    case none
    then have r: "rest_of m = []" using length_rest [of m] by simp
    have "taken_md5 (m @ xs) (md5_blocks (c\<lparr>md_bits0 := md_bits0 c + push_bit 3 (of_nat (length xs)),
        md_bits1 := (if md_bits0 c + push_bit 3 (of_nat (length xs)) < md_bits0 c then md_bits1 c + 1 else md_bits1 c)
          + drop_bit 29 (of_nat (length xs))\<rparr>) xs)"
      by (rule md5_blocks_taken)
        (use cnt' b64 st in \<open>simp_all add: blocks_append [of m xs] rest_append [of m xs] r\<close>)
    then show ?thesis using none by (simp add: defs)
  next
    case short
    then have s: "length m mod 64 + length xs < 64" by simp
    show ?thesis using cnt' short st held_short [OF hd s] unfolding defs taken_md5_def by simp
  next
    case long
    then have l: "64 \<le> length m mod 64 + length xs" by simp
    note hl = held_long [OF hd l]
    show ?thesis unfolding defs if_not_P [OF long(2)] if_P [OF long(1)]
      by (rule md5_blocks_taken) (use cnt' st hl in simp_all)
  qed
qed

section \<open>The digests in one shot\<close>

text \<open>RFC 1321 and RFC 3174: the input, \<open>0x80\<close>, zeros up to 56 modulo 64, the count of bits.\<close>

definition zeros_for :: "u8 list \<Rightarrow> nat" where
  "zeros_for m = (if length m mod 64 \<le> 55 then 55 - length m mod 64 else 119 - length m mod 64)"

definition bits_low :: "u8 list \<Rightarrow> u32" where "bits_low m = of_nat (8 * length m)"

definition bits_high :: "u8 list \<Rightarrow> u32" where "bits_high m = of_nat (8 * length m div 2 ^ 32)"

definition md5_digest :: "u8 list \<Rightarrow> u8 list" where
  "md5_digest m = concat (map le_bytes (foldl cs_md5_transform (md_buf (cs_md5_init []))
     (full_blocks (m @ [0x80] @ replicate (zeros_for m) 0 @ le_bytes (bits_low m) @ le_bytes (bits_high m)))))"

definition sha1_digest :: "u8 list \<Rightarrow> u8 list" where
  "sha1_digest m = concat (map be_bytes (foldl cs_sha1_transform (sh_state (cs_sha1_init []))
     (full_blocks (m @ [0x80] @ replicate (zeros_for m) 0 @ be_bytes (bits_high m) @ be_bytes (bits_low m)))))"

lemma length_le_bytes [simp]: "length (le_bytes w) = 4"
  by (simp add: le_bytes_def)

lemma length_be_bytes [simp]: "length (be_bytes w) = 4"
  by (simp add: be_bytes_def)

lemma counted_bits: "counted lo hi m \<Longrightarrow> lo = bits_low m \<and> hi = bits_high m"
  by (simp add: counted_def bits_low_def bits_high_def)

lemma one_block: "length b = 64 \<Longrightarrow> full_blocks b = [b]"
  using full_blocks_block [of b "[]"] by (simp add: full_blocks_short)

lemma two_blocks: "length b = 64 \<Longrightarrow> length b' = 64 \<Longrightarrow> full_blocks (b @ b') = [b, b']"
  by (simp add: full_blocks_block one_block)

lemma put_three:
  assumes "length b = 64" "length x = 56" "length y = 4" "length z = 4"
  shows "put_at 60 z (put_at 56 y (put_at 0 x b)) = x @ y @ z"
proof -
  have "put_at 0 x b = x @ drop 56 b" using assms by (simp add: put_at_def)
  then show ?thesis using assms by (simp add: put_at_def)
qed

lemma md5_final_digest:
  assumes "taken_md5 m c"
  shows "cs_md5_final c = md5_digest m"
proof -
  define r where "r = length m mod 64"
  have st: "md_buf c = foldl cs_md5_transform (md_buf (cs_md5_init [])) (full_blocks m)"
    and cnt: "counted (md_bits0 c) (md_bits1 c) m" and b64: "length (md_in c) = 64"
    and front: "take r (md_in c) = rest_of m" and lr: "length (rest_of m) = r" "r < 64"
    using assms by (simp_all add: taken_md5_def held_def length_rest r_def)
  have bits: "md_bits0 c = bits_low m" "md_bits1 c = bits_high m" using counted_bits [OF cnt] by simp_all
  have off: "unat (drop_bit 3 (bits_low m) AND 0x3f) = r" using counted_offset [OF cnt] by (simp add: bits r_def)
  have in1: "put_at r [0x80] (md_in c) = rest_of m @ 0x80 # drop (Suc r) (md_in c)"
    using put_at_front [OF lr(1) front, of "[0x80]"] by simp
  let ?size = "le_bytes (bits_low m) @ le_bytes (bits_high m)"
  show ?thesis
  proof (cases "r \<le> 55")
    case True
    then have nl: "\<not> 63 - r < 8" by arith
    have in2: "put_at (Suc r) (replicate (55 - r) 0) (put_at r [0x80] (md_in c))
        = rest_of m @ 0x80 # replicate (55 - r) 0 @ drop 56 (md_in c)"
      unfolding in1 using lr True by (simp add: put_at_def drop_Cons')
    have in3: "put_at 60 (le_bytes (bits_high m)) (put_at 56 (le_bytes (bits_low m))
        (rest_of m @ 0x80 # replicate (55 - r) 0 @ drop 56 (md_in c)))
        = rest_of m @ 0x80 # replicate (55 - r) 0 @ ?size"
      using lr True b64 by (simp add: put_at_def take_Cons' drop_Cons')
    have "full_blocks (rest_of m @ 0x80 # replicate (55 - r) 0 @ ?size) = [rest_of m @ 0x80 # replicate (55 - r) 0 @ ?size]"
      by (rule one_block) (use lr True in simp)
    then show ?thesis using True in2 in3 nl
      by (simp add: cs_md5_final_def md5_digest_def zeros_for_def r_def [symmetric]
          Let_def bits off [simplified] st blocks_append [of m])
  next
    case False
    then have nl: "63 - r < 8" by arith
    let ?b = "rest_of m @ 0x80 # replicate (63 - r) 0" and ?b' = "replicate 56 0 @ ?size"
    have in2: "put_at (Suc r) (replicate (63 - r) 0) (put_at r [0x80] (md_in c)) = ?b"
      unfolding in1 using lr b64 by (simp add: put_at_def)
    have in3: "put_at 60 (le_bytes (bits_high m)) (put_at 56 (le_bytes (bits_low m)) (put_at 0 (replicate 56 0) ?b)) = ?b'"
      by (rule put_three) (use lr in simp_all)
    have "(119 - r) = (63 - r) + 56" using False lr by simp
    then have pad: "rest_of m @ 0x80 # replicate (119 - r) 0 @ ?size = ?b @ ?b'"
      by (simp only: replicate_add append_assoc append_Cons)
    have "full_blocks (?b @ ?b') = [?b, ?b']"
      by (rule two_blocks) (use lr in simp_all)
    then show ?thesis using False in2 in3 pad lr nl
      by (simp add: cs_md5_final_def md5_digest_def zeros_for_def r_def [symmetric]
          Let_def bits off [simplified] st blocks_append [of m])
  qed
qed

section \<open>SHA-1 by pieces\<close>

text \<open>The longest piece for which neither sum of the \<open>uint32_t\<close> loop wraps.\<close>

definition sha1_limit :: nat where "sha1_limit = 2 ^ 32 - 64"

lemma u32_sum_less: "a + b < 2 ^ 32 \<Longrightarrow> (of_nat a + of_nat b :: u32) < of_nat c \<longleftrightarrow> a + b < c" if "c < 2 ^ 32"
  using that unfolding of_nat_add [symmetric] word_less_nat_alt unat_u32 by simp

lemma u32_sum_greater: "a + b < 2 ^ 32 \<Longrightarrow> (63 :: u32) < of_nat a + of_nat b \<longleftrightarrow> 63 < a + b"
  unfolding of_nat_add [symmetric] word_less_nat_alt unat_u32 by simp

lemma sha1_blocks_result:
  assumes "length data \<le> sha1_limit" "i \<le> length data"
  shows "\<exists>j. sha1_blocks st data i = Inr (foldl cs_sha1_transform st (full_blocks (drop i data)), j)
    \<and> drop j data = rest_of (drop i data)"
  using assms
proof (induction st data i rule: sha1_blocks.induct)
  case (1 st data i)
  have cond: "(of_nat i + 63 :: u32) < of_nat (length data) \<longleftrightarrow> i + 63 < length data"
    using u32_sum_less [of "length data" i 63] 1(2,3) by (simp add: sha1_limit_def)
  show ?case
  proof (cases "i + 63 < length data")
    case True
    have drop: "drop i data = take 64 (drop i data) @ drop (i + 64) data"
      by (metis append_take_drop_id drop_drop add.commute)
    have l: "length (take 64 (drop i data)) = 64" using True by simp
    have "full_blocks (drop i data) = take 64 (drop i data) # full_blocks (drop (i + 64) data)"
      "rest_of (drop i data) = rest_of (drop (i + 64) data)"
      using full_blocks_block [OF l] rest_block [OF l] drop by metis+
    moreover have "\<exists>j. sha1_blocks (cs_sha1_transform st (take 64 (drop i data))) data (i + 64)
        = Inr (foldl cs_sha1_transform (cs_sha1_transform st (take 64 (drop i data))) (full_blocks (drop (i + 64) data)), j)
      \<and> drop j data = rest_of (drop (i + 64) data)"
      using 1(1) cond True 1(2) by simp
    ultimately show ?thesis using cond True by (subst sha1_blocks.simps) simp
  next
    case False
    then show ?thesis using cond by (subst sha1_blocks.simps) (simp add: full_blocks_short rest_short)
  qed
qed

lemma sha1_update_taken:
  assumes "taken_sha1 m c" "length xs \<le> sha1_limit"
  shows "\<exists>c'. cs_sha1_update c xs = Inr c' \<and> taken_sha1 (m @ xs) c'"
proof -
  define r where "r = length m mod 64"
  have st: "sh_state c = foldl cs_sha1_transform (sh_state (cs_sha1_init [])) (full_blocks m)"
    and cnt: "counted (sh_count0 c) (sh_count1 c) m" and hd: "held (sh_buffer c) m"
    using assms(1) by (simp_all only: taken_sha1_def)
  have off: "unat (drop_bit 3 (sh_count0 c) AND 63) = r" using counted_offset [OF cnt] by (simp add: r_def)
  have "r < 64" by (simp add: r_def)
  then have cond: "(of_nat r + of_nat (length xs) :: u32) > 63 \<longleftrightarrow> 63 < r + length xs"
    using u32_sum_greater [of r "length xs"] assms(2) by (simp add: sha1_limit_def)
  have "length xs < 2 ^ 32" using assms(2) by (simp add: sha1_limit_def)
  note cnt' = counted_append [OF cnt this]
  note defs = cs_sha1_update_def Let_def off cond
  show ?thesis
  proof (cases "63 < r + length xs")
    case True
    then have l: "64 \<le> length m mod 64 + length xs" "64 - r \<le> length xs" by (simp_all add: r_def)
    note hl = held_long [OF hd l(1), folded r_def]
    obtain j where j: "sha1_blocks (cs_sha1_transform (sh_state c) (put_at r (take (64 - r) xs) (sh_buffer c))) xs (64 - r)
        = Inr (foldl cs_sha1_transform (sh_state c) (put_at r (take (64 - r) xs) (sh_buffer c) # full_blocks (drop (64 - r) xs)), j)"
      "drop j xs = rest_of (drop (64 - r) xs)"
      using sha1_blocks_result [OF assms(2) l(2)] by force
    have "held (put_at 0 (drop j xs) (put_at r (take (64 - r) xs) (sh_buffer c))) (m @ xs)"
      unfolding j(2) by (rule held_restart) (use hl in simp_all)
    then show ?thesis unfolding defs using cnt' True l(2) j(1) hl st by (simp add: taken_sha1_def)
  next
    case False
    then have s: "length m mod 64 + length xs < 64" "r + length xs \<le> 64" by (simp_all add: r_def)
    show ?thesis unfolding defs using cnt' False s(2) st held_short [OF hd s(1), folded r_def] by (simp add: taken_sha1_def)
  qed
qed

section \<open>The padding of SHA-1\<close>

lemma and_504: "(w :: u32) AND 504 = push_bit 3 (drop_bit 3 w AND 63)"
proof -
  have e: "(504 :: u32) = push_bit 3 (mask 6)" "(63 :: u32) = mask 6" by (simp_all add: mask_eq_exp_minus_1)
  show ?thesis unfolding e by (rule bit_word_eqI) (auto simp: bit_simps)
qed

lemma padded_iff:
  assumes "counted lo hi m"
  shows "lo AND 504 = 448 \<longleftrightarrow> length m mod 64 = 56"
proof -
  have u: "unat (push_bit 3 (of_nat k) :: u32) = 8 * k" if "k < 64" for k
    using that by (simp add: push_bit_eq_mult unat_word_ariths unat_of_nat)
  have "drop_bit 3 lo AND 63 = of_nat (length m mod 64)"
    using counted_offset [OF assms] by (simp add: word_unat_eq_iff unat_of_nat)
  then have "unat (lo AND 504) = 8 * (length m mod 64)" unfolding and_504 using u by simp
  then show ?thesis by (simp add: word_unat_eq_iff)
qed

text \<open>The zeros that are missing, and one less after each round.\<close>

definition gap :: "u8 list \<Rightarrow> nat" where
  "gap m = (if length m mod 64 \<le> 56 then 56 - length m mod 64 else 120 - length m mod 64)"

lemma gap_zero: "gap m = 0 \<longleftrightarrow> length m mod 64 = 56"
proof -
  have "length m mod 64 < 64" by simp
  then show ?thesis unfolding gap_def by auto
qed

lemma gap_snoc: "gap m \<noteq> 0 \<Longrightarrow> gap m = Suc (gap (m @ [x]))"
  using mod_less_divisor [of 64 "length m"] by (auto simp: gap_def mod_Suc split: if_splits)

lemma zeros_bound: "zeros_for m \<le> 63"
  by (simp add: zeros_for_def) linarith

lemma gap_zeros: "gap (m @ [x]) = zeros_for m"
  using mod_less_divisor [of 64 "length m"] by (auto simp: gap_def zeros_for_def mod_Suc)

lemma sha1_pad_taken:
  assumes "taken_sha1 m c" "gap m \<le> n"
  shows "\<exists>c'. sha1_pad (Suc n) c = Inr c' \<and> taken_sha1 (m @ replicate (gap m) 0) c'"
  using assms
proof (induction n arbitrary: m c)
  case 0
  have "counted (sh_count0 c) (sh_count1 c) m" using 0(1) by (simp add: taken_sha1_def)
  then show ?case using padded_iff 0 gap_zero [of m] by simp
next
  case (Suc n)
  have cnt: "counted (sh_count0 c) (sh_count1 c) m" using Suc(2) by (simp add: taken_sha1_def)
  show ?case
  proof (cases "gap m")
    case 0
    then show ?thesis using padded_iff [OF cnt] Suc(2) gap_zero [of m] by simp
  next
    case (Suc k)
    obtain c1 where c1: "cs_sha1_update c [0] = Inr c1" "taken_sha1 (m @ [0]) c1"
      using sha1_update_taken [OF Suc.prems(1), of "[0]"] by (auto simp: sha1_limit_def)
    have s: "gap m = Suc (gap (m @ [0]))" using gap_snoc Suc by simp
    then obtain c' where "sha1_pad (Suc n) c1 = Inr c'" "taken_sha1 ((m @ [0]) @ replicate (gap (m @ [0])) 0) c'"
      using Suc.IH [OF c1(2)] Suc.prems(2) by auto
    moreover have "sh_count0 c AND 504 \<noteq> 448" using padded_iff [OF cnt] gap_zero [of m] Suc by simp
    ultimately show ?thesis unfolding s by (subst sha1_pad.simps(2)) (simp add: c1(1))
  qed
qed

lemma sha1_final_digest:
  assumes "taken_sha1 m c"
  shows "cs_sha1_final c = Inr (sha1_digest m)"
proof -
  have bits: "sh_count0 c = bits_low m" "sh_count1 c = bits_high m"
    using assms counted_bits [of "sh_count0 c" "sh_count1 c" m] by (simp_all add: taken_sha1_def)
  obtain c1 where c1: "cs_sha1_update c [0x80] = Inr c1" "taken_sha1 (m @ [0x80]) c1"
    using sha1_update_taken [OF assms, of "[0x80]"] by (auto simp: sha1_limit_def)
  obtain c2 where c2: "sha1_pad (Suc 63) c1 = Inr c2" "taken_sha1 ((m @ [0x80]) @ replicate (zeros_for m) 0) c2"
    using sha1_pad_taken [OF c1(2), of 63] zeros_bound [of m] unfolding gap_zeros by blast
  obtain c3 where c3: "cs_sha1_update c2 (be_bytes (bits_high m) @ be_bytes (bits_low m)) = Inr c3"
    "taken_sha1 (((m @ [0x80]) @ replicate (zeros_for m) 0) @ be_bytes (bits_high m) @ be_bytes (bits_low m)) c3"
    using sha1_update_taken [OF c2(2), of "be_bytes (bits_high m) @ be_bytes (bits_low m)"] by (auto simp: sha1_limit_def)
  moreover have "sha1_pad 64 c1 = Inr c2" using c2(1) by (simp del: sha1_pad.simps)
  ultimately show ?thesis using c1(1) bits by (simp add: cs_sha1_final_def sha1_digest_def taken_sha1_def del: sha1_pad.simps)
qed

section \<open>The interface of a digest\<close>

text \<open>
  What a client relies on: a fresh context has taken nothing, an update takes a piece of at most
  \<open>limit\<close> bytes after what was taken before, and the end gives the digest of all that was taken.
\<close>

locale stream_digest =
  fixes fresh :: "u8 list \<Rightarrow> 'c" and update :: "'c \<Rightarrow> u8 list \<Rightarrow> 'c res" and finish :: "'c \<Rightarrow> u8 list res"
    and taken :: "u8 list \<Rightarrow> 'c \<Rightarrow> bool" and digest :: "u8 list \<Rightarrow> u8 list" and limit :: nat
  assumes start: "length junk = 64 \<Longrightarrow> taken [] (fresh junk)"
    and takes: "taken m c \<Longrightarrow> length xs \<le> limit \<Longrightarrow> \<exists>c'. update c xs = Inr c' \<and> taken (m @ xs) c'"
    and ends: "taken m c \<Longrightarrow> finish c = Inr (digest m)"
begin

lemma pieces_taken:
  "taken m c \<Longrightarrow> \<forall>p \<in> set ps. length p \<le> limit \<Longrightarrow>
    \<exists>c'. foldl (\<lambda>r p. rbind r (\<lambda>c. update c p)) (Inr c) ps = Inr c' \<and> taken (m @ concat ps) c'"
proof (induction ps arbitrary: m c)
  case (Cons p ps)
  obtain c1 where c1: "update c p = Inr c1" "taken (m @ p) c1" using takes [OF Cons(2), of p] Cons(3) by auto
  show ?case using Cons(1) [OF c1(2)] Cons(3) c1(1) by auto
qed auto

lemma digest_of_pieces:
  "length junk = 64 \<Longrightarrow> \<forall>p \<in> set ps. length p \<le> limit \<Longrightarrow>
    rbind (foldl (\<lambda>r p. rbind r (\<lambda>c. update c p)) (Inr (fresh junk)) ps) finish = Inr (digest (concat ps))"
  using pieces_taken [OF start, of junk ps] ends by auto

end

text \<open>The digest of some pieces.\<close>

definition mg_hash_md5_v :: "u8 list \<Rightarrow> u8 list list \<Rightarrow> u8 list" where
  "mg_hash_md5_v junk pieces = cs_md5_final (foldl cs_md5_update (cs_md5_init junk) pieces)"

definition md5_limit :: nat where "md5_limit = 2 ^ 32 - 1"

interpretation md5: stream_digest cs_md5_init "\<lambda>c xs. Inr (cs_md5_update c xs)" "\<lambda>c. Inr (cs_md5_final c)"
    taken_md5 md5_digest md5_limit
proof unfold_locales
  fix junk :: "u8 list"
  assume "length junk = 64"
  then show "taken_md5 [] (cs_md5_init junk)"
    by (simp add: taken_md5_def cs_md5_init_def full_blocks_short held_Nil counted_Nil)
qed (auto simp: md5_limit_def md5_final_digest intro!: md5_update_taken)

interpretation sha1: stream_digest cs_sha1_init cs_sha1_update cs_sha1_final taken_sha1 sha1_digest sha1_limit
proof unfold_locales
  fix junk :: "u8 list"
  assume "length junk = 64"
  then show "taken_sha1 [] (cs_sha1_init junk)"
    by (simp add: taken_sha1_def cs_sha1_init_def full_blocks_short held_Nil counted_Nil)
qed (fact sha1_update_taken sha1_final_digest)+

lemma md5_fold: "foldl (\<lambda>r p. rbind r (\<lambda>c. Inr (cs_md5_update c p))) (Inr c) ps = Inr (foldl cs_md5_update c ps)"
  by (induction ps arbitrary: c) simp_all

lemma sha1_of_pieces:
  assumes "length junk = 64" "\<forall>p \<in> set ps. length p \<le> sha1_limit"
  shows "mg_hash_sha1_v junk ps = Inr (sha1_digest (concat ps))"
proof -
  have "take (unat (of_nat (length p) :: u32)) p = p" if "p \<in> set ps" for p
    using that assms(2) by (auto simp: unat_of_nat sha1_limit_def)
  then have "foldl (\<lambda>r p. rbind r (\<lambda>c. cs_sha1_update c (take (unat (of_nat (length p) :: u32)) p))) (Inr (cs_sha1_init junk)) ps
      = foldl (\<lambda>r p. rbind r (\<lambda>c. cs_sha1_update c p)) (Inr (cs_sha1_init junk)) ps"
    by (intro foldl_cong) simp_all
  then show ?thesis using sha1.digest_of_pieces [OF assms] by (simp add: mg_hash_sha1_v_def)
qed

lemma length_sha1_transform: "length (cs_sha1_transform st b) = 5"
  by (simp add: cs_sha1_transform_def split: prod.split)

lemma length_sha1_digest: "length (sha1_digest m) = 20"
proof -
  have "length (foldl cs_sha1_transform (sh_state (cs_sha1_init [])) bs) = 5" for bs
    by (induction bs rule: rev_induct) (simp_all add: length_sha1_transform cs_sha1_init_def)
  then show ?thesis by (simp add: sha1_digest_def length_concat comp_def sum_list_triv)
qed

text \<open>The digest of the empty message is that of RFC 1321, computed by the transform.\<close>

lemma md5_empty_block:
  "cs_md5_transform [0x67452301, 0xefcdab89, 0x98badcfe, 0x10325476] (0x80 # replicate 63 0)
    = [0xd98c1dd4, 0x04b2008f, 0x980980e9, 0x7e42f8ec]"
  by code_simp

lemma md5_empty:
  "md5_digest [] = [0xd4, 0x1d, 0x8c, 0xd9, 0x8f, 0x00, 0xb2, 0x04, 0xe9, 0x80, 0x09, 0x98, 0xec, 0xf8, 0x42, 0x7e]"
proof -
  have four: "le_bytes 0 = replicate 4 0" by (simp add: le_bytes_def map_replicate_const)
  have "replicate 55 0 @ replicate 4 0 @ replicate 4 0 = replicate 63 (0 :: u8)"
    unfolding replicate_add [symmetric] by simp
  then have pad: "[] @ [0x80] @ replicate (zeros_for []) 0 @ le_bytes (bits_low []) @ le_bytes (bits_high []) = (0x80 # replicate 63 0 :: u8 list)"
    by (simp add: zeros_for_def bits_low_def bits_high_def four)
  have "full_blocks (0x80 # replicate 63 0) = [0x80 # replicate 63 (0 :: u8)]" by (rule one_block) simp
  moreover have "concat (map le_bytes [0xd98c1dd4, 0x04b2008f, 0x980980e9, 0x7e42f8ec])
      = [0xd4, 0x1d, 0x8c, 0xd9, 0x8f, 0x00, 0xb2, 0x04, 0xe9, 0x80, 0x09, 0x98, 0xec, 0xf8, 0x42, 0x7e]"
    by (simp add: le_bytes_def upt_conv_Cons drop_bit_eq_div)
  ultimately show ?thesis
    unfolding md5_digest_def pad by (simp add: cs_md5_init_def md5_empty_block del: list.map concat.simps)
qed

section \<open>SHA-1 of the standard\<close>

text \<open>
  The transform of mongoose is that of FIPS 180-4: \<open>rol\<close> is its rotation, \<open>blk0\<close> and \<open>blk\<close> make its
  schedule in a window of sixteen words, and the functions and constants of \<open>R0\<close> to \<open>R4\<close> are its own.
\<close>

lemma rol_rotl: "0 < n \<Longrightarrow> n < 32 \<Longrightarrow> rol v n = word_rotl n v"
  unfolding rol_def
proof (rule bit_word_eqI)
  fix k assume n: "0 < n" "n < 32" and k: "k < LENGTH(32)"
  have "bit (word_rotl n v) k = bit v ((k + (32 - n)) mod 32)" using k n by (simp add: bit_word_rotl_iff)
  moreover have "(k + (32 - n)) mod 32 = (if n \<le> k then k - n else 32 + k - n)" using n k by (auto simp: mod_if)
  ultimately show "bit (push_bit n v OR drop_bit (32 - n) v) k = bit (word_rotl n v) k"
    using k n by (auto simp: bit_simps add.commute dest: bit_imp_le_length)
qed

lemma swap_masks: "(0xFF00FF00 :: u32) = push_bit 8 (mask 8) OR push_bit 24 (mask 8)"
  "(0x00FF00FF :: u32) = mask 8 OR push_bit 16 (mask 8)"
  by (simp_all add: mask_eq_exp_minus_1)

lemma bit_bytes: "bit (ucast (b0 :: u8) OR push_bit 8 (ucast (b1 :: u8)) OR push_bit 16 (ucast (b2 :: u8)) OR push_bit 24 (ucast (b3 :: u8)) :: u32) n
   \<longleftrightarrow> (if n < 8 then bit b0 n else if n < 16 then bit b1 (n - 8) else if n < 24 then bit b2 (n - 16) else n < 32 \<and> bit b3 (n - 24))"
  by (auto simp: bit_simps dest: bit_imp_le_length)

lemma swap_word: "length b = 64 \<Longrightarrow> i < 16 \<Longrightarrow>
  (rol (le_word b i) 24 AND 0xFF00FF00) OR (rol (le_word b i) 8 AND 0x00FF00FF) = block_word b i"
proof (rule bit_word_eqI)
  fix n assume n: "n < LENGTH(32)"
  have r: "block_word b i = ucast (b ! (4 * i + 3)) OR push_bit 8 (ucast (b ! (4 * i + 2))) OR push_bit 16 (ucast (b ! (4 * i + 1))) OR push_bit 24 (ucast (b ! (4 * i)))"
    by (simp add: block_word_def ac_simps)
  define w where "w = le_word b i"
  have w: "bit w k \<longleftrightarrow> (if k < 8 then bit (b ! (4 * i)) k else if k < 16 then bit (b ! (4 * i + 1)) (k - 8)
      else if k < 24 then bit (b ! (4 * i + 2)) (k - 16) else k < 32 \<and> bit (b ! (4 * i + 3)) (k - 24))" for k
    unfolding w_def le_word_def by (rule bit_bytes)
  consider "n < 8" | "8 \<le> n" "n < 16" | "16 \<le> n" "n < 24" | "24 \<le> n" "n < 32" using n by force
  then show "bit ((rol (le_word b i) 24 AND 0xFF00FF00) OR (rol (le_word b i) 8 AND 0x00FF00FF)) n = bit (block_word b i) n"
    unfolding r bit_bytes w_def [symmetric] swap_masks
    by cases (auto simp: rol_def bit_or_iff bit_and_iff bit_push_bit_iff bit_drop_bit_eq bit_mask_iff w)
qed

lemma f_fips: "sha1_f t w x y = round_f t w x y + round_K t"
proof -
  have "(w AND (x XOR y)) XOR y = Ch w x y" unfolding Ch_def by (rule bit_word_eqI) (auto simp: bit_simps)
  moreover have "((w OR x) AND y) OR (w AND x) = Maj w x y" unfolding Maj_def by (rule bit_word_eqI) (auto simp: bit_simps)
  ultimately show ?thesis by (simp add: sha1_f_def round_f_def round_K_def Parity_def)
qed

lemma le_words_nth [simp]: "s < 16 \<Longrightarrow> le_words M ! s = le_word M s" "length (le_words M) = 16"
  by (simp_all add: le_words_def)

text \<open>The sixteen words after \<open>t\<close> rounds hold the last words of the schedule.\<close>

definition window :: "u8 list \<Rightarrow> nat \<Rightarrow> u32 list \<Rightarrow> bool" where
  "window M t l \<longleftrightarrow> length l = 16 \<and> (\<forall>s. s < t \<and> t \<le> s + 16 \<longrightarrow> l ! (s mod 16) = schedule M s)
     \<and> (\<forall>s. t \<le> s \<and> s < 16 \<longrightarrow> l ! s = le_word M s)"

lemma mod16_neq: "s < t \<Longrightarrow> t < s + 16 \<Longrightarrow> s mod 16 \<noteq> t mod (16 :: nat)"
proof
  assume a: "s < t" "t < s + 16" "s mod 16 = t mod 16"
  then have "16 dvd t - s" by (metis mod_eq_dvd_iff_nat less_imp_le_nat)
  then show False using a(1,2) by (auto dest: dvd_imp_le)
qed

lemma window_step:
  assumes "window M t l" and "length M = 64"
  defines "l' \<equiv> if t < 16 then blk0 l t else blk l t"
  shows "window M (t + 1) l' \<and> l' ! (t mod 16) = schedule M t"
proof -
  have len: "length l = 16" and behind: "\<And>s. s < t \<Longrightarrow> t \<le> s + 16 \<Longrightarrow> l ! (s mod 16) = schedule M s"
    and ahead: "\<And>s. t \<le> s \<Longrightarrow> s < 16 \<Longrightarrow> l ! s = le_word M s"
    using assms(1) by (simp_all add: window_def)
  have l': "l' = l[t mod 16 := schedule M t]"
  proof (cases "t < 16")
    case True
    then show ?thesis using swap_word [OF assms(2) True] ahead [of t]
      by (simp add: l'_def blk0_def schedule.simps)
  next
    case False
    have m: "(t + 13) mod 16 = (t - 3) mod 16" "(t + 8) mod 16 = (t - 8) mod 16" "(t + 2) mod 16 = (t - 14) mod 16" "t mod 16 = (t - 16) mod 16"
      using False mod_add_self2 [of "t - 3" 16] mod_add_self2 [of "t - 8" 16] mod_add_self2 [of "t - 14" 16] mod_add_self2 [of "t - 16" 16] by (simp_all add: add.commute)
    have b: "l ! ((t + 13) mod 16) = schedule M (t - 3)" "l ! ((t + 8) mod 16) = schedule M (t - 8)"
      "l ! ((t + 2) mod 16) = schedule M (t - 14)" "l ! (t mod 16) = schedule M (t - 16)"
      unfolding m using False by (intro behind; simp)+
    have "schedule M t = word_rotl 1 (schedule M (t - 3) XOR schedule M (t - 8) XOR schedule M (t - 14) XOR schedule M (t - 16))"
      using False by (subst schedule.simps) simp
    then show ?thesis using False by (simp add: l'_def blk_def b b(3) [simplified] rol_rotl)
  qed
  have t: "t mod 16 < length l" using len by simp
  have "l' ! (s mod 16) = schedule M s" if "s < t + 1" "t + 1 \<le> s + 16" for s
  proof (cases "s = t")
    case False
    then have "s mod 16 \<noteq> t mod 16" using that by (intro mod16_neq) simp_all
    then show ?thesis unfolding l' using False that behind by simp
  qed (use t in \<open>simp add: l'\<close>)
  moreover have "l' ! s = le_word M s" if "t + 1 \<le> s" "s < 16" for s
    using that ahead unfolding l' by simp
  ultimately show ?thesis using t len by (simp add: window_def l')
qed

lemma rounds_fips:
  "length M = 64 \<Longrightarrow> \<exists>l. fold sha1_round [0..<t] (le_words M, h) = (l, fold (fips_round M) [0..<t] h) \<and> window M t l"
proof (induction t)
  case 0
  then show ?case by (simp add: window_def)
next
  case (Suc t)
  then obtain l where l: "fold sha1_round [0..<t] (le_words M, h) = (l, fold (fips_round M) [0..<t] h)" "window M t l" by blast
  obtain a b c d e where h: "fold (fips_round M) [0..<t] h = (a, b, c, d, e)" by (cases "fold (fips_round M) [0..<t] h")
  note w = window_step [OF l(2) Suc.prems]
  show ?case using l(1) w by (simp add: h Let_def f_fips rol_rotl add_ac)
qed

definition words5 :: "hash5 \<Rightarrow> u32 list" where
  "words5 = (\<lambda>(a, b, c, d, e). [a, b, c, d, e])"

lemma transform_fips: "length M = 64 \<Longrightarrow> cs_sha1_transform (words5 h) M = words5 (fips_block M h)"
proof -
  assume M: "length M = 64"
  obtain h0 h1 h2 h3 h4 where h: "h = (h0, h1, h2, h3, h4)" by (cases h)
  obtain l where l: "fold sha1_round [0..<80] (le_words M, h) = (l, fold (fips_round M) [0..<80] h)" using rounds_fips [OF M] by blast
  obtain a b c d e where r: "fold (fips_round M) [0..<80] h = (a, b, c, d, e)" by (cases "fold (fips_round M) [0..<80] h")
  show ?thesis using l r unfolding h by (simp add: cs_sha1_transform_def words5_def del: upt_Suc)
qed

lemma blocks_fips: "length s mod 64 = 0 \<Longrightarrow> full_blocks s = fips_blocks s"
proof (induction "length s div 64" arbitrary: s)
  case 0
  then have "s = []" by (metis div_mult_mod_eq add_0 length_0_conv mult_0)
  then show ?case by (simp add: full_blocks_short fips_blocks_def)
next
  case (Suc k)
  then have l: "64 \<le> length s" by (metis div_less not_less nat.distinct(1))
  have s: "s = take 64 s @ drop 64 s" and t: "length (take 64 s) = 64" using l by simp_all
  have "full_blocks (drop 64 s) = fips_blocks (drop 64 s)"
    by (rule Suc.hyps(1)) (use Suc.hyps(2) Suc.prems l in \<open>simp_all add: le_div_geq le_mod_geq\<close>)
  moreover have "fips_blocks s = take 64 s # fips_blocks (drop 64 s)"
  proof -
    have "length s div 64 = Suc (length (drop 64 s) div 64)" using l by (simp add: le_div_geq)
    then show ?thesis by (simp add: fips_blocks_def upt_conv_Cons del: upt_Suc) (simp add: map_Suc_upt [symmetric] comp_def add.commute del: upt_Suc)
  qed
  ultimately show ?case using full_blocks_block [OF t, of "drop 64 s"] s by simp
qed

lemma bits_fips: "be_bytes (bits_high m) @ be_bytes (bits_low m) = map (\<lambda>i. of_nat (8 * length m div 256 ^ (7 - i))) [0..<8]"
proof -
  have d: "ucast (drop_bit k (of_nat n :: u32)) = (of_nat (n div 2 ^ k) :: u8)" if "k + 8 \<le> 32" for k n
  proof (rule bit_word_eqI)
    fix i assume "i < LENGTH(8)"
    then show "bit (ucast (drop_bit k (of_nat n :: u32)) :: u8) i = bit (of_nat (n div 2 ^ k) :: u8) i"
      using that unfolding drop_bit_eq_div [symmetric]
      by (simp add: bit_ucast_iff bit_drop_bit_eq bit_of_nat_iff add.commute)
  qed
  define N where "N = 8 * length m"
  have h: "N div 2 ^ 32 div 2 ^ k = N div 2 ^ (32 + k)" for k by (simp add: div_mult2_eq power_add)
  have "be_bytes (of_nat (N div 2 ^ 32)) @ be_bytes (of_nat N) = map (\<lambda>j. of_nat (N div 2 ^ j)) [56, 48, 40, 32, 24, 16, 8, 0]"
    using d [of 24] d [of 16] d [of 8] d [of 0] h [of 24] h [of 16] h [of 8] by (simp add: be_bytes_def upt_conv_Cons)
  also have "\<dots> = map (\<lambda>i. of_nat (N div 256 ^ (7 - i))) [0..<8]"
    by (simp add: upt_conv_Cons)
  finally show ?thesis by (simp add: bits_high_def bits_low_def N_def)
qed

lemma pad_fips: "fips_pad m = m @ [0x80] @ replicate (zeros_for m) 0 @ be_bytes (bits_high m) @ be_bytes (bits_low m)"
proof -
  have z: "(119 - r) mod 64 = (if r \<le> 55 then 55 - r else 119 - r)" if "r < 64" for r :: nat
    using that le_mod_geq [of 64 "119 - r"] by auto
  have "(119 - length m mod 64) mod 64 = zeros_for m" unfolding zeros_for_def by (rule z) simp
  then show ?thesis unfolding bits_fips fips_pad_def by simp
qed

lemma pad_length: "length (fips_pad m) mod 64 = 0"
proof -
  define q r where "q = length m div 64" and "r = length m mod 64"
  have l: "length m = 64 * q + r" "r < 64" by (simp_all add: q_def r_def)
  have "length (fips_pad m) = (if r \<le> 55 then 64 * (q + 1) else 64 * (q + 2))"
    unfolding pad_fips using l(2) by (simp add: zeros_for_def r_def [symmetric] l(1))
  then show ?thesis by simp
qed

lemma sha1_fips: "sha1_digest m = fips_sha1 m"
proof -
  have fold: "foldl cs_sha1_transform (words5 h) bs = words5 (fold fips_block bs h)" if "\<forall>b \<in> set bs. length b = 64" for bs h
    using that by (induction bs arbitrary: h) (simp_all add: transform_fips)
  have bl: "length b = 64" if b: "b \<in> set (fips_blocks s)" for b s
  proof -
    obtain i where i: "i < length s div 64" "b = take 64 (drop (64 * i) s)" using b by (auto simp: fips_blocks_def)
    have "64 * Suc i \<le> 64 * (length s div 64)" using i(1) by (intro mult_le_mono) simp_all
    also have "\<dots> \<le> length s" by simp
    finally show ?thesis by (simp add: i(2))
  qed
  have bytes: "be_bytes w = word_bytes w" for w by (simp add: be_bytes_def word_bytes_def upt_conv_Cons)
  have "sha1_digest m = concat (map be_bytes (foldl cs_sha1_transform (sh_state (cs_sha1_init [])) (full_blocks (fips_pad m))))"
    by (simp add: sha1_digest_def pad_fips)
  also have "full_blocks (fips_pad m) = fips_blocks (fips_pad m)" by (rule blocks_fips [OF pad_length])
  also have "sh_state (cs_sha1_init []) = words5 (0x67452301, 0xefcdab89, 0x98badcfe, 0x10325476, 0xc3d2e1f0)"
    by (simp add: cs_sha1_init_def words5_def)
  also have "foldl cs_sha1_transform (words5 (0x67452301, 0xefcdab89, 0x98badcfe, 0x10325476, 0xc3d2e1f0)) (fips_blocks (fips_pad m))
      = words5 (fold fips_block (fips_blocks (fips_pad m)) (0x67452301, 0xefcdab89, 0x98badcfe, 0x10325476, 0xc3d2e1f0))"
    by (rule fold) (use bl in blast)
  finally show ?thesis unfolding bytes fips_sha1_def words5_def by (simp add: case_prod_beta)
qed


text \<open>The test vector of FIPS 180-4, the digest of abc, twenty rounds at a time.\<close>

lemma abc_rounds1:
  "fold sha1_round [0..<20]
     ([0x80636261, 0x0, 0x0, 0x0, 0x0, 0x0, 0x0, 0x0, 0x0, 0x0, 0x0, 0x0, 0x0, 0x0, 0x0, 0x18000000],
      0x67452301, 0xefcdab89, 0x98badcfe, 0x10325476, 0xc3d2e1f0)
   = ([0xc2c4c700, 0x0, 0x30, 0x85898e01, 0x0, 0x0, 0x0, 0x0, 0x0, 0x0, 0x0, 0x0, 0x0, 0x0, 0x0, 0x18],
      0xfd9e1d7d, 0xdc64901d, 0x20aa99ca, 0xd3a49608, 0xc82f758b)"
  by code_simp

lemma abc_rounds2:
  "fold sha1_round [20..<40]
     ([0xc2c4c700, 0x0, 0x30, 0x85898e01, 0x0, 0x0, 0x0, 0x0, 0x0, 0x0, 0x0, 0x0, 0x0, 0x0, 0x0, 0x18],
      0xfd9e1d7d, 0xdc64901d, 0x20aa99ca, 0xd3a49608, 0xc82f758b)
   = ([0x8e9a9202, 0x600, 0xb131c0f0, 0x16263bc6, 0x4ebed41e, 0x626380a1, 0x16263806, 0x18c0, 0x85898ec1, 0x16263806, 0x0, 0x180, 0x2c4c700c, 0xf0, 0x93afb507, 0x5898e048],
      0x32de1cba, 0x4c986405, 0xf718e5cf, 0x3d447f6, 0xf72eec32)"
  by code_simp

lemma abc_rounds3:
  "fold sha1_round [40..<60]
     ([0x8e9a9202, 0x600, 0xb131c0f0, 0x16263bc6, 0x4ebed41e, 0x626380a1, 0x16263806, 0x18c0, 0x85898ec1, 0x16263806, 0x0, 0x180, 0x2c4c700c, 0xf0, 0x93afb507, 0x5898e048],
      0x32de1cba, 0x4c986405, 0xf718e5cf, 0x3d447f6, 0xf72eec32)
   = ([0xda9415ed, 0x26380a16, 0x626383a1, 0x4ebf54de, 0x3835b44b, 0xf600, 0x1e84c7a3, 0x98e04d98, 0x651d16a0, 0x62658ca1, 0x458544d6, 0x44584cb7, 0xe2ba3c2b, 0x60c0, 0x53a37cd, 0x74458547],
      0x3f52de5a, 0x9d785fd, 0x3498bfd4, 0xf211824f, 0xd79915ab)"
  by code_simp

lemma abc_rounds4:
  "fold sha1_round [60..<80]
     ([0xda9415ed, 0x26380a16, 0x626383a1, 0x4ebf54de, 0x3835b44b, 0xf600, 0x1e84c7a3, 0x98e04d98, 0x651d16a0, 0x62658ca1, 0x458544d6, 0x44584cb7, 0xe2ba3c2b, 0x60c0, 0x53a37cd, 0x74458547],
      0x3f52de5a, 0x9d785fd, 0x3498bfd4, 0xf211824f, 0xd79915ab)
   = ([0x7cd45c9d, 0xf0000, 0xfb50753a, 0xec6765e8, 0xba3c2be2, 0x60c000, 0x3a37cd05, 0x458546f4, 0xb8599dd6, 0x380a1a26, 0x1e02203, 0xe7cc3456, 0xe6e60b69, 0xf60a00, 0x5795ef4f, 0x822e0879],
      0x42541b35, 0x5738d5e1, 0x21834873, 0x681e6df6, 0xd8fdf6ad)"
  by code_simp

lemma sha1_abc:
  "fips_sha1 [0x61, 0x62, 0x63] =
     [0xa9, 0x99, 0x3e, 0x36, 0x47, 0x06, 0x81, 0x6a, 0xba, 0x3e, 0x25, 0x71, 0x78, 0x50, 0xc2, 0x6c, 0x9c, 0xd0, 0xd8, 0x9d]"
proof -
  let ?b = "[0x61, 0x62, 0x63, 0x80] @ replicate 59 0 @ [24] :: u8 list"
  have w: "le_words ?b = [0x80636261, 0, 0, 0, 0, 0, 0, 0, 0, 0, 0, 0, 0, 0, 0, 0x18000000]" by code_simp
  have t: "cs_sha1_transform [0x67452301, 0xEFCDAB89, 0x98BADCFE, 0x10325476, 0xC3D2E1F0] ?b
      = [0xa9993e36, 0x4706816a, 0xba3e2571, 0x7850c26c, 0x9cd0d89d]"
  proof -
    have "[0..<80] = [0..<20] @ [20..<40] @ [40..<60] @ [60..<80]" by code_simp
    then show ?thesis
      using abc_rounds1 abc_rounds2 abc_rounds3 abc_rounds4
      unfolding cs_sha1_transform_def w by (simp del: upt_Suc upt_rec_numeral)
  qed
  have z: "be_bytes 0 = replicate 4 0" "be_bytes 24 = [0, 0, 0, 24]"
    by code_simp+
  have r: "replicate 52 0 @ replicate 4 0 @ [0, 0, 0] = replicate 59 (0 :: u8)" by (simp add: numeral_eq_Suc)
  have "[0x61, 0x62, 0x63] @ [0x80] @ replicate (zeros_for [0x61, 0x62, 0x63]) 0
      @ be_bytes (bits_high [0x61, 0x62, 0x63]) @ be_bytes (bits_low [0x61, 0x62, 0x63]) = ?b"
    by (simp add: zeros_for_def bits_low_def bits_high_def z r)
  moreover have "full_blocks ?b = [?b]" by (rule one_block) simp
  moreover have "foldl cs_sha1_transform (sh_state (cs_sha1_init [])) [?b]
      = [0xa9993e36, 0x4706816a, 0xba3e2571, 0x7850c26c, 0x9cd0d89d]" using t by (simp add: cs_sha1_init_def)
  ultimately have "sha1_digest [0x61, 0x62, 0x63]
      = concat (map be_bytes [0xa9993e36, 0x4706816a, 0xba3e2571, 0x7850c26c, 0x9cd0d89d])"
    unfolding sha1_digest_def by (simp only:)
  then show ?thesis unfolding sha1_fips by (simp add: be_bytes_def upt_conv_Cons drop_bit_eq_div)
qed

section \<open>Properties\<close>



text \<open>
  C38. For pieces of at most \<open>2 ^ 32 - 64\<close> bytes, SHA-1 in any pieces gives the digest that FIPS 180-4 defines
  for the whole message, whatever the block of the context held before; and \<open>cs_hmac_sha1\<close> computes, for a key
  and data of at most this length, the HMAC that RFC 2104 defines over this SHA-1: the key is hashed when it is longer
  than a block, filled with zeros to a block, and the digest of (key xor ipad, data) is digested again after (key xor opad).
\<close>

theorem hmac_sha1_correct:
  assumes "length junk = 64" "length key \<le> 2 ^ 32 - 64" "length data \<le> 2 ^ 32 - 64" "\<forall>p \<in> set ps. length p \<le> 2 ^ 32 - 64"
  shows "mg_hash_sha1_v junk ps = Inr (fips_sha1 (concat ps)) \<and> cs_hmac_sha1 junk key data = Inr (hmac_spec key data)"
proof -
  note limits = assms(2-4) [folded sha1_limit_def]
  let ?k = "if length key > 64 then fips_sha1 key else key"
  have lk: "length ?k \<le> 64" using length_sha1_digest [of key] by (simp add: sha1_fips)
  have hashed: "mg_hash_sha1_v junk [key] = Inr (fips_sha1 key)"
    using sha1_of_pieces [OF assms(1), of "[key]"] limits(1) by (simp add: sha1_fips)
  then have key: "(if length key > 64 then mg_hash_sha1_v junk [key] else Inr key) = Inr ?k" by simp
  have pad: "put_at 0 ?k (replicate 64 0) = block_key key" and len: "length (block_key key) = 64"
    using lk by (simp_all add: put_at_def block_key_def Let_def)
  have "length (map (\<lambda>b. b XOR x) (block_key key)) \<le> sha1_limit" for x using len by (simp add: sha1_limit_def)
  then have two: "mg_hash_sha1_v junk [map (\<lambda>b. b XOR x) (block_key key), d] = Inr (fips_sha1 (map (\<lambda>b. b XOR x) (block_key key) @ d))"
    if "length d \<le> sha1_limit" for x d
    using sha1_of_pieces [OF assms(1), of "[map (\<lambda>b. b XOR x) (block_key key), d]"] that by (simp add: sha1_fips)
  have "length (fips_sha1 m) \<le> sha1_limit" for m using length_sha1_digest [of m] by (simp add: sha1_fips sha1_limit_def)
  then have "cs_hmac_sha1 junk key data = Inr (hmac_spec key data)"
    unfolding cs_hmac_sha1_def key rbind_Inr Let_def pad two [OF limits(2)] hmac_spec_def by (rule two)
  moreover have "mg_hash_sha1_v junk ps = Inr (fips_sha1 (concat ps))"
    using sha1_of_pieces [OF assms(1) limits(3)] by (simp add: sha1_fips)
  ultimately show ?thesis by blast
qed

theorem hmac_sha1_witness:
  "mg_hash_sha1_v (replicate 64 7) [[0x61], [], [0x62, 0x63]] =
     Inr [0xa9, 0x99, 0x3e, 0x36, 0x47, 0x06, 0x81, 0x6a, 0xba, 0x3e, 0x25, 0x71, 0x78, 0x50, 0xc2, 0x6c, 0x9c, 0xd0, 0xd8, 0x9d]
   \<and> cs_hmac_sha1 (replicate 64 7) [1, 2] [3] = Inr (hmac_spec [1, 2] [3])"
  using hmac_sha1_correct [of "replicate 64 7" "[1, 2]" "[3]" "[[0x61], [], [0x62, 0x63]]"] sha1_abc by simp

end
