(* ===== verification/MgChunk.thy ===== *)
theory MgChunk
  imports MgUri
begin

text \<open>
  The chunked encoding of HTTP bodies in mongoose: \<open>mg_send_http_chunk\<close> writes a chunk,
  \<open>mg_http_parse_chunk\<close> finds the data of one, and the loop of \<open>mg_handle_chunked\<close> moves the data
  of all complete chunks of a buffer to its front. The lemmas say what the loop does to a buffer
  that holds any part of an encoded body, which is how bodies arrive.
\<close>

section \<open>Hexadecimal numbers\<close>

definition c_isxdigit :: "char \<Rightarrow> bool" where
  "c_isxdigit c \<longleftrightarrow> c_isdigit c \<or> (65 \<le> char_code c \<and> char_code c \<le> 70) \<or> (97 \<le> char_code c \<and> char_code c \<le> 102)"

definition xdigit_value :: "char \<Rightarrow> nat" where
  "xdigit_value c = (if c_isdigit c then char_code c - 48 else char_code (c_tolower c) - 97 + 10)"

text \<open>The characters that \<open>%lX\<close> prints.\<close>

definition hex_char :: "nat \<Rightarrow> char" where
  "hex_char d = (if d < 10 then char_of (48 + d) else char_of (55 + d))"

fun show_hex :: "nat \<Rightarrow> string" where
  "show_hex n = (if n < 16 then [hex_char n] else show_hex (n div 16) @ [hex_char (n mod 16)])"

declare show_hex.simps [simp del]

text \<open>
  The scan of the length: the index and the number, or nothing when there are more than six
  digits.
\<close>

fun scan_hex :: "nat \<Rightarrow> nat \<Rightarrow> string \<Rightarrow> (nat \<times> nat) option" where
  "scan_hex i n [] = Some (i, n)"
| "scan_hex i n (c # cs) =
     (if c_isxdigit c then (if i + 1 > 6 then None else scan_hex (i + 1) (n * 16 + xdigit_value c) cs)
      else Some (i, n))"

section \<open>Chunks\<close>

definition crlf_at :: "string \<Rightarrow> nat \<Rightarrow> bool" where
  "crlf_at s i \<longleftrightarrow> i + 2 \<le> length s \<and> s ! i = CR \<and> s ! (i + 1) = LF"

text \<open>The length of the chunk, the offset of its data and the length of its data.\<close>

definition mg_http_parse_chunk :: "string \<Rightarrow> (nat \<times> nat \<times> nat) option" where
  "mg_http_parse_chunk s =
     (case scan_hex 0 0 s of None \<Rightarrow> None
      | Some (i, n) \<Rightarrow>
          if i = 0 \<or> \<not> crlf_at s i then None
          else if \<not> crlf_at s (i + 2 + n) then None
          else Some (i + 2 + n + 2, i + 2, n))"

text \<open>
  What \<open>mg_send\<close> does to the send buffer: its length is an \<open>int\<close>, which the buffer takes as a
  \<open>size_t\<close>; whether the bytes were stored is not looked at.
\<close>

definition send_mbuf :: "reallocator \<Rightarrow> u8 list \<Rightarrow> mbuf \<Rightarrow> mbuf res" where
  "send_mbuf ra bs a =
     rbind (mbuf_append ra a (Some bs) (nat (c_int (int (length bs)) mod 2 ^ 64))) (\<lambda>(a', n). Inr a')"

definition mg_send_http_chunk :: "reallocator \<Rightarrow> string \<Rightarrow> mbuf \<Rightarrow> mbuf res" where
  "mg_send_http_chunk ra p a =
     rbind (send_mbuf ra (string_bytes (show_hex (length p) @ crlf)) a) (\<lambda>a1.
     rbind (send_mbuf ra (string_bytes p) a1) (\<lambda>a2. send_mbuf ra (string_bytes crlf) a2))"

fun send_chunks :: "reallocator \<Rightarrow> string list \<Rightarrow> mbuf \<Rightarrow> mbuf res" where
  "send_chunks ra [] a = Inr a"
| "send_chunks ra (p # ps) a = rbind (mg_send_http_chunk ra p a) (send_chunks ra ps)"

lemma parse_chunk_bounds: "mg_http_parse_chunk s = Some (n, d, k) \<Longrightarrow> 0 < n \<and> n \<le> length s \<and> d + k \<le> n"
  by (auto simp: mg_http_parse_chunk_def crlf_at_def split: option.splits if_splits)

text \<open>
  The loop of \<open>mg_handle_chunked\<close> on the block at \<open>buf\<close>, whose first \<open>blen\<close> characters were
  received: the block, \<open>i\<close>, \<open>body_len\<close> and whether the empty chunk was seen.
\<close>

function chunk_loop :: "string \<Rightarrow> nat \<Rightarrow> nat \<Rightarrow> nat \<Rightarrow> string \<times> nat \<times> nat \<times> bool" where
  "chunk_loop buf blen i b =
     (case mg_http_parse_chunk (take (blen - i) (drop i buf)) of
        None \<Rightarrow> (buf, i, b, False)
      | Some (n, data, data_len) \<Rightarrow>
          let buf' = put_at b (take data_len (drop (i + data) buf)) buf
          in if data_len = 0 then (buf', i + n, b + data_len, True)
             else chunk_loop buf' blen (i + n) (b + data_len))"
  by pat_completeness auto

termination
proof (relation "measure (\<lambda>(buf, blen, i, b). blen - i)", goal_cases)
  case (2 buf blen i b p n r data k buf')
  then have "0 < n" "n \<le> length (take (blen - i) (drop i buf))"
    using parse_chunk_bounds [of "take (blen - i) (drop i buf)" n data k] by auto
  then show ?case by auto
qed simp

declare chunk_loop.simps [simp del]

section \<open>Texts of chunks\<close>

text \<open>A chunk is the text of its length, in at most six digits of either case, and its data.\<close>

type_synonym chunk = "string \<times> string"

definition hex_value :: "string \<Rightarrow> nat" where
  "hex_value h = foldl (\<lambda>n c. n * 16 + xdigit_value c) 0 h"

fun good_chunk :: "chunk \<Rightarrow> bool" where
  "good_chunk (h, p) \<longleftrightarrow> h \<noteq> [] \<and> length h \<le> 6 \<and> list_all c_isxdigit h \<and> hex_value h = length p"

fun chunk_text :: "chunk \<Rightarrow> string" where
  "chunk_text (h, p) = h @ crlf @ p @ crlf"

definition chunks_text :: "chunk list \<Rightarrow> string" where
  "chunks_text cs = concat (map chunk_text cs)"

definition chunks_data :: "chunk list \<Rightarrow> string" where
  "chunks_data cs = concat (map snd cs)"

lemma chunks_simps [simp]:
  "chunks_text [] = []" "chunks_text (c # cs) = chunk_text c @ chunks_text cs"
  "chunks_text (cs @ ds) = chunks_text cs @ chunks_text ds"
  "chunks_data [] = []" "chunks_data (c # cs) = snd c @ chunks_data cs"
  "chunks_data (cs @ ds) = chunks_data cs @ chunks_data ds"
  by (simp_all add: chunks_text_def chunks_data_def)

lemma chunks_data_le: "length (chunks_data cs) \<le> length (chunks_text cs)"
proof (induction cs)
  case (Cons c cs)
  then show ?case by (cases c) simp
qed simp

lemma not_xdigit [simp]: "\<not> c_isxdigit CR" "\<not> c_isxdigit LF"
  by (simp_all add: c_isxdigit_def c_isdigit_def char_code_def)

lemma scan_digits:
  "list_all c_isxdigit h \<Longrightarrow> i + length h \<le> 6 \<Longrightarrow> r = [] \<or> \<not> c_isxdigit (hd r) \<Longrightarrow>
    scan_hex i n (h @ r) = Some (i + length h, foldl (\<lambda>n c. n * 16 + xdigit_value c) n h)"
proof (induction h arbitrary: i n)
  case Nil
  then show ?case by (cases r) simp_all
qed simp

lemma scan_chunk: "good_chunk (h, p) \<Longrightarrow> scan_hex 0 0 (h @ crlf @ r) = Some (length h, length p)"
  using scan_digits [of h 0 "crlf @ r" 0] by (simp add: hex_value_def crlf_def)

lemma crlf_at_mid [simp]: "crlf_at (a @ crlf @ r) (length a)"
  by (simp add: crlf_at_def crlf_def nth_append)

lemma parse_chunk_complete:
  assumes "good_chunk (h, p)"
  shows "mg_http_parse_chunk (chunk_text (h, p) @ r) = Some (length (chunk_text (h, p)), length h + 2, length p)"
proof -
  have "crlf_at ((h @ crlf @ p) @ crlf @ r) (length (h @ crlf @ p))" by (rule crlf_at_mid)
  then have "crlf_at (chunk_text (h, p) @ r) (length h + 2 + length p)" by (simp add: crlf_def)
  moreover have "crlf_at (chunk_text (h, p) @ r) (length h)" using crlf_at_mid [of h "p @ crlf @ r"] by simp
  moreover have "scan_hex 0 0 (chunk_text (h, p) @ r) = Some (length h, length p)"
    using scan_chunk [OF assms, of "p @ crlf @ r"] by simp
  ultimately show ?thesis using assms by (simp add: mg_http_parse_chunk_def crlf_def)
qed

text \<open>A chunk that is not complete has no length yet.\<close>

lemma parse_chunk_prefix:
  assumes "good_chunk (h, p)" and "m < length (chunk_text (h, p))"
  shows "mg_http_parse_chunk (take m (chunk_text (h, p))) = None"
proof (cases "m \<le> length h + 2")
  case False
  define r where "r = take (m - (length h + 2)) (p @ crlf)"
  have t: "take m (chunk_text (h, p)) = h @ crlf @ r" using False by (simp add: r_def crlf_def take_Cons')
  have "length r < length p + 2" using assms(2) False by (simp add: r_def crlf_def)
  then have "\<not> crlf_at (h @ crlf @ r) (length h + 2 + length p)" by (simp add: crlf_at_def crlf_def)
  then show ?thesis unfolding t mg_http_parse_chunk_def scan_chunk [OF assms(1)] by simp
next
  case True
  have x: "list_all c_isxdigit (take m h)" "length (take m h) \<le> 6"
    using assms(1) by (auto simp: list_all_iff dest: in_set_takeD)
  obtain r where t: "take m (chunk_text (h, p)) = take m h @ r" and r: "r = [] \<or> \<not> c_isxdigit (hd r)"
  proof
    show "take m (chunk_text (h, p)) = take m h @ take (m - length h) (crlf @ p @ crlf)" by simp
  qed (cases "m - length h"; simp add: crlf_def)
  show ?thesis
  proof (cases "m < length h + 2")
    case True
    then have "\<not> crlf_at (take m (chunk_text (h, p))) (length (take m h))" by (auto simp: crlf_at_def)
    then show ?thesis unfolding mg_http_parse_chunk_def t using scan_digits [OF x(1) _ r, of 0 0] x(2) by simp
  next
    case False
    with \<open>m \<le> length h + 2\<close> have "m = length h + 2" by simp
    then have t: "take m (chunk_text (h, p)) = h @ crlf @ []" by (simp add: crlf_def)
    have "\<not> crlf_at (h @ crlf @ []) (length h + 2 + length p)" by (simp add: crlf_at_def crlf_def)
    then show ?thesis unfolding t mg_http_parse_chunk_def scan_chunk [OF assms(1)] by simp
  qed
qed

section \<open>The loop over the chunks of a buffer\<close>

text \<open>
  The block is \<open>D @ J @ raw @ Z\<close>: the data in front, the framing that is left over between, what
  is still to be parsed, and the block behind the received bytes.
\<close>

lemma chunk_loop_step:
  assumes "good_chunk (h, p)" and "blen = length (D @ J @ chunk_text (h, p) @ raw)"
  defines "J' \<equiv> drop (length p) (J @ chunk_text (h, p))"
  shows "chunk_loop (D @ J @ chunk_text (h, p) @ raw @ Z) blen (length (D @ J)) (length D) =
     (if p = [] then (D @ J' @ raw @ Z, length (D @ J'), length D, True)
      else chunk_loop ((D @ p) @ J' @ raw @ Z) blen (length ((D @ p) @ J')) (length (D @ p)))"
proof -
  have t: "take (blen - length (D @ J)) (drop (length (D @ J)) (D @ J @ chunk_text (h, p) @ raw @ Z)) = chunk_text (h, p) @ raw"
    by (simp add: assms(2))
  have d: "take (length p) (drop (length (D @ J) + (length h + 2)) (D @ J @ chunk_text (h, p) @ raw @ Z)) = p"
    by (simp add: crlf_def)
  have "length p \<le> length (J @ chunk_text (h, p))" by simp
  then have b: "put_at (length D) p (D @ J @ chunk_text (h, p) @ raw @ Z) = (D @ p) @ J' @ raw @ Z"
    by (simp add: put_at_def J'_def)
  have i: "length (D @ J) + length (chunk_text (h, p)) = length ((D @ p) @ J')"
    by (simp add: J'_def)
  show ?thesis
    by (subst chunk_loop.simps) (simp only: t parse_chunk_complete [OF assms(1)] option.case split_conv Let_def d b i; simp)
qed

lemma chunk_loop_stop:
  assumes "good_chunk c" and "m < length (chunk_text c)" and "blen = length (D @ J @ take m (chunk_text c))"
  shows "chunk_loop (D @ J @ take m (chunk_text c) @ Z) blen (length (D @ J)) (length D) =
    (D @ J @ take m (chunk_text c) @ Z, length (D @ J), length D, False)"
proof -
  obtain h p where c: "c = (h, p)" by (cases c)
  have t: "take (blen - length (D @ J)) (drop (length (D @ J)) (D @ J @ take m (chunk_text c) @ Z)) = take m (chunk_text c)"
    using assms(2) by (simp add: assms(3) min_def)
  show ?thesis
    by (subst chunk_loop.simps)
      (simp only: t, simp only: c parse_chunk_prefix [OF assms(1,2) [unfolded c]] option.case)
qed

definition live_chunk :: "chunk \<Rightarrow> bool" where
  "live_chunk c \<longleftrightarrow> good_chunk c \<and> snd c \<noteq> []"

lemma chunk_loop_chunks:
  assumes "list_all live_chunk cs" and "blen = length (D @ J @ chunks_text cs @ raw)"
  shows "\<exists>J'. length (chunks_data cs @ J') = length (J @ chunks_text cs) \<and>
    chunk_loop (D @ J @ chunks_text cs @ raw @ Z) blen (length (D @ J)) (length D) =
    chunk_loop ((D @ chunks_data cs) @ J' @ raw @ Z) blen (length ((D @ chunks_data cs) @ J')) (length (D @ chunks_data cs))"
  using assms
proof (induction cs arbitrary: D J)
  case (Cons c cs)
  obtain h p where c: "c = (h, p)" by (cases c)
  have g: "good_chunk (h, p)" "p \<noteq> []" using Cons(2) by (simp_all add: c live_chunk_def)
  define K where "K = drop (length p) (J @ chunk_text (h, p))"
  have K: "length (p @ K) = length (J @ chunk_text (h, p))" by (simp add: K_def)
  have b: "blen = length (D @ J @ chunk_text (h, p) @ chunks_text cs @ raw)" using Cons(3) by (simp add: c)
  have "blen = length ((D @ p) @ K @ chunks_text cs @ raw)" using b K by simp
  then obtain J' where J':
    "length (chunks_data cs @ J') = length (K @ chunks_text cs)"
    "chunk_loop ((D @ p) @ K @ chunks_text cs @ raw @ Z) blen (length ((D @ p) @ K)) (length (D @ p)) =
     chunk_loop (((D @ p) @ chunks_data cs) @ J' @ raw @ Z) blen (length (((D @ p) @ chunks_data cs) @ J')) (length ((D @ p) @ chunks_data cs))"
    using Cons(1) [of "D @ p" K] Cons(2) by auto
  have "length (chunks_data (c # cs) @ J') = length (J @ chunks_text (c # cs))" using K J'(1) by (simp add: c)
  then show ?case using chunk_loop_step [OF g(1) b, of Z, folded K_def] J'(2) g(2)
    by (intro exI [of _ J']) (simp add: c del: chunk_text.simps)
qed auto

section \<open>A part of an encoded body\<close>

text \<open>The text of a body: its chunks and the empty chunk, whose length is \<open>0\<close> in up to six digits.\<close>

definition body_text :: "chunk list \<Rightarrow> string \<Rightarrow> string" where
  "body_text cs z = chunks_text cs @ chunk_text (z, [])"

lemma prefix_cases:
  "m < length (body_text cs z) \<Longrightarrow>
    \<exists>got todo c n. cs = got @ todo \<and> c = (case todo of [] \<Rightarrow> (z, []) | d # _ \<Rightarrow> d) \<and> n < length (chunk_text c)
      \<and> take m (body_text cs z) = chunks_text got @ take n (chunk_text c)"
proof (induction cs arbitrary: m)
  case Nil
  then show ?case by (intro exI [of _ "[]"] exI [of _ "(z, [])"] exI [of _ m]) (simp add: body_text_def)
next
  case (Cons c cs)
  show ?case
  proof (cases "m < length (chunk_text c)")
    case True
    then show ?thesis
      by (intro exI [of _ "[]"] exI [of _ "c # cs"] exI [of _ c] exI [of _ m]) (simp add: body_text_def)
  next
    case False
    then have "m - length (chunk_text c) < length (body_text cs z)" using Cons(2) by (simp add: body_text_def)
    from Cons(1) [OF this] obtain got todo d n where "cs = got @ todo" "d = (case todo of [] \<Rightarrow> (z, []) | d # _ \<Rightarrow> d)"
      "n < length (chunk_text d)" "take (m - length (chunk_text c)) (body_text cs z) = chunks_text got @ take n (chunk_text d)"
      by blast
    then show ?thesis using False
      by (intro exI [of _ "c # got"] exI [of _ todo] exI [of _ d] exI [of _ n]) (simp add: body_text_def)
  qed
qed

text \<open>
  A block of which the front \<open>D\<close> is decoded and which continues with a part of a body. The loop
  decodes the complete chunks and stops at the first that is not; with the empty chunk it says
  so and leaves what follows.
\<close>

lemma chunk_loop_part:
  assumes "list_all live_chunk cs" "good_chunk (z, [])" "m < length (body_text cs z)"
    and "blen = length (D @ take m (body_text cs z))"
  shows "\<exists>got todo J n. cs = got @ todo \<and> n < length (body_text todo z)
    \<and> take m (body_text cs z) = chunks_text got @ take n (body_text todo z)
    \<and> length (chunks_data got @ J) = length (chunks_text got)
    \<and> chunk_loop (D @ take m (body_text cs z) @ Z) blen (length D) (length D) =
       ((D @ chunks_data got) @ J @ take n (body_text todo z) @ Z, length (D @ chunks_text got), length (D @ chunks_data got), False)"
proof -
  obtain ds todo c n where s: "cs = ds @ todo" "c = (case todo of [] \<Rightarrow> (z, []) | d # _ \<Rightarrow> d)" "n < length (chunk_text c)"
    "take m (body_text cs z) = chunks_text ds @ take n (chunk_text c)"
    using prefix_cases [OF assms(3)] by blast
  have g: "good_chunk c" "list_all live_chunk ds" using s(1,2) assms(1,2) by (auto simp: live_chunk_def split: list.splits)
  have t: "take n (body_text todo z) = take n (chunk_text c)" "n < length (body_text todo z)"
    using s(2,3) by (auto simp: body_text_def split: list.splits)
  have b: "blen = length (D @ [] @ chunks_text ds @ take n (chunk_text c))" using assms(4) s(4) by simp
  obtain J where J: "length (chunks_data ds @ J) = length ([] @ chunks_text ds)"
    "chunk_loop (D @ [] @ chunks_text ds @ take n (chunk_text c) @ Z) blen (length (D @ [])) (length D) =
     chunk_loop ((D @ chunks_data ds) @ J @ take n (chunk_text c) @ Z) blen (length ((D @ chunks_data ds) @ J)) (length (D @ chunks_data ds))"
    using chunk_loop_chunks [OF g(2) b] by blast
  have "blen = length ((D @ chunks_data ds) @ J @ take n (chunk_text c))" using b J(1) by simp
  from chunk_loop_stop [OF g(1) s(3) this, of Z] J t s show ?thesis
    by (intro exI [of _ ds] exI [of _ todo] exI [of _ J] exI [of _ n]) simp
qed

lemma chunk_loop_whole:
  assumes "list_all live_chunk cs" "good_chunk (z, [])" and "blen = length (D @ body_text cs z @ rest)"
  shows "\<exists>J. length (chunks_data cs @ J) = length (body_text cs z)
    \<and> chunk_loop (D @ body_text cs z @ rest @ Z) blen (length D) (length D) =
       ((D @ chunks_data cs) @ J @ rest @ Z, length (D @ body_text cs z), length (D @ chunks_data cs), True)"
proof -
  have b: "blen = length (D @ [] @ chunks_text cs @ chunk_text (z, []) @ rest)" using assms(3) by (simp add: body_text_def)
  obtain J where J: "length (chunks_data cs @ J) = length ([] @ chunks_text cs)"
    "chunk_loop (D @ [] @ chunks_text cs @ (chunk_text (z, []) @ rest) @ Z) blen (length (D @ [])) (length D) =
     chunk_loop ((D @ chunks_data cs) @ J @ (chunk_text (z, []) @ rest) @ Z) blen (length ((D @ chunks_data cs) @ J)) (length (D @ chunks_data cs))"
    using chunk_loop_chunks [OF assms(1), of blen D "[]" "chunk_text (z, []) @ rest" Z] b by auto
  have "blen = length ((D @ chunks_data cs) @ J @ chunk_text (z, []) @ rest)" using b J(1) by simp
  from chunk_loop_step [OF assms(2) this, of Z] J show ?thesis
    by (intro exI [of _ "J @ chunk_text (z, [])"]) (simp add: body_text_def)
qed

section \<open>What is sent is read\<close>

lemma xdigit_hex_char:
  assumes "d < 16"
  shows "c_isxdigit (hex_char d) \<and> xdigit_value (hex_char d) = d"
proof -
  have c: "char_code (hex_char d) = (if d < 10 then 48 + d else 55 + d)"
    using assms by (simp add: hex_char_def char_code_def)
  have t: "char_code (char_of (char_code (hex_char d) + 32)) = char_code (hex_char d) + 32"
    using assms c by (simp add: char_code_def)
  show ?thesis
    using assms by (simp add: c_isxdigit_def c_isdigit_def xdigit_value_def c_tolower_def t) (simp add: c)
qed

lemma hex_value_snoc: "hex_value (h @ [c]) = hex_value h * 16 + xdigit_value c"
  by (simp add: hex_value_def)

lemma show_hex_read: "hex_value (show_hex n) = n \<and> list_all c_isxdigit (show_hex n) \<and> show_hex n \<noteq> []"
proof (induction n rule: show_hex.induct)
  case (1 n)
  show ?case
  proof (cases "n < 16")
    case True
    then show ?thesis using xdigit_hex_char [of n] by (subst (1 2 3) show_hex.simps) (simp add: hex_value_def)
  next
    case False
    then show ?thesis using 1 xdigit_hex_char [of "n mod 16"]
      by (subst (1 2 3) show_hex.simps) (simp add: hex_value_snoc)
  qed
qed

lemma show_hex_length: "length (show_hex n) \<le> k \<longleftrightarrow> n < 16 ^ k" if "0 < k"
  using that
proof (induction k arbitrary: n)
  case (Suc k)
  show ?case
  proof (cases "n < 16")
    case True
    have "(16 :: nat) \<le> 16 ^ Suc k" by simp
    then have "n < 16 ^ Suc k" using True by linarith
    then show ?thesis using True by (subst show_hex.simps) simp
  next
    case False
    then have l: "length (show_hex n) = Suc (length (show_hex (n div 16)))" by (subst show_hex.simps) simp
    show ?thesis
    proof (cases k)
      case 0
      have "0 < length (show_hex (n div 16))" using show_hex_read [of "n div 16"] by simp
      then show ?thesis using l False 0 by simp
    next
      case (Suc j)
      then show ?thesis using Suc.IH [of "n div 16"] l by (simp add: div_less_iff_less_mult mult.commute)
    qed
  qed
qed simp

lemma sent_chunk_good: "length p < 16 ^ 6 \<Longrightarrow> good_chunk (show_hex (length p), p)"
  using show_hex_read [of "length p"] show_hex_length [of 6 "length p"] by simp

lemma scan_too_long:
  "list_all c_isxdigit h \<Longrightarrow> 6 < i + length h \<Longrightarrow> i \<le> 6 \<Longrightarrow> scan_hex i n (h @ r) = None"
proof (induction h arbitrary: i n)
  case (Cons c h)
  then show ?case by (cases "i + 1 > 6") simp_all
qed simp

section \<open>Sending chunks\<close>

lemma length_crlf: "length crlf = 2"
  by (simp add: crlf_def)

lemma send_length: "length bs < 2 ^ 31 \<Longrightarrow> nat (c_int (int (length bs)) mod 2 ^ 64) = length bs"
proof -
  assume "length bs < 2 ^ 31"
  then have "c_int (int (length bs)) = int (length bs)" by (intro c_int_id) simp_all
  then show ?thesis using \<open>length bs < 2 ^ 31\<close> by simp
qed

lemma send_put: "length bs < 2 ^ 31 \<Longrightarrow> send_mbuf ra bs a = rbind (mbuf_put (ra, a) bs) (\<lambda>(m, n). Inr (snd m))"
  unfolding send_mbuf_def mbuf_put_def by (simp only: send_length) (simp add: rbind_def split: sum.splits prod.splits)

text \<open>A buffer takes all the bytes or none.\<close>

lemma send_cases:
  assumes "heap_ok (ra, a)" and "length (mbuf_data a) + length bs < 2 ^ 64" and "length bs < 2 ^ 31"
  shows "\<exists>a' b. send_mbuf ra bs a = Inr a' \<and> heap_ok (ra, a') \<and> mbuf_data a' = mbuf_data a @ (if b then bs else [])"
proof -
  consider "mbuf_put (ra, a) bs = Inr ((ra, a), 0)"
    | m' where "mbuf_put (ra, a) bs = Inr (m', length bs)" "heap_ok m'" "mbuf_data (snd m') = mbuf_data a @ bs"
    using mbuf_put_law [OF assms(1), of bs] assms(2) by auto
  then show ?thesis
  proof cases
    case 1
    then show ?thesis using assms(1) by (intro exI [of _ a] exI [of _ False]) (simp add: send_put [OF assms(3)])
  next
    case 2
    then have "fst m' = ra" by (auto simp: mbuf_put_def rbind_eq_Inr_iff)
    then show ?thesis using 2 by (intro exI [of _ "snd m'"] exI [of _ True]) (cases m', simp add: send_put [OF assms(3)])
  qed
qed

lemma send_ample:
  assumes "ample_heap (ra, a)" and "length (mbuf_data a) + length bs < 2 ^ 62" and "length bs < 2 ^ 31"
  shows "\<exists>a'. send_mbuf ra bs a = Inr a' \<and> ample_heap (ra, a') \<and> mbuf_data a' = mbuf_data a @ bs"
proof -
  have h: "heap_ok (ra, a)" using assms(1) by (simp add: ample_heap_def)
  have "mbuf_put (ra, a) bs \<noteq> Inr ((ra, a), 0) \<or> bs = []" by (rule ample_put_stores [OF assms(1)]) (use assms(2) in simp)
  moreover have "length (mbuf_data a) + length bs < 2 ^ 64" using assms(2) by simp
  ultimately obtain m' where m: "mbuf_put (ra, a) bs = Inr (m', length bs)" "heap_ok m'" "mbuf_data (snd m') = mbuf_data a @ bs"
    using mbuf_put_law [OF h, of bs] h by (cases "bs = []") auto
  then have "fst m' = ra" by (auto simp: mbuf_put_def rbind_eq_Inr_iff)
  then show ?thesis using m mbuf_put_ample [OF assms(1) m(1,2)]
    by (intro exI [of _ "snd m'"]) (cases m', simp add: send_put [OF assms(3)])
qed

text \<open>The text of a chunk as it is sent.\<close>

definition sent_chunk :: "string \<Rightarrow> string" where
  "sent_chunk p = show_hex (length p) @ crlf @ p @ crlf"

lemma show_hex_short: "n < 2 ^ 31 \<Longrightarrow> length (show_hex n @ crlf) < 2 ^ 31"
proof -
  assume "n < 2 ^ 31"
  then have "n < 16 ^ 8" by simp
  then have "length (show_hex n) \<le> 8" using show_hex_length [of 8 n] by simp
  then show ?thesis by (simp add: crlf_def)
qed

lemma send_chunk_ample:
  assumes "ample_heap (ra, a)" and "length (mbuf_data a) + length (sent_chunk p) < 2 ^ 62" and "length p < 2 ^ 31"
  shows "\<exists>a'. mg_send_http_chunk ra p a = Inr a' \<and> ample_heap (ra, a') \<and> mbuf_data a' = mbuf_data a @ string_bytes (sent_chunk p)"
proof -
  let ?h = "string_bytes (show_hex (length p) @ crlf)"
  have "length ?h < 2 ^ 31" using show_hex_short [OF assms(3)] by simp
  moreover have "length (mbuf_data a) + length ?h < 2 ^ 62" using assms(2) by (simp add: sent_chunk_def)
  ultimately obtain a1 where 1: "send_mbuf ra ?h a = Inr a1" "ample_heap (ra, a1)" "mbuf_data a1 = mbuf_data a @ ?h"
    using send_ample [OF assms(1)] by blast
  have "length (mbuf_data a1) + length (string_bytes p) < 2 ^ 62" using assms(2) 1(3) by (simp add: sent_chunk_def)
  with send_ample [OF 1(2), of "string_bytes p"] assms(3) obtain a2
    where 2: "send_mbuf ra (string_bytes p) a1 = Inr a2" "ample_heap (ra, a2)" "mbuf_data a2 = mbuf_data a1 @ string_bytes p"
    by auto
  have "length (mbuf_data a2) + length (string_bytes crlf) < 2 ^ 62" using assms(2) 1(3) 2(3) by (simp add: sent_chunk_def)
  with send_ample [OF 2(2), of "string_bytes crlf"] obtain a3
    where 3: "send_mbuf ra (string_bytes crlf) a2 = Inr a3" "ample_heap (ra, a3)" "mbuf_data a3 = mbuf_data a2 @ string_bytes crlf"
    by (auto simp: length_crlf)
  show ?thesis using 1 2 3 by (simp add: mg_send_http_chunk_def sent_chunk_def)
qed

lemma send_chunks_ample:
  "ample_heap (ra, a) \<Longrightarrow> length (mbuf_data a) + length (concat (map sent_chunk ps)) < 2 ^ 62 \<Longrightarrow> list_all (\<lambda>p. length p < 2 ^ 31) ps
     \<Longrightarrow> \<exists>a'. send_chunks ra ps a = Inr a' \<and> mbuf_data a' = mbuf_data a @ string_bytes (concat (map sent_chunk ps))"
proof (induction ps arbitrary: a)
  case (Cons p ps)
  obtain a1 where 1: "mg_send_http_chunk ra p a = Inr a1" "ample_heap (ra, a1)" "mbuf_data a1 = mbuf_data a @ string_bytes (sent_chunk p)"
    using send_chunk_ample [OF Cons.prems(1), of p] Cons.prems(2,3) by auto
  have "length (mbuf_data a1) + length (concat (map sent_chunk ps)) < 2 ^ 62" using Cons.prems(2) 1(3) by simp
  from Cons.IH [OF 1(2) this] Cons.prems(3) show ?case by (auto simp: 1(1,3))
qed simp

text \<open>Whatever the allocator does, each of the three parts is sent as a whole or lost.\<close>

lemma send_chunk_parts:
  assumes "heap_ok (ra, a)" and "length (mbuf_data a) + length (sent_chunk p) < 2 ^ 64" and "length p < 2 ^ 31"
  shows "\<exists>a' b1 b2 b3. mg_send_http_chunk ra p a = Inr a' \<and> mbuf_data a' = mbuf_data a @ string_bytes
    ((if b1 then show_hex (length p) @ crlf else []) @ (if b2 then p else []) @ (if b3 then crlf else []))"
proof -
  let ?h = "string_bytes (show_hex (length p) @ crlf)"
  have "length ?h < 2 ^ 31" using show_hex_short [OF assms(3)] by simp
  moreover have "length (mbuf_data a) + length ?h < 2 ^ 64" using assms(2) by (simp add: sent_chunk_def)
  ultimately obtain a1 b1 where 1: "send_mbuf ra ?h a = Inr a1" "heap_ok (ra, a1)" "mbuf_data a1 = mbuf_data a @ (if b1 then ?h else [])"
    using send_cases [OF assms(1)] by blast
  have "length (mbuf_data a1) + length (string_bytes p) < 2 ^ 64" using assms(2) 1(3) by (auto simp: sent_chunk_def)
  with send_cases [OF 1(2), of "string_bytes p"] assms(3) obtain a2 b2
    where 2: "send_mbuf ra (string_bytes p) a1 = Inr a2" "heap_ok (ra, a2)" "mbuf_data a2 = mbuf_data a1 @ (if b2 then string_bytes p else [])"
    by auto
  have "length (mbuf_data a2) + length (string_bytes crlf) < 2 ^ 64" using assms(2) 1(3) 2(3) by (auto simp: sent_chunk_def)
  with send_cases [OF 2(2), of "string_bytes crlf"] obtain a3 b3
    where 3: "send_mbuf ra (string_bytes crlf) a2 = Inr a3" "mbuf_data a3 = mbuf_data a2 @ (if b3 then string_bytes crlf else [])"
    by (auto simp: length_crlf)
  have "mg_send_http_chunk ra p a = Inr a3" using 1(1) 2(1) 3(1) by (simp add: mg_send_http_chunk_def)
  moreover have "mbuf_data a3 = mbuf_data a @ string_bytes
    ((if b1 then show_hex (length p) @ crlf else []) @ (if b2 then p else []) @ (if b3 then crlf else []))"
    using 1(3) 2(3) 3(2) by simp
  ultimately show ?thesis by blast
qed

text \<open>The chunks that \<open>mg_send_http_chunk\<close> has sent for some pieces.\<close>

definition sent_chunks :: "string list \<Rightarrow> chunk list" where
  "sent_chunks ps = map (\<lambda>p. (show_hex (length p), p)) ps"

lemma sent_text: "concat (map sent_chunk ps) = chunks_text (sent_chunks ps)"
  by (induction ps) (simp_all add: sent_chunk_def sent_chunks_def)

lemma sent_data: "chunks_data (sent_chunks ps) = concat ps"
  by (induction ps) (simp_all add: sent_chunks_def)

lemma sent_long: "16 ^ 6 \<le> length p \<Longrightarrow> mg_http_parse_chunk (sent_chunk p @ r) = None"
proof -
  assume "16 ^ 6 \<le> length p"
  then have "6 < length (show_hex (length p))" using show_hex_length [of 6 "length p"] by linarith
  then have "scan_hex 0 0 (show_hex (length p) @ crlf @ p @ crlf @ r) = None"
    using show_hex_read by (intro scan_too_long) simp_all
  then show ?thesis by (simp add: mg_http_parse_chunk_def sent_chunk_def)
qed

lemma sent_whole:
  assumes "list_all (\<lambda>p. p \<noteq> [] \<and> length p < 16 ^ 6) ps"
  defines "t \<equiv> concat (map sent_chunk (ps @ [[]]))"
  shows "\<exists>J. chunk_loop t (length t) 0 0 = (concat ps @ J, length t, length (concat ps), True)"
proof -
  have z: "good_chunk (show_hex 0, [])" using sent_chunk_good [of "[]"] by simp
  have "list_all live_chunk (sent_chunks ps)"
    using assms(1) sent_chunk_good by (auto simp: sent_chunks_def live_chunk_def list_all_iff simp del: good_chunk.simps)
  moreover have "t = body_text (sent_chunks ps) (show_hex 0)"
    unfolding t_def by (simp only: sent_text) (simp add: body_text_def sent_chunks_def)
  ultimately show ?thesis
    using chunk_loop_whole [OF _ z, of "sent_chunks ps" _ "[]" "[]" "[]"] by (auto simp: sent_data Let_def)
qed


definition chunk_ra :: reallocator where
  "chunk_ra n = (if n < 2 ^ 62 then Some (4096, \<lambda>i. 0) else None)"

lemma chunk_ra_ok: "ample_heap (chunk_ra, mbuf_init chunk_ra 0)" "mbuf_data (mbuf_init chunk_ra 0) = []"
  by (auto simp: ample_heap_def ample_def heap_ok_def ra_ok_def mbuf_ok_def chunk_ra_def size_max_def
      mbuf_init_def mbuf_resize_def mbuf_data_def split: if_splits)


end
