(* ===== verification/MgConn.thy ===== *)
theory MgConn
  imports MgChunk
begin

text \<open>
  The HTTP connection of a mongoose client: \<open>mg_handle_chunked\<close>, \<open>deliver_chunk\<close> and
  \<open>mg_http_handler\<close> for a connection without a listener, which is what \<open>mg_connect_http\<close> makes.
  The receive buffer is the block behind \<open>recv_mbuf.buf\<close> and its length; the events that the
  user handler is called with are collected. The user handler is a parameter, which says for
  every event whether it sets \<open>MG_F_DELETE_CHUNK\<close>; what else it does has no effect here.
\<close>

section \<open>State and events\<close>

text \<open>
  \<open>nc_body\<close> is \<open>chunk.body_len\<close> and \<open>nc_rcvd\<close> is \<open>rcvd\<close> of the protocol data, which are zero
  when there is none. \<open>nc_ws\<close> says that \<open>mg_ws_handler\<close> has become the protocol handler.
\<close>

record conn =
  nc_buf :: string
  nc_len :: nat
  nc_limit :: nat
  nc_delete :: bool
  nc_close :: bool
  nc_ws :: bool
  nc_body :: nat
  nc_rcvd :: nat

text \<open>An event with a message carries the block that the message points into.\<close>

datatype http_ev =
    HRecv nat | HClose | HChunk string http_message | HReply string http_message | HWebsocket
  | HConnect int | HSend int | HPoll

text \<open>\<open>mg_call\<close> of the user handler.\<close>

definition mg_call :: "(http_ev \<Rightarrow> bool) \<Rightarrow> http_ev \<Rightarrow> conn \<Rightarrow> conn \<times> http_ev list" where
  "mg_call h e c = (c\<lparr>nc_delete := nc_delete c \<or> h e\<rparr>, [e])"

text \<open>\<open>mbuf_remove\<close> on the receive buffer.\<close>

definition recv_remove :: "nat \<Rightarrow> conn \<Rightarrow> conn" where
  "recv_remove n c =
     (if n > 0 \<and> n \<le> nc_len c
      then c\<lparr>nc_buf := put_at 0 (take (nc_len c - n) (drop n (nc_buf c))) (nc_buf c), nc_len := nc_len c - n\<rparr> else c)"

section \<open>Delivering\<close>

text \<open>
  The part of \<open>mg_handle_chunked\<close> behind its loop. The message is changed through its pointer;
  the body begins at \<open>req_len\<close>.
\<close>

definition after_chunks ::
  "(http_ev \<Rightarrow> bool) \<Rightarrow> nat \<Rightarrow> nat \<Rightarrow> string \<times> nat \<times> nat \<times> bool \<Rightarrow> conn \<Rightarrow> http_message \<Rightarrow> conn \<times> http_message \<times> http_ev list" where
  "after_chunks h req_len blen r c hm =
     (let (b1, i, blen1, zero) = r;
          b2 = put_at (blen1 + blen - i) (replicate (i - blen1) NUL) (put_at blen1 (take (blen - i) (drop i b1)) b1);
          c1 = c\<lparr>nc_buf := take req_len (nc_buf c) @ b2, nc_len := nc_len c - (i - blen1), nc_body := blen1, nc_delete := False\<rparr>;
          hm1 = hm\<lparr>hm_body := (hm_body hm)\<lparr>ms_len := blen1\<rparr>\<rparr>;
          (c2, evs) = mg_call h (HChunk (nc_buf c1) hm1) c1;
          (c3, hm2) = (if nc_delete c2 then
              (c2\<lparr>nc_buf := take req_len (nc_buf c2) @ put_at 0 (take (blen - i) (drop blen1 b2)) (put_at 0 (replicate blen1 NUL) b2),
                  nc_len := nc_len c2 - blen1, nc_body := 0\<rparr>, hm1\<lparr>hm_body := (hm_body hm1)\<lparr>ms_len := 0\<rparr>\<rparr>)
            else (c2, hm1));
          hm3 = (if zero then hm2\<lparr>hm_message := (hm_message hm2)\<lparr>ms_len := nc_body c3 + blen - i + (ptr (hm_body hm2) - ptr (hm_message hm2))\<rparr>\<rparr>
                 else hm2)
      in (c3, hm3, evs))"

definition mg_handle_chunked ::
  "(http_ev \<Rightarrow> bool) \<Rightarrow> nat \<Rightarrow> conn \<Rightarrow> http_message \<Rightarrow> (conn \<times> http_message \<times> http_ev list) res" where
  "mg_handle_chunked h req_len c hm =
     (let blen = nc_len c - req_len in
      guard_res (nc_body c \<le> blen) AssertFail
        (let (b1, i, blen1, zero) = chunk_loop (drop req_len (nc_buf c)) blen (nc_body c) (nc_body c)
         in if i > blen1 then Inr (after_chunks h req_len blen (b1, i, blen1, zero) c hm)
            else Inr (c, hm, [])))"

definition deliver_chunk :: "(http_ev \<Rightarrow> bool) \<Rightarrow> nat \<Rightarrow> conn \<Rightarrow> http_message \<Rightarrow> conn \<times> http_message \<times> http_ev list" where
  "deliver_chunk h req_len c hm =
     (let hm1 = hm\<lparr>hm_body := (hm_body hm)\<lparr>ms_len := nc_len c - req_len\<rparr>\<rparr>;
          (c1, evs) = mg_call h (HChunk (nc_buf c) hm1) (c\<lparr>nc_delete := False\<rparr>)
      in (if nc_delete c1 then c1\<lparr>nc_len := req_len\<rparr> else c1, hm1, evs))"

section \<open>The protocol handler\<close>

definition recv_text :: "conn \<Rightarrow> string" where
  "recv_text c = take (nc_len c) (nc_buf c)"

text \<open>
  What \<open>mg_parse_http\<close> sees of it: its length is passed as an \<open>int\<close>, and when this is negative
  there is nothing to parse.
\<close>

definition parse_text :: "conn \<Rightarrow> string" where
  "parse_text c = take (nat (c_int (int (nc_len c)))) (recv_text c)"

lemma parse_text_small: "nc_len c < 2 ^ 31 \<Longrightarrow> parse_text c = recv_text c"
proof -
  assume l: "nc_len c < 2 ^ 31"
  then have "c_int (int (nc_len c)) = int (nc_len c)" by (intro c_int_id) simp_all
  then show ?thesis by (simp add: parse_text_def recv_text_def)
qed

definition is_chunked :: "string \<Rightarrow> http_message \<Rightarrow> bool" where
  "is_chunked t hm =
     (case mg_get_http_header t hm ''Transfer-Encoding'' of None \<Rightarrow> False
      | Some s \<Rightarrow> mg_vcasecmp (slice t s) ''chunked'' = 0)"

definition MG_MAX_HTTP_REQUEST_SIZE :: nat where "MG_MAX_HTTP_REQUEST_SIZE = 8192"

text \<open>The body of a message in the chunked encoding.\<close>

definition chunk_stage ::
  "(http_ev \<Rightarrow> bool) \<Rightarrow> int \<Rightarrow> conn \<Rightarrow> http_message \<Rightarrow> (conn \<times> http_message \<times> http_ev list) res" where
  "chunk_stage h len c hm =
     (if len > 0 \<and> is_chunked (recv_text c) hm then mg_handle_chunked h (nat len) c hm else Inr (c, hm, []))"

text \<open>The head is there, but not yet the whole body.\<close>

definition wait_for_body :: "(http_ev \<Rightarrow> bool) \<Rightarrow> nat \<Rightarrow> conn \<Rightarrow> http_message \<Rightarrow> conn \<times> http_ev list" where
  "wait_for_body h req_len c hm =
     (let (c1, hm1, evs) = deliver_chunk h req_len c hm
      in (if nc_limit c1 > 0 \<and> nc_len c1 \<ge> nc_limit c1 then c1\<lparr>nc_close := True\<rparr> else c1, evs))"

text \<open>The whole message is there: it is delivered and removed, and the protocol data is freed.\<close>

definition deliver_reply :: "(http_ev \<Rightarrow> bool) \<Rightarrow> nat \<Rightarrow> conn \<Rightarrow> http_message \<Rightarrow> conn \<times> http_message \<times> http_ev list" where
  "deliver_reply h req_len c hm =
     (let (c1, hm1, evs1) = deliver_chunk h req_len c hm;
          (c2, evs2) = mg_call h (HReply (nc_buf c) hm1) c1
      in ((recv_remove (ms_len (hm_message hm1)) c2)\<lparr>nc_body := 0, nc_rcvd := 0\<rparr>, hm1, evs1 @ evs2))"

text \<open>The reply of a websocket server: the head is removed and \<open>mg_ws_handler\<close> takes over.\<close>

definition become_websocket :: "(http_ev \<Rightarrow> bool) \<Rightarrow> nat \<Rightarrow> conn \<Rightarrow> conn \<times> http_ev list" where
  "become_websocket h req_len c =
     (let (c1, evs) = mg_call h HWebsocket ((recv_remove req_len c)\<lparr>nc_ws := True\<rparr>) in (c1, evs))"

text \<open>From the label \<open>again\<close> on: with data left, the next message is parsed with fresh protocol data.\<close>

partial_function (option) recv_again ::
  "(http_ev \<Rightarrow> bool) \<Rightarrow> conn \<Rightarrow> http_message \<Rightarrow> http_ev list \<Rightarrow> (conn \<times> http_ev list) res option" where
  "recv_again h c hm0 evs =
     (let (len, hm) = mg_parse_http (parse_text c) False hm0; req_len = nat len in
      case chunk_stage h len c hm of
        Inl e \<Rightarrow> Some (Inl e)
      | Inr (c1, hm1, evs1) \<Rightarrow>
          if len < 0 \<or> (len = 0 \<and> nc_len c1 \<ge> MG_MAX_HTTP_REQUEST_SIZE) then Some (Inr (c1\<lparr>nc_close := True\<rparr>, evs @ evs1))
          else if len = 0 then Some (Inr (c1, evs @ evs1))
          else if mg_get_http_header (nc_buf c1) hm1 ''Sec-WebSocket-Accept'' \<noteq> None then
            (let (c2, evs2) = become_websocket h req_len c1 in Some (Inr (c2, evs @ evs1 @ evs2)))
          else if ms_len (hm_message hm1) > nc_rcvd c1 then
            (let (c2, evs2) = wait_for_body h req_len c1 hm1 in Some (Inr (c2, evs @ evs1 @ evs2)))
          else
            (let (c2, hm2, evs2) = deliver_reply h req_len c1 hm1
             in if nc_len c2 > 0 then recv_again h (c2\<lparr>nc_rcvd := nc_len c2\<rparr>) hm2 (evs @ evs1 @ evs2)
                else Some (Inr (c2, evs @ evs1 @ evs2))))"

text \<open>
  \<open>MG_EV_RECV\<close>: \<open>mg_recv_tcp\<close> has put the segment into the buffer, whose block it trimmed.
  When websockets have taken over, the event is not for this handler.
\<close>

definition http_recv :: "(http_ev \<Rightarrow> bool) \<Rightarrow> string \<Rightarrow> conn \<Rightarrow> (conn \<times> http_ev list) res option" where
  "http_recv h seg c =
     (let c1 = c\<lparr>nc_buf := recv_text c @ seg, nc_len := nc_len c + length seg\<rparr>;
          (c2, evs) = mg_call h (HRecv (length seg)) c1
      in recv_again h (c2\<lparr>nc_rcvd := (nc_rcvd c2 + length seg) mod 2 ^ 64\<rparr>) hm_empty evs)"

text \<open>\<open>MG_EV_CLOSE\<close>: what is in the buffer is delivered as a reply when it has a head.\<close>

definition http_close :: "(http_ev \<Rightarrow> bool) \<Rightarrow> conn \<Rightarrow> conn \<times> http_ev list" where
  "http_close h c =
     (let (len, hm) = mg_parse_http (parse_text c) False hm_empty; req_len = nat len;
          (c1, evs1) =
            (if nc_len c > 0 \<and> len > 0 then
               (let hm1 = hm\<lparr>hm_message := (hm_message hm)\<lparr>ms_len := nc_len c\<rparr>,
                              hm_body := (hm_body hm)\<lparr>ms_len := nc_len c - ptr (hm_body hm)\<rparr>\<rparr>;
                    (c1, hm2, evs1) = deliver_chunk h req_len c hm1;
                    (c2, evs2) = mg_call h (HReply (nc_buf c) hm2) c1
                in (c2, evs1 @ evs2))
             else (c, []));
          (c2, evs2) = mg_call h HClose (c1\<lparr>nc_rcvd := 0\<rparr>)
      in (c2, evs1 @ evs2))"

section \<open>One round of the handler\<close>

text \<open>The user handler keeps what it is shown.\<close>

definition keeps :: "(http_ev \<Rightarrow> bool) \<Rightarrow> bool" where
  "keeps h \<longleftrightarrow> (\<forall>t hm. \<not> h (HChunk t hm))"

lemma keepsD: "keeps h \<Longrightarrow> h (HChunk t hm) = False"
  by (simp add: keeps_def)

lemma deliver_keeps:
  "keeps h \<Longrightarrow> deliver_chunk h n c hm =
    (c\<lparr>nc_delete := False\<rparr>, hm\<lparr>hm_body := (hm_body hm)\<lparr>ms_len := nc_len c - n\<rparr>\<rparr>,
     [HChunk (nc_buf c) (hm\<lparr>hm_body := (hm_body hm)\<lparr>ms_len := nc_len c - n\<rparr>\<rparr>)])"
  by (simp add: deliver_chunk_def mg_call_def keepsD Let_def)

lemma again_no_head:
  assumes "mg_parse_http (parse_text c) False hm0 = (0, hm0)" and "nc_len c < MG_MAX_HTTP_REQUEST_SIZE"
  shows "recv_again h c hm0 evs = Some (Inr (c, evs))"
  using assms by (subst recv_again.simps) (simp add: chunk_stage_def)

lemma again_wait:
  assumes "mg_parse_http (parse_text c) False hm0 = (int n, hm)" and "0 < n"
    and "chunk_stage h (int n) c hm = Inr (c1, hm1, evs1)"
    and "mg_get_http_header (nc_buf c1) hm1 ''Sec-WebSocket-Accept'' = None"
    and "nc_rcvd c1 < ms_len (hm_message hm1)" and "nc_limit c1 = 0 \<or> nc_len c1 < nc_limit c1" and "keeps h"
  shows "recv_again h c hm0 evs = Some (Inr (c1\<lparr>nc_delete := False\<rparr>,
    evs @ evs1 @ [HChunk (nc_buf c1) (hm1\<lparr>hm_body := (hm_body hm1)\<lparr>ms_len := nc_len c1 - n\<rparr>\<rparr>)]))"
  using assms
  by (subst recv_again.simps) (auto simp: Let_def wait_for_body_def deliver_keeps)

lemma again_reply:
  assumes "mg_parse_http (parse_text c) False hm0 = (int n, hm)" and "0 < n"
    and "chunk_stage h (int n) c hm = Inr (c1, hm1, evs1)"
    and "mg_get_http_header (nc_buf c1) hm1 ''Sec-WebSocket-Accept'' = None"
    and "ms_len (hm_message hm1) \<le> nc_rcvd c1" and "ms_len (hm_message hm1) = nc_len c1" and "0 < nc_len c1" and "keeps h"
  defines "hm2 \<equiv> hm1\<lparr>hm_body := (hm_body hm1)\<lparr>ms_len := nc_len c1 - n\<rparr>\<rparr>"
  shows "\<exists>c2. recv_again h c hm0 evs = Some (Inr (c2, evs @ evs1 @ [HChunk (nc_buf c1) hm2, HReply (nc_buf c1) hm2]))
    \<and> nc_len c2 = 0 \<and> nc_body c2 = 0 \<and> nc_rcvd c2 = 0 \<and> nc_close c2 = nc_close c1 \<and> nc_ws c2 = nc_ws c1 \<and> nc_limit c2 = nc_limit c1"
  using assms(1-8)
  by (subst recv_again.simps) (auto simp: Let_def deliver_reply_def deliver_keeps mg_call_def recv_remove_def hm2_def)

text \<open>With 2^31 bytes or more the length is negative as an \<open>int\<close>: nothing is parsed, and the connection is closed.\<close>

lemma parse_text_large: "2 ^ 31 \<le> nc_len c \<Longrightarrow> nc_len c < 2 ^ 32 \<Longrightarrow> parse_text c = []"
proof -
  assume l: "2 ^ 31 \<le> nc_len c" "nc_len c < 2 ^ 32"
  let ?i = "int (nc_len c)"
  have "(?i + 2 ^ 31 - 2 ^ 32) mod 2 ^ 32 = ?i + 2 ^ 31 - 2 ^ 32" by (rule mod_pos_pos_trivial) (use l in simp_all)
  then have "(?i + 2 ^ 31) mod 2 ^ 32 = ?i + 2 ^ 31 - 2 ^ 32" by (simp only: minus_mod_self2)
  then have "c_int ?i = ?i - 2 ^ 32" by (simp add: c_int_def signed_take_bit_eq_take_bit_shift take_bit_eq_mod)
  then show ?thesis using l by (simp add: parse_text_def)
qed

lemma large_reply_closes:
  assumes "2 ^ 31 \<le> nc_len c + length seg" and "nc_len c + length seg < 2 ^ 32"
  shows "\<exists>c1. http_recv h seg c = Some (Inr (c1, [HRecv (length seg)])) \<and> nc_close c1"
proof -
  have no: "mg_parse_http [] False hm_empty = (0, hm_empty)" by (simp add: mg_parse_http_def mg_http_get_request_len_def)
  show ?thesis unfolding http_recv_def mg_call_def Let_def split_conv
    by (subst recv_again.simps) (use assms in \<open>simp add: parse_text_large no chunk_stage_def MG_MAX_HTTP_REQUEST_SIZE_def\<close>)
qed

section \<open>Chunks that arrive\<close>

text \<open>The buffer begins with the head \<open>H\<close> and holds \<open>X\<close> behind it.\<close>

definition holds :: "string \<Rightarrow> string \<Rightarrow> conn \<Rightarrow> bool" where
  "holds H X c \<longleftrightarrow> (\<exists>r. nc_buf c = H @ r) \<and> recv_text c = H @ X \<and> nc_len c = length (H @ X)"

definition same_conn :: "conn \<Rightarrow> conn \<Rightarrow> bool" where
  "same_conn c c1 \<longleftrightarrow> nc_rcvd c1 = nc_rcvd c \<and> nc_close c1 = nc_close c \<and> nc_ws c1 = nc_ws c \<and> nc_limit c1 = nc_limit c"

definition no_reply :: "http_ev list \<Rightarrow> bool" where
  "no_reply evs \<longleftrightarrow> (\<forall>t hm. HReply t hm \<notin> set evs) \<and> (\<forall>err. HConnect err \<notin> set evs)"

lemma no_reply_simps [simp]:
  "no_reply []" "no_reply (HRecv n # es) \<longleftrightarrow> no_reply es" "no_reply (HChunk t hm # es) \<longleftrightarrow> no_reply es"
  "no_reply (es @ es') \<longleftrightarrow> no_reply es \<and> no_reply es'"
  by (auto simp: no_reply_def)

lemma holds_take:
  assumes "holds H X c"
  shows "take (length H + length X) (nc_buf c) = H @ X" and "nc_buf c = H @ r \<Longrightarrow> take (length X) r = X"
  using assms by (auto simp: holds_def recv_text_def)

lemma after_chunks_keeps:
  fixes hm :: http_message
  assumes "keeps h" and "nc_buf c = H @ X" and "nc_len c = length (H @ X)" and "length X = length (P @ J @ R)"
  defines "hm' \<equiv> hm\<lparr>hm_body := (hm_body hm)\<lparr>ms_len := length P\<rparr>\<rparr>"
  shows "\<exists>c1 evs. after_chunks h (length H) (length X) (P @ J @ R, length (P @ J), length P, zero) c hm =
      (c1, if zero then hm'\<lparr>hm_message := (hm_message hm')\<lparr>ms_len := length P + length R + (ptr (hm_body hm') - ptr (hm_message hm'))\<rparr>\<rparr>
           else hm', evs)
    \<and> holds H (P @ R) c1 \<and> nc_body c1 = length P \<and> same_conn c c1 \<and> no_reply evs"
proof -
  have "put_at (length P + length R) (replicate (length J) NUL) (put_at (length P) R (P @ J @ R)) = P @ R @ replicate (length J) NUL"
    by (simp add: put_at_def)
  then show ?thesis using assms(1-4) unfolding after_chunks_def hm'_def
    by (simp add: Let_def) (auto simp: mg_call_def keepsD holds_def same_conn_def recv_text_def)
qed

text \<open>
  The buffer holds the head, the decoded data \<open>D\<close> and a part of the rest of the body. The
  complete chunks of the part are decoded.
\<close>

lemma handle_part:
  assumes "nc_buf c = H @ D @ take m (body_text cs z)" "nc_len c = length (nc_buf c)" "nc_body c = length D"
    and "list_all live_chunk cs" "good_chunk (z, [])" "m < length (body_text cs z)" "keeps h"
  shows "\<exists>got todo n c1 hm1 evs. mg_handle_chunked h (length H) c hm = Inr (c1, hm1, evs)
    \<and> cs = got @ todo \<and> n < length (body_text todo z) \<and> take m (body_text cs z) = chunks_text got @ take n (body_text todo z)
    \<and> holds H ((D @ chunks_data got) @ take n (body_text todo z)) c1 \<and> nc_body c1 = length (D @ chunks_data got)
    \<and> same_conn c c1 \<and> (\<exists>l. hm1 = hm\<lparr>hm_body := (hm_body hm)\<lparr>ms_len := l\<rparr>\<rparr>) \<and> no_reply evs"
proof -
  define blen where "blen = length (D @ take m (body_text cs z))"
  obtain got todo J n where s: "cs = got @ todo" "n < length (body_text todo z)"
      "take m (body_text cs z) = chunks_text got @ take n (body_text todo z)"
      "length (chunks_data got @ J) = length (chunks_text got)"
    and loop: "chunk_loop (D @ take m (body_text cs z) @ []) blen (length D) (length D) =
       ((D @ chunks_data got) @ J @ take n (body_text todo z) @ [], length (D @ chunks_text got), length (D @ chunks_data got), False)"
    using chunk_loop_part [OF assms(4-6) blen_def, of "[]"] by blast
  let ?rest = "take n (body_text todo z)"
  have bl: "nc_len c - length H = blen" "drop (length H) (nc_buf c) = D @ take m (body_text cs z) @ []"
    using assms(1,2) by (simp_all add: blen_def)
  have k: "nc_body c \<le> blen" by (simp add: assms(3) blen_def)
  have bl2: "blen = length (D @ chunks_data got) + length J + length ?rest" using s(3,4) by (simp add: blen_def)
  show ?thesis
  proof (cases "J = []")
    case True
    then have "mg_handle_chunked h (length H) c hm = Inr (c, hm, [])"
      using loop k s(4) by (simp add: mg_handle_chunked_def bl assms(3) Let_def)
    then show ?thesis using assms(1-3,6)
      by (intro exI [of _ "[]"] exI [of _ cs] exI [of _ m] exI [of _ c] exI [of _ hm])
        (auto simp: holds_def same_conn_def recv_text_def intro!: exI [of _ "ms_len (hm_body hm)"])
  next
    case False
    let ?P = "D @ chunks_data got" and ?R = "take n (body_text todo z)"
    let ?hm' = "hm\<lparr>hm_body := (hm_body hm)\<lparr>ms_len := length ?P\<rparr>\<rparr>"
    have i: "length (D @ chunks_text got) = length (?P @ J)" "length (D @ take m (body_text cs z)) = length (?P @ J @ ?R)"
      using s(3,4) by simp_all
    obtain c1 evs where r: "after_chunks h (length H) blen (?P @ J @ ?R, length (?P @ J), length ?P, False) c hm = (c1, ?hm', evs)"
      "holds H (?P @ ?R) c1 \<and> nc_body c1 = length ?P \<and> same_conn c c1 \<and> no_reply evs"
      using after_chunks_keeps [OF assms(7), of c H "D @ take m (body_text cs z)" ?P J ?R False hm] assms(1,2) i(2)
      by (auto simp: blen_def)
    have "mg_handle_chunked h (length H) c hm = Inr (c1, ?hm', evs)"
      using loop [unfolded i(1)] k False r(1) by (simp add: mg_handle_chunked_def bl assms(3))
    then show ?thesis using s(1-3) r(2) by blast
  qed
qed

text \<open>With the empty chunk the length of the message becomes known: it ends where the buffer ends.\<close>

lemma handle_whole:
  assumes "nc_buf c = H @ D @ body_text cs z" "nc_len c = length (nc_buf c)" "nc_body c = length D"
    and "list_all live_chunk cs" "good_chunk (z, [])" "keeps h" "ptr (hm_body hm) = length H" "ptr (hm_message hm) = 0"
  shows "\<exists>c1 evs. mg_handle_chunked h (length H) c hm = Inr (c1,
      hm\<lparr>hm_body := (hm_body hm)\<lparr>ms_len := length (D @ chunks_data cs)\<rparr>,
         hm_message := (hm_message hm)\<lparr>ms_len := length (D @ chunks_data cs) + length H\<rparr>\<rparr>, evs)
    \<and> holds H (D @ chunks_data cs) c1 \<and> same_conn c c1 \<and> no_reply evs"
proof -
  define blen where "blen = length (D @ body_text cs z)"
  obtain J where J: "length (chunks_data cs @ J) = length (body_text cs z)"
    and loop: "chunk_loop (D @ body_text cs z @ [] @ []) blen (length D) (length D) =
       ((D @ chunks_data cs) @ J @ [] @ [], length (D @ body_text cs z), length (D @ chunks_data cs), True)"
    using chunk_loop_whole [OF assms(4,5), of blen D "[]" "[]"] by (auto simp: blen_def)
  have bl: "nc_len c - length H = blen" "drop (length H) (nc_buf c) = D @ body_text cs z @ [] @ []"
    using assms(1,2) by (simp_all add: blen_def)
  have "length (chunks_data cs) < length (body_text cs z)"
    using chunks_data_le [of cs] by (simp add: body_text_def crlf_def)
  then have "J \<noteq> []" using J by auto
  let ?P = "D @ chunks_data cs"
  have i: "length (D @ body_text cs z) = length (?P @ J)" "length (D @ body_text cs z) = length (?P @ J @ [])"
    using J by simp_all
  obtain c1 evs where r: "after_chunks h (length H) blen (?P @ J @ [], length (?P @ J), length ?P, True) c hm =
      (c1, hm\<lparr>hm_body := (hm_body hm)\<lparr>ms_len := length ?P\<rparr>,
         hm_message := (hm_message hm)\<lparr>ms_len := length ?P + length H\<rparr>\<rparr>, evs)"
    "holds H ?P c1 \<and> nc_body c1 = length ?P \<and> same_conn c c1 \<and> no_reply evs"
    using after_chunks_keeps [OF assms(6), of c H "D @ body_text cs z" ?P J "[]" True hm] assms(1,2,7,8) i(2)
    by (auto simp: blen_def ptr_def)
  have "mg_handle_chunked h (length H) c hm = Inr (c1,
      hm\<lparr>hm_body := (hm_body hm)\<lparr>ms_len := length ?P\<rparr>,
         hm_message := (hm_message hm)\<lparr>ms_len := length ?P + length H\<rparr>\<rparr>, evs)"
    using loop [unfolded i(1)] \<open>J \<noteq> []\<close> r(1) by (simp add: mg_handle_chunked_def bl assms(3) blen_def)
  then show ?thesis using r(2) by blast
qed

section \<open>Replies\<close>

definition good_reply :: "string \<Rightarrow> nat \<Rightarrow> string \<Rightarrow> (string \<times> string) list \<Rightarrow> bool" where
  "good_reply proto code msg hs \<longleftrightarrow> proto \<noteq> [] \<and> printable proto \<and> CHR '' '' \<notin> set proto \<and> 100 \<le> code \<and> code < 600
     \<and> printable msg \<and> list_all good_header hs \<and> length hs < MG_MAX_HTTP_HEADERS"

definition header_value :: "(string \<times> string) list \<Rightarrow> string \<Rightarrow> string option" where
  "header_value hs name = map_option snd (find (\<lambda>(n, v). map c_tolower n = map c_tolower name) hs)"

definition reply_hm :: "string \<Rightarrow> nat \<Rightarrow> string \<Rightarrow> (string \<times> string) list \<Rightarrow> http_message" where
  "reply_hm proto code msg hs = snd (mg_parse_http (response_head proto code msg hs) False hm_empty)"

lemma reply_read:
  assumes "good_reply proto code msg hs"
  defines "H \<equiv> response_head proto code msg hs" and "hm \<equiv> reply_hm proto code msg hs"
  shows "mg_parse_http (H @ body) False hm0 = (int (length H), hm)"
    and "hm_resp_code hm = int code" and "ms_p (hm_body hm) = Some (length H)" and "ms_p (hm_message hm) = Some 0"
    and "ms_len (hm_message hm) = (if list_ex (is_cl \<circ> fst) hs then (length H + body_len hs size_max64) mod 2 ^ 64 else size_max64)"
    and "map_option (slice (H @ body)) (mg_get_http_header (H @ body) hm name) = header_value hs name"
proof -
  have g: "proto \<noteq> []" "printable proto" "CHR '' '' \<notin> set proto" "100 \<le> code" "code < 600" "printable msg"
    "list_all good_header hs" "length hs < MG_MAX_HTTP_HEADERS" using assms(1) by (simp_all add: good_reply_def)
  obtain len hm' where p: "mg_parse_http (H @ body) False hm0 = (len, hm')" by (cases "mg_parse_http (H @ body) False hm0")
  have "mg_parse_http (H @ body) False hm0 = mg_parse_http (H @ []) False hm_empty"
    unfolding H_def by (rule response_same [OF g])
  then have hm: "hm' = hm" using p by (simp add: hm_def reply_hm_def H_def)
  note r = response_read_at [OF g, of body hm0, folded H_def, unfolded Let_def p split_conv hm]
  show "mg_parse_http (H @ body) False hm0 = (int (length H), hm)" using p hm r by simp
  show "hm_resp_code hm = int code" "ms_p (hm_body hm) = Some (length H)" "ms_p (hm_message hm) = Some 0"
    "ms_len (hm_message hm) = (if list_ex (is_cl \<circ> fst) hs then (length H + body_len hs size_max64) mod 2 ^ 64 else size_max64)"
    "map_option (slice (H @ body)) (mg_get_http_header (H @ body) hm name) = header_value hs name"
    using r by (simp_all add: header_value_def)
qed

text \<open>What the scan for the end of the head has found stays found.\<close>

lemma request_len_more: "request_len i q \<noteq> 0 \<Longrightarrow> request_len i (q @ r) = request_len i q"
proof (induction q arbitrary: i)
  case (Cons c cs)
  note unf = request_len.simps(2) [of i c cs] request_len.simps(2) [of i c "cs @ r"]
  let ?bad = "\<not> c_isprint c \<and> c \<noteq> CR \<and> c \<noteq> LF \<and> char_code c < 128"
  have cr: "request_len (i + 1) [CR] = 0" by simp
  consider (bad) ?bad | (two) "\<not> ?bad" "c = LF" "take 1 cs = [LF]"
    | (three) "\<not> ?bad" "c = LF" "take 1 cs \<noteq> [LF]" "take 2 cs = [CR, LF]"
    | (go) "\<not> ?bad" "\<not> (c = LF \<and> take 1 cs = [LF])" "\<not> (c = LF \<and> take 2 cs = [CR, LF])" by blast
  then show ?case
  proof cases
    case two
    then have "take 1 (cs @ r) = [LF]" by (cases cs) auto
    then show ?thesis unfolding append_Cons unf using two by simp
  next
    case three
    then have "take 1 (cs @ r) \<noteq> [LF]" "take 2 (cs @ r) = [CR, LF]"
      by (cases cs rule: remdups_adj.cases; simp)+
    then show ?thesis unfolding append_Cons unf using three by simp
  next
    case go
    then have n: "request_len (i + 1) cs \<noteq> 0" using Cons.prems by (simp only: unf simp_thms if_False)
    then have "cs \<noteq> []" "cs \<noteq> [CR]" using cr by auto
    then have "take 1 (cs @ r) = take 1 cs" "take 2 (cs @ r) = [CR, LF] \<longrightarrow> take 2 cs = [CR, LF]"
      by (cases cs rule: remdups_adj.cases; auto)+
    then have "\<not> (c = LF \<and> take 1 (cs @ r) = [LF])" "\<not> (c = LF \<and> take 2 (cs @ r) = [CR, LF])" using go by auto
    then show ?thesis unfolding append_Cons unf using go Cons.IH [OF n] by (simp only: simp_thms if_False)
  qed (simp only: append_Cons unf simp_thms if_True)
qed simp

lemma request_len_bound: "0 \<le> i \<Longrightarrow> request_len i q \<le> i + int (length q)"
proof (induction q arbitrary: i)
  case (Cons c cs)
  have "1 \<le> length cs" if "take 1 cs = [LF]" using that by (cases cs) auto
  moreover have "2 \<le> length cs" if "take 2 cs = [CR, LF]" using arg_cong [OF that, of length] by simp
  ultimately show ?case using Cons.IH [of "i + 1"] Cons.prems unfolding request_len.simps(2) [of i c cs] by auto
qed simp

lemma head_incomplete:
  assumes "good_reply proto code msg hs" and "m < length (response_head proto code msg hs)"
  shows "mg_parse_http (take m (response_head proto code msg hs)) False hm0 = (0, hm0)"
proof -
  let ?H = "response_head proto code msg hs" and ?q = "take m (response_head proto code msg hs)"
  have "fst (mg_parse_http (?H @ []) False hm_empty) = int (length ?H)" using reply_read(1) [OF assms(1), of "[]"] by simp
  then have "mg_http_get_request_len ?H = int (length ?H)" by (auto simp: mg_parse_http_def Let_def split: if_splits option.splits prod.splits)
  then have "request_len 0 (?q @ drop m ?H) = int (length ?H)" by (simp add: mg_http_get_request_len_def)
  moreover have "request_len 0 ?q \<le> int (length ?q)" using request_len_bound [of 0 ?q] by simp
  ultimately have "request_len 0 ?q = 0" using request_len_more [of 0 ?q "drop m ?H"] assms(2) by auto
  then show ?thesis by (simp add: mg_parse_http_def mg_http_get_request_len_def Let_def)
qed

section \<open>Replies that arrive\<close>

text \<open>
  The body on the wire: as it is, with its length in a header, or in chunks, of which the last is
  empty. A reply that mongoose takes for a websocket handshake is left out, and so is a head
  that exceeds \<open>MG_MAX_HTTP_REQUEST_SIZE\<close>.
\<close>

datatype payload = Sized string | Chunked "chunk list" string

fun wire :: "payload \<Rightarrow> string" where
  "wire (Sized b) = b"
| "wire (Chunked cs z) = body_text cs z"

fun payload_data :: "payload \<Rightarrow> string" where
  "payload_data (Sized b) = b"
| "payload_data (Chunked cs z) = chunks_data cs"

definition chunked_head :: "(string \<times> string) list \<Rightarrow> bool" where
  "chunked_head hs = (case header_value hs ''Transfer-Encoding'' of None \<Rightarrow> False | Some v \<Rightarrow> mg_vcasecmp v ''chunked'' = 0)"

fun announced :: "(string \<times> string) list \<Rightarrow> payload \<Rightarrow> bool" where
  "announced hs (Sized b) \<longleftrightarrow> \<not> chunked_head hs \<and> list_ex (is_cl \<circ> fst) hs \<and> body_len hs size_max64 = length b"
| "announced hs (Chunked cs z) \<longleftrightarrow> chunked_head hs \<and> \<not> list_ex (is_cl \<circ> fst) hs \<and> list_all live_chunk cs \<and> good_chunk (z, [])"

definition plain_reply :: "string \<Rightarrow> nat \<Rightarrow> string \<Rightarrow> (string \<times> string) list \<Rightarrow> bool" where
  "plain_reply proto code msg hs \<longleftrightarrow> good_reply proto code msg hs \<and> header_value hs ''Sec-WebSocket-Accept'' = None
     \<and> length (response_head proto code msg hs) \<le> MG_MAX_HTTP_REQUEST_SIZE"

lemma get_header_update [simp]:
  "mg_get_http_header t (hm\<lparr>hm_body := b\<rparr>) name = mg_get_http_header t hm name"
  "mg_get_http_header t (hm\<lparr>hm_message := b\<rparr>) name = mg_get_http_header t hm name"
  by (simp_all add: mg_get_http_header_def)

lemma reply_not_ws:
  assumes "plain_reply proto code msg hs" and "t = response_head proto code msg hs @ r"
  shows "mg_get_http_header t (reply_hm proto code msg hs) ''Sec-WebSocket-Accept'' = None"
  using assms reply_read(6) [of proto code msg hs r "''Sec-WebSocket-Accept''"] by (auto simp: plain_reply_def)

lemma reply_chunked:
  assumes "plain_reply proto code msg hs" and "t = response_head proto code msg hs @ r"
  shows "is_chunked t (reply_hm proto code msg hs) = chunked_head hs"
  using assms reply_read(6) [of proto code msg hs r "''Transfer-Encoding''"]
  unfolding is_chunked_def chunked_head_def plain_reply_def by (auto split: option.splits)

text \<open>The two outcomes of a round: the handler waits, or the reply is delivered.\<close>

definition waits :: "(conn \<times> http_ev list) res option \<Rightarrow> http_ev list \<Rightarrow> conn \<Rightarrow> string \<Rightarrow> nat \<Rightarrow> bool" where
  "waits res evs c t n \<longleftrightarrow> (\<exists>c1 es. res = Some (Inr (c1, evs @ es)) \<and> no_reply es \<and> recv_text c1 = t
     \<and> nc_len c1 = length t \<and> nc_body c1 = n \<and> same_conn c c1)"

definition replies :: "(conn \<times> http_ev list) res option \<Rightarrow> http_ev list \<Rightarrow> conn \<Rightarrow> nat \<Rightarrow> string \<Rightarrow> bool" where
  "replies res evs c code body \<longleftrightarrow> (\<exists>c1 es t hm. res = Some (Inr (c1, evs @ es @ [HReply t hm])) \<and> no_reply es
     \<and> hm_resp_code hm = int code \<and> slice t (hm_body hm) = body
     \<and> nc_len c1 = 0 \<and> nc_body c1 = 0 \<and> nc_rcvd c1 = 0 \<and> nc_close c1 = nc_close c \<and> nc_ws c1 = nc_ws c \<and> nc_limit c1 = nc_limit c)"

lemma round_wait:
  assumes p: "plain_reply proto code msg hs" and c: "nc_buf c = response_head proto code msg hs @ Y" "nc_len c = length (nc_buf c)"
    and small: "nc_len c < 2 ^ 31"
    and st: "chunk_stage h (int (length (response_head proto code msg hs))) c (reply_hm proto code msg hs) = Inr (c1, hm1, evs1)"
    and hm: "\<exists>b. hm1 = (reply_hm proto code msg hs)\<lparr>hm_body := b\<rparr>" and c1: "holds (response_head proto code msg hs) X c1"
    and same: "same_conn c c1" and ev: "no_reply evs1"
    and len: "nc_rcvd c < ms_len (hm_message (reply_hm proto code msg hs))"
    and lim: "nc_limit c = 0 \<or> nc_len c1 < nc_limit c" and k: "keeps h"
  shows "waits (recv_again h c hm0 evs) evs c (response_head proto code msg hs @ X) (nc_body c1)"
proof -
  let ?H = "response_head proto code msg hs" and ?hm = "reply_hm proto code msg hs"
  have t: "parse_text c = ?H @ Y" using c parse_text_small [OF small] by (simp add: recv_text_def)
  have g: "good_reply proto code msg hs" using p by (simp add: plain_reply_def)
  have n: "0 < length ?H" by (simp add: response_head_def crlf_def)
  obtain r b where r: "nc_buf c1 = ?H @ r" "hm1 = ?hm\<lparr>hm_body := b\<rparr>" using c1 hm by (auto simp: holds_def)
  have "recv_again h c hm0 evs = Some (Inr (c1\<lparr>nc_delete := False\<rparr>,
      evs @ evs1 @ [HChunk (nc_buf c1) (hm1\<lparr>hm_body := (hm_body hm1)\<lparr>ms_len := nc_len c1 - length ?H\<rparr>\<rparr>)]))"
    by (rule again_wait [OF _ n st])
      (use reply_read(1) [OF g, of Y hm0] t r reply_not_ws [OF p r(1)] len lim same k in \<open>simp_all add: same_conn_def\<close>)
  then show ?thesis using ev c1 same unfolding waits_def
    by (intro exI [of _ "c1\<lparr>nc_delete := False\<rparr>"]
        exI [of _ "evs1 @ [HChunk (nc_buf c1) (hm1\<lparr>hm_body := (hm_body hm1)\<lparr>ms_len := nc_len c1 - length ?H\<rparr>\<rparr>)]"])
      (use holds_take(1) [OF c1] in \<open>simp add: holds_def same_conn_def recv_text_def\<close>)
qed

lemma round_reply:
  assumes p: "plain_reply proto code msg hs" and c: "nc_buf c = response_head proto code msg hs @ Y" "nc_len c = length (nc_buf c)"
    and small: "nc_len c < 2 ^ 31"
    and st: "chunk_stage h (int (length (response_head proto code msg hs))) c (reply_hm proto code msg hs) = Inr (c1, hm1, evs1)"
    and hm: "\<exists>b m. hm1 = (reply_hm proto code msg hs)\<lparr>hm_body := b, hm_message := m\<rparr> \<and> ms_p b = Some (length (response_head proto code msg hs))"
    and c1: "holds (response_head proto code msg hs) X c1"
    and same: "same_conn c c1" and ev: "no_reply evs1"
    and len: "ms_len (hm_message hm1) = nc_len c1" "nc_len c1 \<le> nc_rcvd c" and k: "keeps h"
  shows "replies (recv_again h c hm0 evs) evs c code X"
proof -
  let ?H = "response_head proto code msg hs" and ?hm = "reply_hm proto code msg hs"
  have t: "parse_text c = ?H @ Y" using c parse_text_small [OF small] by (simp add: recv_text_def)
  have g: "good_reply proto code msg hs" using p by (simp add: plain_reply_def)
  have n: "0 < length ?H" by (simp add: response_head_def crlf_def)
  obtain r b m where r: "nc_buf c1 = ?H @ r" "hm1 = ?hm\<lparr>hm_body := b, hm_message := m\<rparr>" "ms_p b = Some (length ?H)"
    using c1 hm by (auto simp: holds_def)
  let ?hm2 = "hm1\<lparr>hm_body := (hm_body hm1)\<lparr>ms_len := nc_len c1 - length ?H\<rparr>\<rparr>"
  let ?res = "\<lambda>c2. Some (Inr (c2, evs @ evs1 @ [HChunk (nc_buf c1) ?hm2, HReply (nc_buf c1) ?hm2]))"
  have "\<exists>c2. recv_again h c hm0 evs = ?res c2
    \<and> nc_len c2 = 0 \<and> nc_body c2 = 0 \<and> nc_rcvd c2 = 0 \<and> nc_close c2 = nc_close c1 \<and> nc_ws c2 = nc_ws c1 \<and> nc_limit c2 = nc_limit c1"
    by (rule again_reply [OF _ n st])
      (use reply_read(1) [OF g, of Y hm0] t r reply_not_ws [OF p r(1)] len c1 same k n in \<open>simp_all add: same_conn_def holds_def\<close>)
  then obtain c2 where c2: "recv_again h c hm0 evs = ?res c2" "nc_len c2 = 0" "nc_body c2 = 0" "nc_rcvd c2 = 0"
    "nc_close c2 = nc_close c" "nc_ws c2 = nc_ws c" "nc_limit c2 = nc_limit c" using same by (auto simp: same_conn_def)
  have len1: "nc_len c1 = length ?H + length X" using c1 by (simp add: holds_def)
  have X: "take (length X) r = X" by (rule holds_take(2) [OF c1 r(1)])
  have "slice (nc_buf c1) (hm_body ?hm2) = X" by (simp add: r slice_def len1 X)
  moreover have "hm_resp_code ?hm2 = int code" using r(2) reply_read(2) [OF g] by simp
  ultimately show ?thesis unfolding replies_def
    by (intro exI [of _ c2] exI [of _ "evs1 @ [HChunk (nc_buf c1) ?hm2]"] exI [of _ "nc_buf c1"] exI [of _ ?hm2])
      (simp add: c2 ev)
qed

section \<open>One segment\<close>

text \<open>The state of a connection that has received \<open>m\<close> characters of a reply.\<close>

fun arriving :: "string \<Rightarrow> payload \<Rightarrow> nat \<Rightarrow> conn \<Rightarrow> bool" where
  "arriving H (Sized b) m c \<longleftrightarrow> nc_rcvd c = m \<and> nc_len c = length (recv_text c) \<and> recv_text c = take m (H @ b) \<and> nc_body c = 0"
| "arriving H (Chunked cs z) m c \<longleftrightarrow> nc_rcvd c = m \<and> nc_len c = length (recv_text c) \<and>
     (if m < length H then recv_text c = take m H \<and> nc_body c = 0
      else \<exists>got todo k. cs = got @ todo \<and> k < length (body_text todo z) \<and> m = length H + length (chunks_text got) + k
        \<and> recv_text c = H @ chunks_data got @ take k (body_text todo z) \<and> nc_body c = length (chunks_data got))"

definition took :: "conn \<Rightarrow> string \<Rightarrow> conn \<Rightarrow> bool" where
  "took c seg c1 \<longleftrightarrow> nc_buf c1 = recv_text c @ seg \<and> nc_len c1 = nc_len c + length seg \<and> nc_body c1 = nc_body c
     \<and> nc_rcvd c1 = (nc_rcvd c + length seg) mod 2 ^ 64 \<and> nc_close c1 = nc_close c \<and> nc_ws c1 = nc_ws c \<and> nc_limit c1 = nc_limit c"

lemma http_recv_again: "\<exists>c1. http_recv h seg c = recv_again h c1 hm_empty [HRecv (length seg)] \<and> took c seg c1"
  unfolding http_recv_def mg_call_def took_def Let_def split_conv by (rule exI, rule conjI, rule refl, simp)

lemma round_head:
  assumes p: "plain_reply proto code msg hs" and "nc_buf c = take m (response_head proto code msg hs)" "nc_len c = m"
    and "m < length (response_head proto code msg hs)"
  shows "waits (recv_again h c hm0 evs) evs c (take m (response_head proto code msg hs)) (nc_body c)"
proof -
  have t: "recv_text c = take m (response_head proto code msg hs)" using assms(2,3) by (simp add: recv_text_def)
  have "nc_len c < MG_MAX_HTTP_REQUEST_SIZE" using p assms(3,4) by (simp add: plain_reply_def)
  moreover from this have "parse_text c = recv_text c" by (intro parse_text_small) (simp add: MG_MAX_HTTP_REQUEST_SIZE_def)
  ultimately have "recv_again h c hm0 evs = Some (Inr (c, evs))"
    by (intro again_no_head) (use head_incomplete [of proto code msg hs m] p assms(3,4) t in \<open>simp_all add: plain_reply_def\<close>)
  then show ?thesis using assms(3,4) t unfolding waits_def same_conn_def by auto
qed

lemma sized_len:
  assumes "plain_reply proto code msg hs" "announced hs (Sized b)" "length (response_head proto code msg hs @ b) < 2 ^ 31"
  shows "ms_len (hm_message (reply_hm proto code msg hs)) = length (response_head proto code msg hs @ b)"
  using assms reply_read(5) [of proto code msg hs] by (simp add: plain_reply_def)

lemma recv_sized:
  assumes p: "plain_reply proto code msg hs" and a: "announced hs (Sized b)" and k: "keeps h"
    and c: "nc_buf c = take m (response_head proto code msg hs @ b)" "nc_len c = m" "nc_rcvd c = m" "nc_body c = 0"
    and m: "m \<le> length (response_head proto code msg hs @ b)" and big: "length (response_head proto code msg hs @ b) < 2 ^ 31"
    and lim: "nc_limit c = 0 \<or> m < nc_limit c"
  shows "if m < length (response_head proto code msg hs @ b)
    then waits (recv_again h c hm0 evs) evs c (take m (response_head proto code msg hs @ b)) 0
    else replies (recv_again h c hm0 evs) evs c code b"
proof (cases "m < length (response_head proto code msg hs)")
  case True
  then show ?thesis using round_head [OF p, of c m h hm0 evs] c by simp
next
  case False
  let ?H = "response_head proto code msg hs" and ?hm = "reply_hm proto code msg hs"
  define Y where "Y = take (m - length ?H) b"
  have b: "nc_buf c = ?H @ Y" "nc_len c = length (nc_buf c)" using False c(1,2) m by (simp_all add: Y_def)
  have g: "good_reply proto code msg hs" using p by (simp add: plain_reply_def)
  have st: "chunk_stage h (int (length ?H)) c ?hm = Inr (c, ?hm, [])"
    using reply_chunked [OF p] a b by (simp add: chunk_stage_def recv_text_def)
  have hm: "ms_len (hm_message ?hm) = length (?H @ b)" by (rule sized_len [OF p a big])
  have small: "nc_len c < 2 ^ 31" using c(2) m big by simp
  have hd: "holds ?H Y c" "same_conn c c" using b by (simp_all add: holds_def recv_text_def same_conn_def)
  show ?thesis
  proof (cases "m < length (?H @ b)")
    case True
    have "waits (recv_again h c hm0 evs) evs c (?H @ Y) (nc_body c)"
      by (rule round_wait [OF p b small st _ hd(1,2)])
        (use True c k lim hm in \<open>auto intro: exI [of _ "hm_body ?hm"]\<close>)
    then show ?thesis using True b c by simp
  next
    case False
    then have "m = length (?H @ b)" "Y = b" using m by (simp_all add: Y_def)
    moreover have "\<exists>x y. ?hm = ?hm\<lparr>hm_body := x, hm_message := y\<rparr> \<and> ms_p x = Some (length ?H)"
      by (rule exI [of _ "hm_body ?hm"], rule exI [of _ "hm_message ?hm"]) (simp add: reply_read(3) [OF g])
    ultimately have "replies (recv_again h c hm0 evs) evs c code Y"
      by (intro round_reply [OF p b small st _ hd]) (use c k hm in simp_all)
    then show ?thesis using False \<open>Y = b\<close> by simp
  qed
qed

lemma chunked_len:
  assumes "plain_reply proto code msg hs" "announced hs (Chunked cs z)"
  shows "ms_len (hm_message (reply_hm proto code msg hs)) = size_max64"
  using assms reply_read(5) [of proto code msg hs] by (simp add: plain_reply_def)

lemma recv_chunked:
  assumes p: "plain_reply proto code msg hs" and a: "announced hs (Chunked (got @ todo) z)" and k: "keeps h"
    and c: "nc_buf c = response_head proto code msg hs @ chunks_data got @ take n (body_text todo z)" "nc_len c = length (nc_buf c)"
      "nc_rcvd c = length (response_head proto code msg hs) + length (chunks_text got) + n" "nc_body c = length (chunks_data got)"
    and n: "n \<le> length (body_text todo z)" and big: "nc_rcvd c < 2 ^ 31"
    and lim: "nc_limit c = 0 \<or> nc_rcvd c < nc_limit c"
  shows "if n < length (body_text todo z)
    then \<exists>got' todo' n'. got @ todo = got' @ todo' \<and> n' < length (body_text todo' z)
      \<and> nc_rcvd c = length (response_head proto code msg hs) + length (chunks_text got') + n'
      \<and> waits (recv_again h c hm0 evs) evs c (response_head proto code msg hs @ chunks_data got' @ take n' (body_text todo' z))
          (length (chunks_data got'))
    else replies (recv_again h c hm0 evs) evs c code (chunks_data (got @ todo))"
proof -
  let ?H = "response_head proto code msg hs" and ?hm = "reply_hm proto code msg hs"
  have g: "good_reply proto code msg hs" using p by (simp add: plain_reply_def)
  have l: "list_all live_chunk todo" "good_chunk (z, [])" "chunked_head hs" using a by simp_all
  have n0: "0 < length ?H" by (simp add: response_head_def crlf_def)
  have st: "chunk_stage h (int (length ?H)) c ?hm = mg_handle_chunked h (length ?H) c ?hm"
    using reply_chunked [OF p] l(3) c(1,2) n0 by (simp add: chunk_stage_def recv_text_def)
  note le = chunks_data_le
  have small: "nc_len c < 2 ^ 31" using c n big le [of got] by simp
  show ?thesis
  proof (cases "n < length (body_text todo z)")
    case True
    obtain new todo' n' c1 hm1 es where h1: "mg_handle_chunked h (length ?H) c ?hm = Inr (c1, hm1, es)"
      "todo = new @ todo'" "n' < length (body_text todo' z)" "take n (body_text todo z) = chunks_text new @ take n' (body_text todo' z)"
      "holds ?H ((chunks_data got @ chunks_data new) @ take n' (body_text todo' z)) c1" "nc_body c1 = length (chunks_data got @ chunks_data new)"
      "same_conn c c1" "\<exists>x. hm1 = ?hm\<lparr>hm_body := (hm_body ?hm)\<lparr>ms_len := x\<rparr>\<rparr>" "no_reply es"
      using handle_part [OF c(1,2,4) l(1,2) True k, of ?hm] by blast
    have nn: "n = length (chunks_text new) + n'" using arg_cong [OF h1(4), of length] True h1(3) by simp
    have "nc_len c1 = length (?H @ (chunks_data got @ chunks_data new) @ take n' (body_text todo' z))" using h1(5) by (simp add: holds_def)
    then have "nc_len c1 \<le> nc_rcvd c" using c(3) nn le [of got] le [of new] by simp
    then have "waits (recv_again h c hm0 evs) evs c (?H @ (chunks_data got @ chunks_data new) @ take n' (body_text todo' z)) (nc_body c1)"
      by (intro round_wait [OF p c(1,2) small st [unfolded h1(1)] _ h1(5,7,9) _ _ k])
        (use h1(8) big lim chunked_len [OF p a] in \<open>auto simp: size_max64_def\<close>)
    then show ?thesis using True h1(2,3,6) c(3) nn
      by (simp only: if_True) (intro exI [of _ "got @ new"] exI [of _ todo'] exI [of _ n'], simp)
  next
    case False
    then have n: "n = length (body_text todo z)" using n by simp
    let ?X = "chunks_data got @ chunks_data todo"
    have b: "nc_buf c = ?H @ chunks_data got @ body_text todo z" using c(1) n by simp
    obtain c1 es where h1: "mg_handle_chunked h (length ?H) c ?hm = Inr (c1,
        ?hm\<lparr>hm_body := (hm_body ?hm)\<lparr>ms_len := length ?X\<rparr>, hm_message := (hm_message ?hm)\<lparr>ms_len := length ?X + length ?H\<rparr>\<rparr>, es)"
      "holds ?H ?X c1" "same_conn c c1" "no_reply es"
      using handle_whole [OF b c(2,4) l(1,2) k, of ?hm] reply_read(3,4) [OF g] by (auto simp: ptr_def)
    have "nc_len c1 = length (?H @ ?X)" using h1(2) by (simp add: holds_def)
    moreover have "length ?X + length ?H \<le> nc_rcvd c"
      using c(3) n le [of got] le [of todo] by (simp add: body_text_def)
    ultimately have "replies (recv_again h c hm0 evs) evs c code ?X"
      by (intro round_reply [OF p c(1,2) small st [unfolded h1(1)] _ h1(2-4) _ _ k])
        (use reply_read(3) [OF g] in auto)
    then show ?thesis using False by simp
  qed
qed

text \<open>A segment takes the connection from one number of received characters to the next, or completes the reply.\<close>

definition step_ok :: "string \<Rightarrow> payload \<Rightarrow> nat \<Rightarrow> (conn \<times> http_ev list) res option \<Rightarrow> conn \<Rightarrow> bool" where
  "step_ok H p m res c \<longleftrightarrow> (\<exists>c1 es. res = Some (Inr (c1, es)) \<and> no_reply es \<and> arriving H p m c1
     \<and> nc_close c1 = nc_close c \<and> nc_ws c1 = nc_ws c \<and> nc_limit c1 = nc_limit c)"

lemma waits_step:
  assumes "waits res [HRecv l] c1 t n" and "took c seg c1" and "nc_rcvd c1 = m" and
    "\<And>c2. nc_rcvd c2 = m \<Longrightarrow> recv_text c2 = t \<Longrightarrow> nc_len c2 = length t \<Longrightarrow> nc_body c2 = n \<Longrightarrow> arriving H p m c2"
  shows "step_ok H p m res c"
proof -
  obtain c2 es where "res = Some (Inr (c2, [HRecv l] @ es))" "no_reply es" "recv_text c2 = t" "nc_len c2 = length t"
    "nc_body c2 = n" "same_conn c1 c2" using assms(1) by (auto simp: waits_def)
  moreover from this have "arriving H p m c2" using assms(3,4) by (simp add: same_conn_def)
  ultimately show ?thesis using assms(2) unfolding step_ok_def took_def same_conn_def by auto
qed

lemma recv_step_sized:
  assumes Sized: "pl = Sized b" and p: "plain_reply proto code msg hs" and a: "announced hs pl" and k: "keeps h"
    and c: "arriving (response_head proto code msg hs) pl m c"
    and seg: "seg = take (length seg) (drop m (response_head proto code msg hs @ wire pl))"
    and m: "m + length seg \<le> length (response_head proto code msg hs @ wire pl)"
    and big: "length (response_head proto code msg hs @ wire pl) < 2 ^ 31"
    and lim: "nc_limit c = 0 \<or> length (response_head proto code msg hs @ wire pl) < nc_limit c"
  shows "if m + length seg < length (response_head proto code msg hs @ wire pl)
    then step_ok (response_head proto code msg hs) pl (m + length seg) (http_recv h seg c) c
    else replies (http_recv h seg c) [HRecv (length seg)] c code (payload_data pl)"
proof -
  let ?H = "response_head proto code msg hs" and ?m = "m + length seg"
  obtain c1 where c1: "http_recv h seg c = recv_again h c1 hm_empty [HRecv (length seg)]" "took c seg c1"
    using http_recv_again by blast
  have r: "nc_rcvd c = m" using c by (cases pl) simp_all
  then have r1: "nc_rcvd c1 = ?m" using c1(2) m big by (simp add: took_def)
  have lim1: "nc_limit c1 = 0 \<or> ?m < nc_limit c1" using lim m c1(2) by (auto simp: took_def)
  have rep: "replies x e c1 code b \<Longrightarrow> replies x e c code b" for x e b using c1(2) by (simp add: replies_def took_def)
  have whole: "take m (?H @ b) @ seg = take ?m (?H @ b)" using seg Sized by (simp only: take_add wire.simps)
  have "nc_buf c1 = take ?m (?H @ b)" "nc_len c1 = ?m" "nc_body c1 = 0"
    using c c1(2) m whole Sized by (simp_all add: took_def)
  from recv_sized [OF p a [unfolded Sized] k this(1,2) r1 this(3) _ _ lim1, of hm_empty "[HRecv (length seg)]"] m big Sized
  have res: "if ?m < length (?H @ b) then waits (recv_again h c1 hm_empty [HRecv (length seg)]) [HRecv (length seg)] c1 (take ?m (?H @ b)) 0
    else replies (recv_again h c1 hm_empty [HRecv (length seg)]) [HRecv (length seg)] c1 code b" by simp
  show ?thesis
  proof (cases "?m < length (?H @ b)")
    case True
    then show ?thesis using res Sized waits_step [OF _ c1(2) r1, of _ _ "take ?m (?H @ b)" 0 ?H pl] unfolding c1(1) by simp
  next
    case False
    then show ?thesis using res Sized rep unfolding c1(1) by simp
  qed
qed

lemma recv_step_chunked:
  assumes Chunked: "pl = Chunked cs z" and p: "plain_reply proto code msg hs" and a: "announced hs pl" and k: "keeps h"
    and c: "arriving (response_head proto code msg hs) pl m c"
    and seg: "seg = take (length seg) (drop m (response_head proto code msg hs @ wire pl))"
    and m: "m + length seg \<le> length (response_head proto code msg hs @ wire pl)"
    and big: "length (response_head proto code msg hs @ wire pl) < 2 ^ 31"
    and lim: "nc_limit c = 0 \<or> length (response_head proto code msg hs @ wire pl) < nc_limit c"
  shows "if m + length seg < length (response_head proto code msg hs @ wire pl)
    then step_ok (response_head proto code msg hs) pl (m + length seg) (http_recv h seg c) c
    else replies (http_recv h seg c) [HRecv (length seg)] c code (payload_data pl)"
proof -
  let ?H = "response_head proto code msg hs" and ?m = "m + length seg"
  obtain c1 where c1: "http_recv h seg c = recv_again h c1 hm_empty [HRecv (length seg)]" "took c seg c1"
    using http_recv_again by blast
  have r: "nc_rcvd c = m" using c by (cases pl) simp_all
  then have r1: "nc_rcvd c1 = ?m" using c1(2) m big by (simp add: took_def)
  have lim1: "nc_limit c1 = 0 \<or> ?m < nc_limit c1" using lim m c1(2) by (auto simp: took_def)
  have rep: "replies x e c1 code b \<Longrightarrow> replies x e c code b" for x e b using c1(2) by (simp add: replies_def took_def)
  show ?thesis
  proof (cases "?m < length ?H")
    case True
    then have "take m ?H @ seg = take ?m ?H" using seg Chunked by (simp add: take_add)
    then have b: "nc_buf c1 = take ?m ?H" "nc_len c1 = ?m" "nc_body c1 = 0" using c c1(2) True Chunked by (simp_all add: took_def)
    have "step_ok ?H pl ?m (http_recv h seg c) c"
      unfolding c1(1) by (rule waits_step [OF round_head [OF p b(1,2) True] c1(2) r1]) (use True b(3) Chunked in simp_all)
    then show ?thesis using True by simp
  next
    case False
    obtain got todo n where s: "cs = got @ todo" "n \<le> length (body_text todo z)" "?m = length ?H + length (chunks_text got) + n"
      "nc_buf c1 = ?H @ chunks_data got @ take n (body_text todo z)" "nc_len c1 = length (nc_buf c1)" "nc_body c1 = length (chunks_data got)"
    proof (cases "m < length ?H")
      case True
      have "take m (?H @ body_text cs z) @ seg = take ?m (?H @ body_text cs z)" using seg Chunked by (simp only: take_add wire.simps)
      then have "take m ?H @ seg = ?H @ take (?m - length ?H) (body_text cs z)" using True False by simp
      then show ?thesis using that [of "[]" cs "?m - length ?H"] c c1(2) True False m Chunked by (simp add: took_def)
    next
      case F: False
      then obtain got todo k where g: "cs = got @ todo" "k < length (body_text todo z)" "m = length ?H + length (chunks_text got) + k"
        "recv_text c = ?H @ chunks_data got @ take k (body_text todo z)" "nc_body c = length (chunks_data got)"
        using c Chunked by auto
      have "drop m (?H @ wire pl) = drop k (body_text todo z)" using g(1,3) Chunked by (simp add: body_text_def)
      then have "take k (body_text todo z) @ seg = take (k + length seg) (body_text todo z)" using seg by (simp only: take_add)
      moreover have "k + length seg \<le> length (body_text todo z)" using m g(1,3) Chunked by (simp add: body_text_def)
      ultimately show ?thesis using that [of got todo "k + length seg"] g c c1(2) Chunked by (simp add: took_def)
    qed
    have "nc_rcvd c1 < 2 ^ 31" "nc_limit c1 = 0 \<or> nc_rcvd c1 < nc_limit c1" using r1 m big lim1 by simp_all
    note res = recv_chunked [OF p a [unfolded Chunked s(1)] k s(4,5) _ s(6,2) this, of hm_empty "[HRecv (length seg)]"]
    have total: "?m < length (?H @ wire pl) \<longleftrightarrow> n < length (body_text todo z)"
      using s(1,3) Chunked by (simp add: body_text_def)
    show ?thesis
    proof (cases "n < length (body_text todo z)")
      case True
      then obtain got' todo' n' where w: "got @ todo = got' @ todo'" "n' < length (body_text todo' z)"
        "?m = length ?H + length (chunks_text got') + n'"
        "waits (recv_again h c1 hm_empty [HRecv (length seg)]) [HRecv (length seg)] c1
           (?H @ chunks_data got' @ take n' (body_text todo' z)) (length (chunks_data got'))"
        using res r1 s(3) by auto
      have "step_ok ?H pl ?m (http_recv h seg c) c"
        unfolding c1(1) by (rule waits_step [OF w(4) c1(2) r1]) (use w(1-3) s(1) False Chunked in auto)
      then show ?thesis using True total by simp
    next
      case F: False
      then have "replies (recv_again h c1 hm_empty [HRecv (length seg)]) [HRecv (length seg)] c1 code (chunks_data (got @ todo))"
        using res r1 s(3) by simp
      then show ?thesis using F total s(1) Chunked rep unfolding c1(1) by simp
    qed
  qed
qed

lemma recv_step:
  assumes p: "plain_reply proto code msg hs" and a: "announced hs pl" and k: "keeps h"
    and c: "arriving (response_head proto code msg hs) pl m c"
    and seg: "seg = take (length seg) (drop m (response_head proto code msg hs @ wire pl))"
    and m: "m + length seg \<le> length (response_head proto code msg hs @ wire pl)"
    and big: "length (response_head proto code msg hs @ wire pl) < 2 ^ 31"
    and lim: "nc_limit c = 0 \<or> length (response_head proto code msg hs @ wire pl) < nc_limit c"
  shows "if m + length seg < length (response_head proto code msg hs @ wire pl)
    then step_ok (response_head proto code msg hs) pl (m + length seg) (http_recv h seg c) c
    else replies (http_recv h seg c) [HRecv (length seg)] c code (payload_data pl)"
  using recv_step_sized [OF _ assms] recv_step_chunked [OF _ assms] by (cases pl) blast+

section \<open>Segments\<close>

text \<open>The events of each segment.\<close>

fun http_segments :: "(http_ev \<Rightarrow> bool) \<Rightarrow> string list \<Rightarrow> conn \<Rightarrow> (conn \<times> http_ev list list) res option" where
  "http_segments h [] c = Some (Inr (c, []))"
| "http_segments h (seg # segs) c =
     (case http_recv h seg c of
        None \<Rightarrow> None
      | Some (Inl e) \<Rightarrow> Some (Inl e)
      | Some (Inr (c1, es)) \<Rightarrow>
          (case http_segments h segs c1 of
             None \<Rightarrow> None
           | Some (Inl e) \<Rightarrow> Some (Inl e)
           | Some (Inr (c2, ess)) \<Rightarrow> Some (Inr (c2, es # ess))))"

text \<open>A connection without data, as it is after connecting and after a reply.\<close>

definition idle :: "conn \<Rightarrow> bool" where
  "idle c \<longleftrightarrow> nc_len c = 0 \<and> nc_body c = 0 \<and> nc_rcvd c = 0"

definition replied :: "(conn \<times> http_ev list list) res option \<Rightarrow> conn \<Rightarrow> nat \<Rightarrow> string \<Rightarrow> bool" where
  "replied res c code body \<longleftrightarrow> (\<exists>c1 ess es t hm. res = Some (Inr (c1, ess @ [es @ [HReply t hm]]))
     \<and> (\<forall>x \<in> set ess. no_reply x) \<and> no_reply es \<and> hm_resp_code hm = int code \<and> slice t (hm_body hm) = body
     \<and> idle c1 \<and> nc_close c1 = nc_close c \<and> nc_ws c1 = nc_ws c)"

lemma segments_reply:
  assumes p: "plain_reply proto code msg hs" and a: "announced hs pl" and k: "keeps h"
    and big: "length (response_head proto code msg hs @ wire pl) < 2 ^ 31"
  shows "arriving (response_head proto code msg hs) pl m c \<Longrightarrow>
    nc_limit c = 0 \<or> length (response_head proto code msg hs @ wire pl) < nc_limit c \<Longrightarrow>
    m < length (response_head proto code msg hs @ wire pl) \<Longrightarrow> [] \<notin> set segs \<Longrightarrow>
    concat segs = drop m (response_head proto code msg hs @ wire pl) \<Longrightarrow> replied (http_segments h segs c) c code (payload_data pl)"
proof (induction segs arbitrary: m c)
  case (Cons seg segs)
  let ?H = "response_head proto code msg hs" and ?W = "response_head proto code msg hs @ wire pl"
  let ?m = "m + length seg"
  have seg: "seg = take (length seg) (drop m ?W)" using Cons.prems(5) by (metis append_eq_conv_conj concat.simps(2))
  have rest: "concat segs = drop ?m ?W" using Cons.prems(5) by (metis append_eq_conv_conj concat.simps(2) drop_drop add.commute)
  have "length seg \<le> length (drop m ?W)" using arg_cong [OF Cons.prems(5), of length] by simp
  then have m: "?m \<le> length ?W" using Cons.prems(3) by simp
  note step = recv_step [OF p a k Cons.prems(1) seg m big Cons.prems(2)]
  show ?case
  proof (cases "?m < length ?W")
    case True
    then obtain c1 es where c1: "http_recv h seg c = Some (Inr (c1, es))" "no_reply es" "arriving ?H pl ?m c1"
      "nc_close c1 = nc_close c" "nc_ws c1 = nc_ws c" "nc_limit c1 = nc_limit c" using step by (auto simp: step_ok_def)
    have "replied (http_segments h segs c1) c1 code (payload_data pl)"
      by (rule Cons.IH [OF c1(3) _ True _ rest]) (use Cons.prems(2,4) c1(6) in auto)
    then obtain c2 ess es' t hm where r: "http_segments h segs c1 = Some (Inr (c2, ess @ [es' @ [HReply t hm]]))"
      "\<forall>x \<in> set ess. no_reply x" "no_reply es'" "hm_resp_code hm = int code" "slice t (hm_body hm) = payload_data pl"
      "idle c2" "nc_close c2 = nc_close c" "nc_ws c2 = nc_ws c"
      using c1(4,5) by (auto simp: replied_def)
    then show ?thesis unfolding replied_def
      by (intro exI [of _ c2] exI [of _ "es # ess"] exI [of _ es'] exI [of _ t] exI [of _ hm]) (simp add: c1(1,2))
  next
    case False
    then have "concat segs = []" using rest by simp
    then have "segs = []" using Cons.prems(4) by (cases segs) auto
    moreover obtain c1 es t hm where "http_recv h seg c = Some (Inr (c1, HRecv (length seg) # es @ [HReply t hm]))" "no_reply es"
      "hm_resp_code hm = int code" "slice t (hm_body hm) = payload_data pl" "idle c1" "nc_close c1 = nc_close c" "nc_ws c1 = nc_ws c"
      using step False by (auto simp: replies_def idle_def)
    ultimately show ?thesis unfolding replied_def
      by (intro exI [of _ c1] exI [of _ "[]"] exI [of _ "HRecv (length seg) # es"] exI [of _ t] exI [of _ hm]) simp
  qed
qed auto

lemma arriving_start: "idle c \<Longrightarrow> arriving (response_head proto code msg hs) pl 0 c"
proof -
  assume "idle c"
  moreover have "0 < length (response_head proto code msg hs)" by (simp add: response_head_def crlf_def)
  ultimately show ?thesis by (cases pl) (simp_all add: idle_def recv_text_def)
qed


definition sample_conn :: conn where
  "sample_conn = \<lparr>nc_buf = [], nc_len = 0, nc_limit = 0, nc_delete = False, nc_close = False, nc_ws = False, nc_body = 0, nc_rcvd = 0\<rparr>"

definition sample_text :: string where
  "sample_text = response_head ''HTTP/1.1'' 200 ''OK'' [(''Transfer-Encoding'', ''chunked'')]
     @ body_text [(''5'', ''hello''), (''00a'', ''0123456789'')] ''0''"

abbreviation sample_headers :: "(string \<times> string) list" where
  "sample_headers \<equiv> [(''Transfer-Encoding'', ''chunked'')]"

abbreviation sample_payload :: payload where
  "sample_payload \<equiv> Chunked [(''5'', ''hello''), (''00a'', ''0123456789'')] ''0''"

lemma sample_code: "show_nat 200 = ''200''"
  by code_simp

lemma sample_plain: "plain_reply ''HTTP/1.1'' 200 ''OK'' sample_headers"
proof -
  have "header_value sample_headers ''Sec-WebSocket-Accept'' = None" by code_simp
  moreover have "printable ''HTTP/1.1''" "printable ''OK''" "list_all good_header sample_headers" "CHR '' '' \<notin> set ''HTTP/1.1''"
    "length sample_headers < MG_MAX_HTTP_HEADERS" by code_simp+
  ultimately show ?thesis
    by (simp add: plain_reply_def good_reply_def MG_MAX_HTTP_REQUEST_SIZE_def response_head_def sample_code crlf_def)
qed

lemma sample_announced: "announced sample_headers sample_payload"
proof -
  have "header_value sample_headers ''Transfer-Encoding'' = Some ''chunked''" by code_simp
  moreover have "good_chunk (''5'', ''hello'')" "good_chunk (''00a'', ''0123456789'')" "good_chunk (''0'', [])" by code_simp+
  moreover have "mg_vcasecmp ''chunked'' ''chunked'' = 0" "\<not> is_cl ''Transfer-Encoding''" by code_simp+
  ultimately show ?thesis by (simp add: chunked_head_def live_chunk_def del: good_chunk.simps)
qed

lemma sample_length: "length sample_text = 79"
  by (simp add: sample_text_def response_head_def sample_code body_text_def crlf_def)

lemma sample_segments:
  "concat [take 20 sample_text, take 40 (drop 20 sample_text), drop 60 sample_text] = sample_text"
  "[] \<notin> set [take 20 sample_text, take 40 (drop 20 sample_text), drop 60 sample_text]"
  using append_take_drop_id [of 40 "drop 20 sample_text"] sample_length by (auto dest: arg_cong [of _ _ length])

lemma sample_idle: "idle sample_conn" "nc_limit sample_conn = 0"
  by (simp_all add: idle_def sample_conn_def)


section \<open>Replies that are cut off\<close>

lemma take_drop_take: "s = take l (drop m (take n w)) \<Longrightarrow> m + l \<le> n \<Longrightarrow> s = take l (drop m w)"
  by (simp add: drop_take min_def)

lemma segments_wait:
  assumes p: "plain_reply proto code msg hs" and a: "announced hs pl" and k: "keeps h"
    and big: "length (response_head proto code msg hs @ wire pl) < 2 ^ 31" and n: "n < length (response_head proto code msg hs @ wire pl)"
  shows "arriving (response_head proto code msg hs) pl m c \<Longrightarrow>
    nc_limit c = 0 \<or> length (response_head proto code msg hs @ wire pl) < nc_limit c \<Longrightarrow> m \<le> n \<Longrightarrow>
    concat segs = drop m (take n (response_head proto code msg hs @ wire pl)) \<Longrightarrow>
    \<exists>c1 ess. http_segments h segs c = Some (Inr (c1, ess)) \<and> length ess = length segs \<and> (\<forall>x \<in> set ess. no_reply x)
      \<and> arriving (response_head proto code msg hs) pl n c1"
proof (induction segs arbitrary: m c)
  case Nil
  have "n \<le> m" using arg_cong [OF Nil.prems(4), of length] n by (simp del: length_append take_append)
  then show ?case using Nil by simp
next
  case (Cons seg segs)
  let ?H = "response_head proto code msg hs" and ?W = "response_head proto code msg hs @ wire pl"
  let ?m = "m + length seg"
  have "length seg \<le> length (drop m (take n ?W))" using arg_cong [OF Cons.prems(4), of length] by simp
  then have m: "?m \<le> n" using Cons.prems(3) n by simp
  have s: "seg = take (length seg) (drop m (take n ?W))" using Cons.prems(4) by (metis append_eq_conv_conj concat.simps(2))
  then have seg: "seg = take (length seg) (drop m ?W)" using m by (rule take_drop_take)
  have rest: "concat segs = drop ?m (take n ?W)" using Cons.prems(4) by (metis append_eq_conv_conj concat.simps(2) drop_drop add.commute)
  have m2: "?m \<le> length ?W" "?m < length ?W" using m n by linarith+
  then obtain c1 es where c1: "http_recv h seg c = Some (Inr (c1, es))" "no_reply es" "arriving ?H pl ?m c1"
    "nc_limit c1 = nc_limit c"
    using recv_step [OF p a k Cons.prems(1) seg m2(1) big Cons.prems(2)] by (auto simp: step_ok_def)
  have "\<exists>c2 ess. http_segments h segs c1 = Some (Inr (c2, ess)) \<and> length ess = length segs \<and> (\<forall>x \<in> set ess. no_reply x) \<and> arriving ?H pl n c2"
    by (rule Cons.IH [OF c1(3) _ m rest]) (use Cons.prems(2) c1(4) in simp)
  then show ?case using c1(1,2) by auto
qed

text \<open>When the server closes, the part of a sized body that has come is delivered as the reply.\<close>

lemma close_delivers_part:
  assumes p: "plain_reply proto code msg hs" and c: "arriving (response_head proto code msg hs) (Sized b) m c"
    and m: "length (response_head proto code msg hs) \<le> m" "m \<le> length (response_head proto code msg hs @ b)" and k: "keeps h"
    and small: "m < 2 ^ 31"
  shows "\<exists>c1 es t hm. http_close h c = (c1, es @ [HReply t hm, HClose]) \<and> no_reply es \<and> hm_resp_code hm = int code
    \<and> slice t (hm_body hm) = take (m - length (response_head proto code msg hs)) b"
proof -
  let ?H = "response_head proto code msg hs" and ?hm = "reply_hm proto code msg hs"
  have g: "good_reply proto code msg hs" using p by (simp add: plain_reply_def)
  have n0: "0 < length ?H" by (simp add: response_head_def crlf_def)
  have m0: "0 < m" using n0 m(1) by linarith
  have t: "recv_text c = ?H @ take (m - length ?H) b" and l: "nc_len c = m" using c m by simp_all
  then have t2: "parse_text c = ?H @ take (m - length ?H) b" using parse_text_small small by simp
  have "take (nc_len c) (nc_buf c) = ?H @ take (m - length ?H) b" using t by (simp add: recv_text_def)
  then have body: "take (m - length ?H) (drop (length ?H) (nc_buf c)) = take (m - length ?H) b"
    using m l by (metis append_eq_conv_conj drop_take)
  let ?hm1 = "?hm\<lparr>hm_message := (hm_message ?hm)\<lparr>ms_len := m\<rparr>, hm_body := (hm_body ?hm)\<lparr>ms_len := m - length ?H\<rparr>\<rparr>"
  have "\<exists>c1. http_close h c = (c1, [HChunk (nc_buf c) ?hm1] @ [HReply (nc_buf c) ?hm1, HClose])"
    using reply_read(1,3) [OF g] t2 l deliver_keeps [OF k]
    by (simp add: http_close_def mg_call_def ptr_def Let_def m0 n0 [simplified])
  then obtain c1 where "http_close h c = (c1, [HChunk (nc_buf c) ?hm1] @ [HReply (nc_buf c) ?hm1, HClose])" by blast
  moreover have "slice (nc_buf c) (hm_body ?hm1) = take (m - length ?H) b"
    using body reply_read(3) [OF g] by (simp add: slice_def)
  moreover have "hm_resp_code ?hm1 = int code" using reply_read(2) [OF g] by simp
  ultimately show ?thesis
    by (intro exI [of _ c1] exI [of _ "[HChunk (nc_buf c) ?hm1]"] exI [of _ "nc_buf c"] exI [of _ ?hm1]) simp
qed

end
