(* ===== verification/MgPost.thy ===== *)
theory MgPost
  imports MgConn
begin

text \<open>
  \<open>http_post\<close> on the HTTP connection of mongoose: what the polls deliver to \<open>ev_handler\<close> is what
  \<open>mg_http_handler\<close> makes of the bytes of the server, in the segments in which they arrive.
\<close>

section \<open>The network below a post\<close>

text \<open>
  What \<open>ev_handler\<close> sees of an event of the connection. It never sets \<open>MG_F_DELETE_CHUNK\<close>.
\<close>

fun user_ev :: "http_ev \<Rightarrow> ev" where
  "user_ev (HReply t hm) = EvReply (hm_resp_code hm) (map (\<lambda>c. of_nat (char_code c)) (slice t (hm_body hm)))"
| "user_ev HClose = EvClose"
| "user_ev (HConnect err) = EvConnect err"
| "user_ev _ = EvOther"

definition crest_deletes :: "http_ev \<Rightarrow> bool" where
  "crest_deletes e = False"

text \<open>
  The polls: the connection is made, then every segment arrives in a poll of its own, and, when
  the server closes the connection, so does the end of it.
\<close>

definition network :: "string list \<Rightarrow> bool \<Rightarrow> conn \<Rightarrow> nat \<Rightarrow> ev list" where
  "network segs closed c n =
     (case http_segments crest_deletes segs c of
        Some (Inr (c1, ess)) \<Rightarrow>
          (let polls = [EvConnect 0] # map (map user_ev) ess @ (if closed then [map user_ev (snd (http_close crest_deletes c1))] else [])
           in if n < length polls then polls ! n else [])
      | _ \<Rightarrow> [])"

lemma keeps_crest: "keeps crest_deletes"
  by (simp add: keeps_def crest_deletes_def)

lemma no_reply_idle: "no_reply es \<Longrightarrow> list_all idle_event (map user_ev es)"
proof (induction es)
  case (Cons e es)
  then show ?case by (cases e) (auto simp: no_reply_def)
qed simp

definition bytes_of :: "string \<Rightarrow> u8 list" where
  "bytes_of s = map (\<lambda>c. of_nat (char_code c)) s"

text \<open>What a post returns when a reply has come.\<close>

definition posted :: "world \<Rightarrow> string \<Rightarrow> string \<Rightarrow> string \<Rightarrow> u8 list \<Rightarrow> nat \<Rightarrow> string \<Rightarrow> (world \<times> u8 list option \<times> int) res option" where
  "posted w url api trx buf code body =
    Some (Inr (w\<lparr>w_posts := w_posts w @ [(sn_store 256 (url @ api), trx)], w_user_set := True\<rparr>,
               Some (take (length buf) (bytes_of body) @ drop (length body) (buf[0 := 0])),
               if code = 200 then 0 else int code))"

lemma post_with_reply:
  assumes "h_wan_url h = Some url" and "buf \<noteq> []" and "length buf < 2 ^ 31" and "code \<noteq> 0"
    and "\<And>k. k < length ess \<Longrightarrow> list_all idle_event (w_net w (length (w_posts w)) (Suc k))"
    and "w_net w (length (w_posts w)) 0 = [EvConnect 0]"
    and "w_net w (length (w_posts w)) (Suc (length ess)) = map user_ev (es @ HReply t hm # post)"
    and "no_reply es" and "list_all idle_event (map user_ev post)" and "hm_resp_code hm = int code" and "slice t (hm_body hm) = body"
  shows "http_post w h api trx (Some buf) (int (length buf)) = posted w url api trx buf code body"
proof -
  have "list_all idle_event (w_net w (length (w_posts w)) k)" if "k < Suc (length ess)" for k
    using that assms(5,6) by (cases k) simp_all
  then have "http_post w h api trx (Some buf) (int (length buf)) =
    Some (Inr (w\<lparr>w_posts := w_posts w @ [(sn_store 256 (url @ api), trx)], w_user_set := True\<rparr>,
               Some (take (length buf) (bytes_of body) @ drop (length (bytes_of body)) (buf[0 := 0])),
               if int code = 200 then 0 else int code))"
    by (intro http_post_reply_aux [where m = "Suc (length ess)" and pre = "map user_ev es" and post = "map user_ev post"])
      (use assms no_reply_idle [OF assms(8)] in \<open>simp_all add: bytes_of_def\<close>)
  then show ?thesis by (simp add: posted_def bytes_of_def)
qed

section \<open>Properties\<close>

text \<open>
  From the bytes of the server to the caller: when the connection is made and the server
  sends a reply of less than 2^31 characters, cut into segments in any way and with a sized or a chunked body, \<open>http_post\<close>
  returns 0 for the code 200 and the code otherwise, and the receive buffer of the caller
  starts with as much of the body as fits.
\<close>

theorem post_receives_body:
  assumes "h_wan_url h = Some url" and "buf \<noteq> []" and "length buf < 2 ^ 31"
    and "plain_reply proto code msg hs" and "announced hs pl"
    and "length (response_head proto code msg hs @ wire pl) < 2 ^ 31"
    and "idle c" and "nc_limit c = 0 \<or> length (response_head proto code msg hs @ wire pl) < nc_limit c"
    and "concat segs = response_head proto code msg hs @ wire pl" and "[] \<notin> set segs"
    and "w_net w (length (w_posts w)) = network segs False c"
  shows "http_post w h api trx (Some buf) (int (length buf)) = posted w url api trx buf code (payload_data pl)"
proof -
  have "replied (http_segments crest_deletes segs c) c code (payload_data pl)"
    by (rule segments_reply [OF assms(4,5) keeps_crest assms(6) arriving_start [OF assms(7)] assms(8)])
      (use assms(9,10) in \<open>simp_all add: response_head_def crlf_def\<close>)
  then obtain c1 ess es t hm where r: "http_segments crest_deletes segs c = Some (Inr (c1, ess @ [es @ [HReply t hm]]))"
    "\<forall>x \<in> set ess. no_reply x" "no_reply es" "hm_resp_code hm = int code" "slice t (hm_body hm) = payload_data pl"
    by (auto simp: replied_def)
  have code: "code \<noteq> 0" using assms(4) by (simp add: plain_reply_def good_reply_def)
  show ?thesis
    by (rule post_with_reply [OF assms(1-3) code _ _ _ r(3) _ r(4,5), of ess w "[]"])
      (use r(2) no_reply_idle in \<open>auto simp: assms(11) network_def r(1) nth_append\<close>)
qed

theorem post_receives_body_witness:
  "http_post (ex_world (network [take 20 sample_text, take 40 (drop 20 sample_text), drop 60 sample_text] False sample_conn))
     ex_handle ''/x'' ''{}'' (Some (replicate 20 7)) 20
   = posted (ex_world (network [take 20 sample_text, take 40 (drop 20 sample_text), drop 60 sample_text] False sample_conn))
     ''localhost:8081'' ''/x'' ''{}'' (replicate 20 7) 200 ''hello0123456789''"
proof -
  let ?segs = "[take 20 sample_text, take 40 (drop 20 sample_text), drop 60 sample_text]"
  have "http_post (ex_world (network ?segs False sample_conn)) ex_handle ''/x'' ''{}'' (Some (replicate 20 7)) (int (length (replicate 20 (7 :: u8))))
   = posted (ex_world (network ?segs False sample_conn)) ''localhost:8081'' ''/x'' ''{}'' (replicate 20 7) 200 (payload_data sample_payload)"
    by (rule post_receives_body [OF _ _ _ sample_plain sample_announced _ sample_idle(1)])
      (use sample_length sample_segments sample_idle in \<open>simp_all add: sample_text_def ex_handle_def ex_world_def del: concat.simps\<close>)
  then show ?thesis by simp
qed

text \<open>
  C11. A reply that the server cuts off is taken for a complete one: when the connection is closed
  while a part of the announced body is still missing, of a reply with less than 2^31 characters
  and a sized body, mongoose delivers the part as the reply,
  and \<open>http_post\<close> returns 0 for the code 200 with the part in the buffer.
\<close>

theorem cut_reply_accepted:
  assumes "h_wan_url h = Some url" and "buf \<noteq> []" and "length buf < 2 ^ 31"
    and "plain_reply proto code msg hs" and "announced hs (Sized body)"
    and "length (response_head proto code msg hs @ body) < 2 ^ 31"
    and "idle c" and "nc_limit c = 0 \<or> length (response_head proto code msg hs @ body) < nc_limit c"
    and "n < length body" and "concat segs = response_head proto code msg hs @ take n body"
    and "w_net w (length (w_posts w)) = network segs True c"
  shows "http_post w h api trx (Some buf) (int (length buf)) = posted w url api trx buf code (take n body)"
proof -
  let ?H = "response_head proto code msg hs"
  have "\<exists>c1 ess. http_segments crest_deletes segs c = Some (Inr (c1, ess)) \<and> length ess = length segs
      \<and> (\<forall>x \<in> set ess. no_reply x) \<and> arriving ?H (Sized body) (length ?H + n) c1"
    by (rule segments_wait [OF assms(4,5) keeps_crest _ _ arriving_start [OF assms(7)]]) (use assms(6,8-10) in simp_all)
  then obtain c1 ess where s: "http_segments crest_deletes segs c = Some (Inr (c1, ess))" "\<forall>x \<in> set ess. no_reply x"
    "arriving ?H (Sized body) (length ?H + n) c1" by blast
  obtain c2 es t hm where r: "http_close crest_deletes c1 = (c2, es @ [HReply t hm, HClose])" "no_reply es"
    "hm_resp_code hm = int code" "slice t (hm_body hm) = take n body"
    using close_delivers_part [OF assms(4) s(3) _ _ keeps_crest] assms(6,9) by auto
  have code: "code \<noteq> 0" using assms(4) by (simp add: plain_reply_def good_reply_def)
  show ?thesis
    by (rule post_with_reply [OF assms(1-3) code _ _ _ r(2) _ r(3,4), of ess w "[HClose]"])
      (use s(2) no_reply_idle in \<open>auto simp: assms(11) network_def s(1) r(1) nth_append\<close>)
qed

lemma sized_sample: "plain_reply ''HTTP/1.1'' 200 ''OK'' [(''Content-Length'', ''5'')]" "announced [(''Content-Length'', ''5'')] (Sized ''hello'')"
proof -
  let ?hs = "[(''Content-Length'', ''5'')]"
  have "header_value ?hs ''Sec-WebSocket-Accept'' = None" "header_value ?hs ''Transfer-Encoding'' = None" by code_simp+
  moreover have "printable ''HTTP/1.1''" "printable ''OK''" "list_all good_header ?hs" "CHR '' '' \<notin> set ''HTTP/1.1''"
    "length ?hs < MG_MAX_HTTP_HEADERS" by code_simp+
  moreover have "is_cl ''Content-Length''" "unat (c_atoll ''5'') = 5" by code_simp+
  ultimately show "plain_reply ''HTTP/1.1'' 200 ''OK'' ?hs" "announced ?hs (Sized ''hello'')"
    by (simp_all add: plain_reply_def good_reply_def MG_MAX_HTTP_REQUEST_SIZE_def response_head_def sample_code crlf_def chunked_head_def)
qed

theorem cut_reply_accepted_witness:
  "let segs = [response_head ''HTTP/1.1'' 200 ''OK'' [(''Content-Length'', ''5'')] @ ''he'']
   in http_post (ex_world (network segs True sample_conn)) ex_handle ''/x'' ''{}'' (Some [9, 9, 9]) 3
     = posted (ex_world (network segs True sample_conn)) ''localhost:8081'' ''/x'' ''{}'' [9, 9, 9] 200 ''he''"
proof -
  let ?segs = "[response_head ''HTTP/1.1'' 200 ''OK'' [(''Content-Length'', ''5'')] @ ''he'']"
  have "http_post (ex_world (network ?segs True sample_conn)) ex_handle ''/x'' ''{}'' (Some [9, 9, 9]) (int (length [9 :: u8, 9, 9]))
     = posted (ex_world (network ?segs True sample_conn)) ''localhost:8081'' ''/x'' ''{}'' [9, 9, 9] 200 (take 2 ''hello'')"
    by (rule cut_reply_accepted [OF _ _ _ sized_sample _ sample_idle(1)])
      (use sample_idle in \<open>simp_all add: response_head_def sample_code crlf_def ex_handle_def ex_world_def\<close>)
  then show ?thesis by simp
qed

end
