(* ===== verification/MgIo.thy ===== *)
theory MgIo
  imports MgPost "HOL-Library.Sublist"
begin

text \<open>
  The network core of mongoose for the TCP connections of a client: what one call of
  \<open>mg_mgr_poll\<close> on the socket interface does to the connections of the manager. The calls of
  the system are parameters: what \<open>select\<close> reports for a socket, and what \<open>recv\<close>, \<open>send\<close> and
  \<open>getsockopt\<close> return during the poll. The protocol handler is a parameter as in the code,
  where it is a function pointer; \<open>http_proto\<close> is the one of a HTTP client.

  The receive buffer is the one of \<open>MgConn\<close>, for which there is memory; the send buffer is an
  \<open>mbuf\<close>. Descriptors are below \<open>FD_SETSIZE\<close>, and no timer is set on these connections. The
  branches for listening and UDP connections and for TLS are left out.
\<close>

section \<open>Connections and the system\<close>

text \<open>A result of a system call; \<open>SysAgain\<close> is an error for which \<open>mg_is_error\<close> is false.\<close>

datatype 'a sys = SysOk 'a | SysAgain | SysErr int

text \<open>
  \<open>io_sock\<close> is the descriptor, \<open>io_sa\<close> the address, \<open>io_connecting\<close>, \<open>io_resolving\<close> and \<open>io_finish\<close> are the flags
  \<open>MG_F_CONNECTING\<close>, \<open>MG_F_RESOLVING\<close> and \<open>MG_F_SEND_AND_CLOSE\<close>; \<open>MG_F_CLOSE_IMMEDIATELY\<close> is
  \<open>nc_close\<close>. \<open>io_taken\<close> is what the socket has accepted so far, which the code does not record.
\<close>

record io =
  io_conn :: conn
  io_sock :: "nat option"
  io_sa :: "u32 \<times> u16"
  io_err :: int
  io_connecting :: bool
  io_resolving :: bool
  io_finish :: bool
  io_send :: mbuf
  io_taken :: "u8 list"

text \<open>What the system does with a socket during one poll.\<close>

record sock_poll =
  sp_read :: bool
  sp_write :: bool
  sp_except :: bool
  sp_recv :: "nat \<Rightarrow> string sys"
  sp_send :: "u8 list \<Rightarrow> nat sys"
  sp_soerr :: "int sys"

text \<open>The events of the protocol handler; received data comes with its event.\<close>

datatype proto_ev = PConnect int | PRecv string | PSend int | PPoll | PClose

type_synonym proto = "proto_ev \<Rightarrow> conn \<Rightarrow> (conn \<times> http_ev list) res option"

type_synonym io_result = "(io option \<times> http_ev list) res option"

text \<open>The next step on a connection that is still there, with the events of both.\<close>

definition then_io :: "io_result \<Rightarrow> (io \<Rightarrow> io_result) \<Rightarrow> io_result" where
  "then_io r f =
     (case r of
        Some (Inr (Some s, es)) \<Rightarrow>
          (case f s of Some (Inr (s', es')) \<Rightarrow> Some (Inr (s', es @ es')) | Some (Inl e) \<Rightarrow> Some (Inl e) | None \<Rightarrow> None)
      | _ \<Rightarrow> r)"

definition same_io :: "io \<Rightarrow> io_result" where
  "same_io s = Some (Inr (Some s, []))"

section \<open>Callbacks of the network interface\<close>

text \<open>
  \<open>mg_call\<close> of the protocol handler. \<open>fin\<close> says for which events the user handler sets
  \<open>MG_F_SEND_AND_CLOSE\<close>.
\<close>

definition call_proto :: "proto \<Rightarrow> (http_ev \<Rightarrow> bool) \<Rightarrow> proto_ev \<Rightarrow> io \<Rightarrow> io_result" where
  "call_proto ph fin e s =
     (case ph e (io_conn s) of
        None \<Rightarrow> None
      | Some (Inl f) \<Rightarrow> Some (Inl f)
      | Some (Inr (c, es)) \<Rightarrow> Some (Inr (Some (s\<lparr>io_conn := c, io_finish := io_finish s \<or> list_ex fin es\<rparr>), es)))"

definition close_now :: "io \<Rightarrow> io" where
  "close_now s = s\<lparr>io_conn := (io_conn s)\<lparr>nc_close := True\<rparr>\<rparr>"

text \<open>The connection is taken out of the list, its socket is closed, and it is freed after the event.\<close>

definition mg_close_conn :: "proto \<Rightarrow> (http_ev \<Rightarrow> bool) \<Rightarrow> io \<Rightarrow> io_result" where
  "mg_close_conn ph fin s =
     (case call_proto ph fin PClose ((close_now s)\<lparr>io_sock := None\<rparr>) of
        Some (Inr (_, es)) \<Rightarrow> Some (Inr (None, es))
      | r \<Rightarrow> r)"

definition mg_if_poll :: "proto \<Rightarrow> (http_ev \<Rightarrow> bool) \<Rightarrow> io \<Rightarrow> io_result" where
  "mg_if_poll ph fin s =
     (if nc_close (io_conn s) \<or> (mb_len (io_send s) = 0 \<and> io_finish s) then mg_close_conn ph fin s
      else call_proto ph fin PPoll s)"

definition mg_if_connect_cb :: "proto \<Rightarrow> (http_ev \<Rightarrow> bool) \<Rightarrow> int \<Rightarrow> io \<Rightarrow> io_result" where
  "mg_if_connect_cb ph fin err s =
     (let s1 = s\<lparr>io_connecting := False\<rparr>
      in call_proto ph fin (PConnect err) (if err \<noteq> 0 then close_now s1 else s1))"

definition MG_TCP_IO_SIZE :: nat where "MG_TCP_IO_SIZE = 1460"

definition recv_avail_size :: "conn \<Rightarrow> nat \<Rightarrow> nat" where
  "recv_avail_size c n = (if nc_limit c < nc_len c then 0 else min (nc_limit c - nc_len c) n)"

definition trim_recv :: "io \<Rightarrow> io" where
  "trim_recv s = s\<lparr>io_conn := (io_conn s)\<lparr>nc_buf := recv_text (io_conn s)\<rparr>\<rparr>"

text \<open>\<open>mg_recv_tcp\<close> with \<open>mg_socket_if_tcp_recv\<close>: at the end of the stream the connection is to finish.\<close>

definition mg_recv_tcp :: "proto \<Rightarrow> (http_ev \<Rightarrow> bool) \<Rightarrow> string sys \<Rightarrow> io \<Rightarrow> io_result" where
  "mg_recv_tcp ph fin r s =
     then_io
       (case r of
          SysOk seg \<Rightarrow> if seg = [] then same_io (s\<lparr>io_finish := True\<rparr>) else call_proto ph fin (PRecv seg) s
        | SysAgain \<Rightarrow> same_io s
        | SysErr _ \<Rightarrow> same_io (close_now s))
       (\<lambda>s. same_io (trim_recv s))"

text \<open>The buffer is trimmed after every receive, so that there is room for just the size asked for.\<close>

definition mg_do_recv :: "proto \<Rightarrow> (http_ev \<Rightarrow> bool) \<Rightarrow> sock_poll \<Rightarrow> io \<Rightarrow> io_result" where
  "mg_do_recv ph fin sp s =
     (if nc_close (io_conn s) \<or> io_connecting s then same_io s
      else let len = recv_avail_size (io_conn s) MG_TCP_IO_SIZE
           in if len = 0 then same_io s else mg_recv_tcp ph fin (sp_recv sp len) s)"

text \<open>\<open>mg_if_can_send_cb\<close> with \<open>mg_socket_if_tcp_send\<close>; after an error the event is sent as well.\<close>

definition mg_if_can_send_cb :: "reallocator \<Rightarrow> proto \<Rightarrow> (http_ev \<Rightarrow> bool) \<Rightarrow> sock_poll \<Rightarrow> io \<Rightarrow> io_result" where
  "mg_if_can_send_cb ra ph fin sp s =
     (let buf = take MG_TCP_IO_SIZE (mbuf_data (io_send s)) in
      if nc_close (io_conn s) \<or> io_connecting s \<or> buf = [] then same_io s
      else
        (case sp_send sp buf of
           SysErr _ \<Rightarrow> call_proto ph fin (PSend (- 1)) (close_now s)
         | SysAgain \<Rightarrow> same_io s
         | SysOk n \<Rightarrow>
             if n = 0 then same_io s
             else call_proto ph fin (PSend (int n))
               (s\<lparr>io_send := mbuf_trim ra (mbuf_remove (io_send s) n), io_taken := io_taken s @ take n buf\<rparr>)))"

section \<open>Polling\<close>

text \<open>
  The sets that \<open>select\<close> is called with, and the flags \<open>_MG_F_FD_CAN_READ\<close>, \<open>_MG_F_FD_CAN_WRITE\<close>
  and \<open>_MG_F_FD_ERROR\<close> that come out of it.
\<close>

definition wants_read :: "io \<Rightarrow> bool" where
  "wants_read s \<longleftrightarrow> nc_len (io_conn s) < nc_limit (io_conn s)"

definition wants_write :: "io \<Rightarrow> bool" where
  "wants_write s \<longleftrightarrow> io_connecting s \<or> mb_len (io_send s) > 0"

definition fd_flags :: "sock_poll \<Rightarrow> io \<Rightarrow> bool \<times> bool \<times> bool" where
  "fd_flags sp s =
     (if io_sock s = None then (False, False, False)
      else (wants_read s \<and> sp_read sp, wants_write s \<and> sp_write sp, wants_write s \<and> sp_except sp))"

text \<open>The pending error of the socket; \<open>EAGAIN\<close> counts as none.\<close>

definition so_error :: "int sys \<Rightarrow> int" where
  "so_error r = (case r of SysErr _ \<Rightarrow> 1 | SysAgain \<Rightarrow> 0 | SysOk e \<Rightarrow> e)"

definition connect_stage :: "proto \<Rightarrow> (http_ev \<Rightarrow> bool) \<Rightarrow> sock_poll \<Rightarrow> bool \<Rightarrow> io \<Rightarrow> io_result" where
  "connect_stage ph fin sp any s =
     (if io_connecting s then
        (if any then mg_if_connect_cb ph fin (so_error (sp_soerr sp)) s
         else if io_err s \<noteq> 0 then mg_if_connect_cb ph fin (io_err s) s
         else same_io s)
      else same_io s)"

definition mg_mgr_handle_conn ::
  "reallocator \<Rightarrow> proto \<Rightarrow> (http_ev \<Rightarrow> bool) \<Rightarrow> sock_poll \<Rightarrow> bool \<times> bool \<times> bool \<Rightarrow> io \<Rightarrow> io_result" where
  "mg_mgr_handle_conn ra ph fin sp flags s =
     (let (can_read, can_write, err) = flags in
      then_io (mg_if_poll ph fin s) (\<lambda>s.
      then_io (connect_stage ph fin sp (can_read \<or> can_write \<or> err) s) (\<lambda>s.
      then_io (if can_read then mg_do_recv ph fin sp s else same_io s) (\<lambda>s.
      if can_write then mg_if_can_send_cb ra ph fin sp s else same_io s))))"

text \<open>
  \<open>mg_socket_if_poll\<close>: the connections of the manager in the order of its list; \<open>sps\<close> gives the
  state of each socket.
\<close>

definition sock_of :: "(nat \<Rightarrow> sock_poll) \<Rightarrow> io \<Rightarrow> sock_poll" where
  "sock_of sps s = sps (case io_sock s of None \<Rightarrow> 0 | Some fd \<Rightarrow> fd)"

fun mg_socket_if_poll ::
  "reallocator \<Rightarrow> proto \<Rightarrow> (http_ev \<Rightarrow> bool) \<Rightarrow> (nat \<Rightarrow> sock_poll) \<Rightarrow> io list \<Rightarrow> (io list \<times> http_ev list) res option" where
  "mg_socket_if_poll ra ph fin sps [] = Some (Inr ([], []))"
| "mg_socket_if_poll ra ph fin sps (s # ss) =
     (case mg_mgr_handle_conn ra ph fin (sock_of sps s) (fd_flags (sock_of sps s) s) s of
        None \<Rightarrow> None
      | Some (Inl e) \<Rightarrow> Some (Inl e)
      | Some (Inr (so, es)) \<Rightarrow>
          (case mg_socket_if_poll ra ph fin sps ss of
             None \<Rightarrow> None
           | Some (Inl e) \<Rightarrow> Some (Inl e)
           | Some (Inr (ss', es')) \<Rightarrow> Some (Inr ((case so of None \<Rightarrow> ss' | Some s' \<Rightarrow> s' # ss'), es @ es'))))"

text \<open>Polls one after the other: the connections at the end, and the events of each poll.\<close>

fun mgr_polls ::
  "reallocator \<Rightarrow> proto \<Rightarrow> (http_ev \<Rightarrow> bool) \<Rightarrow> (nat \<Rightarrow> sock_poll) list \<Rightarrow> io list \<Rightarrow> (io list \<times> http_ev list list) res option" where
  "mgr_polls ra ph fin [] ss = Some (Inr (ss, []))"
| "mgr_polls ra ph fin (sps # rest) ss =
     (case mg_socket_if_poll ra ph fin sps ss of
        None \<Rightarrow> None
      | Some (Inl e) \<Rightarrow> Some (Inl e)
      | Some (Inr (ss', es)) \<Rightarrow>
          (case mgr_polls ra ph fin rest ss' of
             None \<Rightarrow> None
           | Some (Inl e) \<Rightarrow> Some (Inl e)
           | Some (Inr (ss'', ess)) \<Rightarrow> Some (Inr (ss'', es # ess))))"

text \<open>
  \<open>mg_http_handler\<close> as the protocol handler. \<open>ws\<close> is \<open>mg_ws_handler\<close>, which takes over when the
  server answers as a websocket.
\<close>

fun http_proto :: "proto \<Rightarrow> (http_ev \<Rightarrow> bool) \<Rightarrow> proto" where
  "http_proto ws h e c =
     (if nc_ws c then ws e c
      else (case e of
              PConnect err \<Rightarrow> Some (Inr (mg_call h (HConnect err) c))
            | PRecv seg \<Rightarrow> http_recv h seg c
            | PSend n \<Rightarrow> Some (Inr (mg_call h (HSend n) c))
            | PPoll \<Rightarrow> Some (Inr (mg_call h HPoll c))
            | PClose \<Rightarrow> Some (Inr (http_close h c))))"


section \<open>Sending\<close>

text \<open>What the socket has taken and what is still in the buffer: the bytes handed to \<open>mg_send\<close>.\<close>

definition stream :: "io \<Rightarrow> u8 list" where
  "stream s = io_taken s @ mbuf_data (io_send s)"

text \<open>What the manual says of \<open>recv\<close> and \<open>send\<close>: they do not transfer more than was asked for.\<close>

definition honest :: "sock_poll \<Rightarrow> bool" where
  "honest sp \<longleftrightarrow> (\<forall>n seg. sp_recv sp n = SysOk seg \<longrightarrow> length seg \<le> n) \<and> (\<forall>buf n. sp_send sp buf = SysOk n \<longrightarrow> n \<le> length buf)"

lemma then_io_simps [simp]:
  "then_io None f = None" "then_io (Some (Inl e)) f = Some (Inl e)" "then_io (Some (Inr (None, es))) f = Some (Inr (None, es))"
  by (simp_all add: then_io_def)

lemma then_io_same [simp]: "then_io (same_io s) f = f s"
  by (simp add: then_io_def same_io_def split: option.splits sum.splits prod.splits)

lemma then_io_Some:
  "f s = Some (Inr (s', es')) \<Longrightarrow> then_io (Some (Inr (Some s, es))) f = Some (Inr (s', es @ es'))"
  by (simp add: then_io_def)

lemma then_io_eq:
  assumes "then_io r f = Some (Inr (Some s', es'))"
  obtains s es1 es2 where "r = Some (Inr (Some s, es1))" "f s = Some (Inr (Some s', es2))" "es' = es1 @ es2"
  using assms by (auto simp: then_io_def split: option.splits sum.splits prod.splits)

lemma trim_data: "ra_ok ra \<Longrightarrow> mbuf_ok a \<Longrightarrow> mbuf_ok (mbuf_trim ra a) \<and> mbuf_data (mbuf_trim ra a) = mbuf_data a"
  using mbuf_resize_ok [of a ra "mb_len a"] by (simp add: mbuf_trim_def)

text \<open>A step that only moves bytes from the buffer into the socket.\<close>

definition moved :: "reallocator \<Rightarrow> io \<Rightarrow> io \<Rightarrow> bool" where
  "moved ra s s' \<longleftrightarrow> stream s' = stream s \<and> heap_ok (ra, io_send s') \<and> (io_connecting s' \<longrightarrow> io_connecting s \<and> io_taken s' = io_taken s)"

lemma moved_trans: "moved ra s s1 \<Longrightarrow> moved ra s1 s2 \<Longrightarrow> moved ra s s2"
  by (auto simp: moved_def)

lemma call_moved:
  assumes "call_proto ph fin e s = Some (Inr (Some s', es))" and "heap_ok (ra, io_send s)"
  shows "moved ra s s'"
  using assms by (auto simp: call_proto_def moved_def stream_def split: option.splits sum.splits)

lemma close_now_simps [simp]:
  "io_send (close_now s) = io_send s" "io_taken (close_now s) = io_taken s" "io_connecting (close_now s) = io_connecting s"
  "stream (close_now s) = stream s" "stream (trim_recv s) = stream s" "io_send (trim_recv s) = io_send s"
  "io_connecting (trim_recv s) = io_connecting s" "io_taken (trim_recv s) = io_taken s"
  by (simp_all add: close_now_def trim_recv_def stream_def)

lemma same_moved: "same_io s = Some (Inr (Some s', es)) \<Longrightarrow> heap_ok (ra, io_send s) \<Longrightarrow> moved ra s s'"
  by (simp add: same_io_def moved_def)

lemma poll_moved:
  assumes "mg_if_poll ph fin s = Some (Inr (Some s', es))" and "heap_ok (ra, io_send s)"
  shows "moved ra s s'"
  using assms call_moved
  by (auto simp: mg_if_poll_def mg_close_conn_def split: if_splits option.splits sum.splits)

lemma connect_moved:
  assumes "connect_stage ph fin sp any s = Some (Inr (Some s', es))" and "heap_ok (ra, io_send s)"
  shows "moved ra s s'"
proof -
  have "moved ra s s'" if c: "mg_if_connect_cb ph fin e s = Some (Inr (Some s', es))" for e
  proof -
    let ?s1 = "if e \<noteq> 0 then close_now (s\<lparr>io_connecting := False\<rparr>) else s\<lparr>io_connecting := False\<rparr>"
    have "moved ra ?s1 s'" by (rule call_moved) (use c assms(2) in \<open>auto simp: mg_if_connect_cb_def Let_def\<close>)
    then show ?thesis by (auto simp: moved_def stream_def split: if_splits)
  qed
  then show ?thesis using assms same_moved [of s s' es ra] by (auto simp: connect_stage_def split: if_splits)
qed

lemma recv_moved:
  assumes "mg_do_recv ph fin sp s = Some (Inr (Some s', es))" and "heap_ok (ra, io_send s)"
  shows "moved ra s s'"
proof -
  have "moved ra s s'" if r: "mg_recv_tcp ph fin r s = Some (Inr (Some s', es))" for r
  proof -
    from r obtain s1 es1 where
      "(case r of SysOk seg \<Rightarrow> if seg = [] then same_io (s\<lparr>io_finish := True\<rparr>) else call_proto ph fin (PRecv seg) s
        | SysAgain \<Rightarrow> same_io s | SysErr _ \<Rightarrow> same_io (close_now s)) = Some (Inr (Some s1, es1))"
      and s': "s' = trim_recv s1"
      unfolding mg_recv_tcp_def by (rule then_io_eq) (auto simp: same_io_def)
    then have "moved ra s s1" using assms(2) call_moved
      by (auto simp: same_io_def moved_def stream_def close_now_def split: sys.splits if_splits)
    then show ?thesis by (simp add: s' moved_def)
  qed
  then show ?thesis using assms same_moved [of s s' es ra]
    by (auto simp: mg_do_recv_def Let_def split: if_splits)
qed

lemma send_moved:
  assumes "mg_if_can_send_cb ra ph fin sp s = Some (Inr (Some s', es))" and "heap_ok (ra, io_send s)" and "honest sp"
  shows "moved ra s s'"
proof -
  let ?d = "mbuf_data (io_send s)" and ?buf = "take MG_TCP_IO_SIZE (mbuf_data (io_send s))"
  have took: "moved ra s s'" if n: "sp_send sp ?buf = SysOk n" and c: "\<not> io_connecting s"
    and call: "call_proto ph fin (PSend (int n))
      (s\<lparr>io_send := mbuf_trim ra (mbuf_remove (io_send s) n), io_taken := io_taken s @ take n ?buf\<rparr>) = Some (Inr (Some s', es))" for n
  proof -
    let ?a = "mbuf_trim ra (mbuf_remove (io_send s) n)"
    have le: "n \<le> length ?buf" using assms(3) n unfolding honest_def by blast
    have ok: "ra_ok ra" "mbuf_ok (io_send s)" using assms(2) by (simp_all add: heap_ok_def)
    have "n \<le> mb_len (io_send s)" using le ok(2) by simp
    then have "mbuf_ok ?a \<and> mbuf_data ?a = drop n ?d" using ok mbuf_remove_ok [OF ok(2)] trim_data by metis
    moreover have "take n ?buf = take n ?d" using le by simp
    ultimately have "heap_ok (ra, ?a)" "take n ?buf @ mbuf_data ?a = ?d" using ok(1) by (simp_all add: heap_ok_def)
    then show ?thesis using call_moved [OF call, of ra] c by (auto simp: moved_def stream_def)
  qed
  show ?thesis
    using assms(1,2) took same_moved [of s s' es ra] call_moved [of ph fin "PSend (- 1)" "close_now s" s' es ra]
    by (auto simp: mg_if_can_send_cb_def Let_def moved_def split: if_splits sys.splits)
qed

lemma handle_moved:
  assumes "mg_mgr_handle_conn ra ph fin sp flags s = Some (Inr (Some s', es))" and "heap_ok (ra, io_send s)" and "honest sp"
  shows "moved ra s s'"
proof -
  obtain r w e where f: "flags = (r, w, e)" by (cases flags)
  from assms(1) obtain s1 s2 s3 e1 e2 e3 e4 where s: "mg_if_poll ph fin s = Some (Inr (Some s1, e1))"
    "connect_stage ph fin sp (r \<or> w \<or> e) s1 = Some (Inr (Some s2, e2))"
    "(if r then mg_do_recv ph fin sp s2 else same_io s2) = Some (Inr (Some s3, e3))"
    "(if w then mg_if_can_send_cb ra ph fin sp s3 else same_io s3) = Some (Inr (Some s', e4))"
    unfolding mg_mgr_handle_conn_def f Let_def split_conv by (elim then_io_eq) blast
  note m1 = poll_moved [OF s(1) assms(2)]
  then have h1: "heap_ok (ra, io_send s1)" by (simp add: moved_def)
  note m2 = connect_moved [OF s(2) h1]
  then have h2: "heap_ok (ra, io_send s2)" by (simp add: moved_def)
  have m3: "moved ra s2 s3" using s(3) recv_moved [OF _ h2] same_moved [OF _ h2] by (auto split: if_splits)
  then have h3: "heap_ok (ra, io_send s3)" by (simp add: moved_def)
  have m4: "moved ra s3 s'" using s(4) send_moved [OF _ h3 assms(3)] same_moved [OF _ h3] by (auto split: if_splits)
  show ?thesis by (rule moved_trans [OF moved_trans [OF moved_trans [OF m1 m2] m3] m4])
qed


text \<open>Over the connections of a manager: those that are left have kept their bytes.\<close>

definition heaps_ok :: "reallocator \<Rightarrow> io list \<Rightarrow> bool" where
  "heaps_ok ra ss \<longleftrightarrow> (\<forall>s \<in> set ss. heap_ok (ra, io_send s))"

definition kept :: "reallocator \<Rightarrow> io list \<Rightarrow> io list \<Rightarrow> bool" where
  "kept ra ss ss' \<longleftrightarrow> (\<exists>ts. subseq ts ss \<and> list_all2 (moved ra) ts ss')"

lemma list_all2_subseq:
  "subseq us ss' \<Longrightarrow> list_all2 P ts ss' \<Longrightarrow> \<exists>vs. subseq vs ts \<and> list_all2 P vs us"
proof (induction us ss' arbitrary: ts rule: list_emb.induct)
  case (list_emb_Nil ys)
  then show ?case by (intro exI [of _ "[]"]) simp
next
  case (list_emb_Cons us ss y)
  then obtain t ts' where "ts = t # ts'" "list_all2 P ts' ss" by (auto simp: list_all2_Cons2)
  then show ?case using list_emb_Cons.IH [of ts'] by auto
next
  case (list_emb_Cons2 x y us ss)
  then obtain t ts' where t: "ts = t # ts'" "P t y" "list_all2 P ts' ss" by (auto simp: list_all2_Cons2)
  then obtain vs where "subseq vs ts'" "list_all2 P vs us" using list_emb_Cons2.IH by blast
  then show ?case using t list_emb_Cons2.hyps by (intro exI [of _ "t # vs"]) simp
qed

lemma kept_refl: "heaps_ok ra ss \<Longrightarrow> kept ra ss ss"
  unfolding kept_def by (intro exI [of _ ss]) (auto simp: heaps_ok_def moved_def list_all2_same)

lemma kept_trans:
  assumes "kept ra ss ss1" and "kept ra ss1 ss2"
  shows "kept ra ss ss2"
proof -
  obtain ts us where t: "subseq ts ss" "list_all2 (moved ra) ts ss1" "subseq us ss1" "list_all2 (moved ra) us ss2"
    using assms by (auto simp: kept_def)
  obtain vs where v: "subseq vs ts" "list_all2 (moved ra) vs us" using list_all2_subseq [OF t(3,2)] by blast
  have "list_all2 (moved ra) vs ss2" by (rule list_all2_trans [OF _ v(2) t(4)]) (rule moved_trans)
  then show ?thesis using subseq_order.trans [OF v(1) t(1)] by (auto simp: kept_def)
qed

lemma kept_heaps: "kept ra ss ss' \<Longrightarrow> heaps_ok ra ss'"
  by (auto simp: kept_def heaps_ok_def moved_def in_set_conv_nth list_all2_conv_all_nth)

lemma poll_kept:
  "mg_socket_if_poll ra ph fin sps ss = Some (Inr (ss', es)) \<Longrightarrow> heaps_ok ra ss \<Longrightarrow> (\<And>fd. honest (sps fd)) \<Longrightarrow> kept ra ss ss'"
proof (induction ss arbitrary: ss' es)
  case (Cons s ss)
  from Cons.prems(1) obtain so es1 ss1 es2 where
    h: "mg_mgr_handle_conn ra ph fin (sock_of sps s) (fd_flags (sock_of sps s) s) s = Some (Inr (so, es1))"
    "mg_socket_if_poll ra ph fin sps ss = Some (Inr (ss1, es2))" "ss' = (case so of None \<Rightarrow> ss1 | Some s' \<Rightarrow> s' # ss1)"
    by (auto split: option.splits sum.splits prod.splits)
  have "kept ra ss ss1" using Cons.IH [OF h(2)] Cons.prems(2,3) by (simp add: heaps_ok_def)
  then obtain ts where ts: "subseq ts ss" "list_all2 (moved ra) ts ss1" by (auto simp: kept_def)
  show ?case
  proof (cases so)
    case None
    then show ?thesis using ts h(3) by (auto simp: kept_def)
  next
    case (Some s')
    have "moved ra s s'"
      by (rule handle_moved [OF h(1) [unfolded Some]]) (use Cons.prems(2,3) in \<open>simp_all add: heaps_ok_def sock_of_def\<close>)
    then show ?thesis unfolding kept_def using ts h(3) Some by (intro exI [of _ "s # ts"]) simp
  qed
qed (simp add: kept_def)

lemma polls_kept:
  "mgr_polls ra ph fin spss ss = Some (Inr (ss', ess)) \<Longrightarrow> heaps_ok ra ss \<Longrightarrow> (\<And>sps fd. sps \<in> set spss \<Longrightarrow> honest (sps fd)) \<Longrightarrow>
    kept ra ss ss'"
proof (induction spss arbitrary: ss ess)
  case (Cons sps spss)
  from Cons.prems(1) obtain ss1 es ess1 where
    h: "mg_socket_if_poll ra ph fin sps ss = Some (Inr (ss1, es))" "mgr_polls ra ph fin spss ss1 = Some (Inr (ss', ess1))"
    by (auto split: option.splits sum.splits prod.splits)
  have k: "kept ra ss ss1" by (rule poll_kept [OF h(1)]) (use Cons.prems(2,3) in auto)
  show ?case by (rule kept_trans [OF k Cons.IH [OF h(2) kept_heaps [OF k]]]) (use Cons.prems(3) in auto)
qed (auto intro: kept_refl)


section \<open>Polls in which nothing fails\<close>

text \<open>Events that tell the protocol handler nothing but that time has passed, bytes have gone or the connection is made.\<close>

fun quiet :: "proto_ev \<Rightarrow> bool" where
  "quiet PPoll \<longleftrightarrow> True"
| "quiet (PSend n) \<longleftrightarrow> True"
| "quiet (PConnect err) \<longleftrightarrow> err = 0"
| "quiet _ \<longleftrightarrow> False"

definition quiet_evs :: "(proto_ev \<Rightarrow> http_ev) \<Rightarrow> http_ev list \<Rightarrow> bool" where
  "quiet_evs ev_of es \<longleftrightarrow> (\<forall>x \<in> set es. \<exists>e. quiet e \<and> x = ev_of e)"

lemma quiet_evs_simps [simp]:
  "quiet_evs ev_of []" "quiet e \<Longrightarrow> quiet_evs ev_of (ev_of e # xs) \<longleftrightarrow> quiet_evs ev_of xs"
  "quiet_evs ev_of (xs @ ys) \<longleftrightarrow> quiet_evs ev_of xs \<and> quiet_evs ev_of ys"
  by (auto simp: quiet_evs_def)

text \<open>No call of the system fails, and the server has not closed the connection.\<close>

definition calm :: "sock_poll \<Rightarrow> bool" where
  "calm sp \<longleftrightarrow> so_error (sp_soerr sp) = 0 \<and> (\<forall>e. sp_recv sp MG_TCP_IO_SIZE \<noteq> SysErr e) \<and> sp_recv sp MG_TCP_IO_SIZE \<noteq> SysOk []
     \<and> (\<forall>buf e. sp_send sp buf \<noteq> SysErr e)"

definition arrived :: "sock_poll \<Rightarrow> string" where
  "arrived sp = (if sp_read sp then (case sp_recv sp MG_TCP_IO_SIZE of SysOk seg \<Rightarrow> seg | _ \<Rightarrow> []) else [])"

text \<open>The socket is writable, and takes at least a byte of what it is offered.\<close>

definition takes :: "sock_poll \<Rightarrow> bool" where
  "takes sp \<longleftrightarrow> sp_write sp \<and> (\<forall>buf. buf \<noteq> [] \<longrightarrow> (\<exists>n > 0. sp_send sp buf = SysOk n))"

definition open_io :: "(conn \<Rightarrow> bool) \<Rightarrow> io \<Rightarrow> bool" where
  "open_io live s \<longleftrightarrow> live (io_conn s) \<and> \<not> nc_close (io_conn s) \<and> \<not> io_finish s \<and> io_sock s \<noteq> None \<and> io_err s = 0
     \<and> nc_len (io_conn s) + MG_TCP_IO_SIZE \<le> nc_limit (io_conn s)"

text \<open>The bytes in the buffer have become fewer, unless there were none.\<close>

definition progress :: "io \<Rightarrow> io \<Rightarrow> bool" where
  "progress s s' \<longleftrightarrow> mbuf_data (io_send s') = [] \<or> length (mbuf_data (io_send s')) < length (mbuf_data (io_send s))"

text \<open>
  The contract of the protocol handler of a client: it does nothing about an event that is
  quiet but tell the user handler, which does not finish the connection then.
\<close>

locale net_client =
  fixes ph :: proto
    and fin :: "http_ev \<Rightarrow> bool"
    and live :: "conn \<Rightarrow> bool"
    and ev_of :: "proto_ev \<Rightarrow> http_ev"
  assumes quiet_law: "live c \<Longrightarrow> quiet e \<Longrightarrow> ph e c = Some (Inr (c, [ev_of e]))"
    and quiet_fin: "quiet e \<Longrightarrow> \<not> fin (ev_of e)"
    and live_trim: "live c \<Longrightarrow> live (c\<lparr>nc_buf := t\<rparr>)"

context net_client
begin

lemma call_quiet: "live (io_conn s) \<Longrightarrow> quiet e \<Longrightarrow> call_proto ph fin e s = Some (Inr (Some s, [ev_of e]))"
  by (simp add: call_proto_def quiet_law quiet_fin)

lemma send_calm:
  assumes "live (io_conn s)" and "\<not> nc_close (io_conn s)" and "\<not> io_connecting s" and "heap_ok (ra, io_send s)"
    and "calm sp" and "honest sp"
  shows "\<exists>s' es. mg_if_can_send_cb ra ph fin sp s = Some (Inr (Some s', es)) \<and> quiet_evs ev_of es \<and> io_conn s' = io_conn s
    \<and> io_finish s' = io_finish s \<and> io_sock s' = io_sock s \<and> io_err s' = io_err s \<and> \<not> io_connecting s' \<and> (takes sp \<longrightarrow> progress s s')"
proof -
  let ?d = "mbuf_data (io_send s)" and ?buf = "take MG_TCP_IO_SIZE (mbuf_data (io_send s))"
  note defs = mg_if_can_send_cb_def Let_def same_io_def
  consider (empty) "?buf = []" | (again) "?buf \<noteq> []" "sp_send sp ?buf = SysAgain \<or> sp_send sp ?buf = SysOk 0"
    | (ok) n where "?buf \<noteq> []" "sp_send sp ?buf = SysOk n" "n > 0"
  proof (cases "sp_send sp ?buf")
    case (SysOk n)
    then show ?thesis using that by (cases "?buf = []"; cases n) blast+
  qed (use that assms(5) in \<open>auto simp only: calm_def\<close>)
  then show ?thesis
  proof cases
    case empty
    then have "?d = []" by (simp add: MG_TCP_IO_SIZE_def)
    then show ?thesis using empty assms(3) by (intro exI [of _ s] exI [of _ "[]"]) (simp add: defs progress_def)
  next
    case again
    then have "\<not> (\<exists>n > 0. sp_send sp ?buf = SysOk n)" by auto
    then have "\<not> takes sp" using again(1) unfolding takes_def by blast
    then show ?thesis using again assms(2,3) by (intro exI [of _ s] exI [of _ "[]"]) (auto simp: defs)
  next
    case ok
    let ?a = "mbuf_trim ra (mbuf_remove (io_send s) n)"
    have le: "n \<le> length ?buf" using assms(6) ok(2) unfolding honest_def by blast
    have h: "ra_ok ra" "mbuf_ok (io_send s)" using assms(4) by (simp_all add: heap_ok_def)
    have n: "n \<le> mb_len (io_send s)" using le h(2) by simp
    then have "mbuf_data ?a = drop n ?d" using h mbuf_remove_ok [OF h(2)] trim_data by metis
    then have p: "length (mbuf_data ?a) < length ?d" using ok(3) n h(2) by simp
    let ?s = "s\<lparr>io_send := ?a, io_taken := io_taken s @ take n ?buf\<rparr>"
    have "mg_if_can_send_cb ra ph fin sp s = Some (Inr (Some ?s, [ev_of (PSend (int n))]))"
      using ok assms(1-3) call_quiet [of ?s "PSend (int n)"] by (simp add: defs)
    then show ?thesis using p assms(3)
      by (intro exI [of _ ?s] exI [of _ "[ev_of (PSend (int n))]"]) (simp add: progress_def)
  qed
qed

lemma recv_calm:
  assumes "open_io live s" and "\<not> io_connecting s" and "calm sp" and "sp_read sp"
    and "if arrived sp = [] then c = io_conn s \<and> es = [] else ph (PRecv (arrived sp)) (io_conn s) = Some (Inr (c, es))"
  shows "mg_do_recv ph fin sp s =
    Some (Inr (Some (s\<lparr>io_conn := c\<lparr>nc_buf := recv_text c\<rparr>, io_finish := list_ex fin es\<rparr>), es))"
proof -
  have room: "recv_avail_size (io_conn s) MG_TCP_IO_SIZE = MG_TCP_IO_SIZE" "MG_TCP_IO_SIZE \<noteq> 0"
    using assms(1) by (auto simp: recv_avail_size_def open_io_def MG_TCP_IO_SIZE_def min_def)
  have s: "\<not> nc_close (io_conn s)" "\<not> io_finish s" using assms(1) by (simp_all add: open_io_def)
  have "mg_recv_tcp ph fin (sp_recv sp MG_TCP_IO_SIZE) s =
      Some (Inr (Some (s\<lparr>io_conn := c\<lparr>nc_buf := recv_text c\<rparr>, io_finish := list_ex fin es\<rparr>), es))"
    using assms(3-5) s
    by (cases "sp_recv sp MG_TCP_IO_SIZE")
      (auto simp: mg_recv_tcp_def arrived_def calm_def call_proto_def trim_recv_def then_io_def same_io_def split: if_splits)
  then show ?thesis using s(1) assms(2) room by (simp add: mg_do_recv_def)
qed

text \<open>One poll of a connection on which nothing fails: what arrived is handled, and some bytes are sent.\<close>

lemma handle_calm:
  assumes o: "open_io live s" and sp: "calm sp" "honest sp" and heap: "heap_ok (ra, io_send s)"
    and rcv: "if arrived sp = [] then c = io_conn s \<and> es = []
      else ph (PRecv (arrived sp)) (io_conn s) = Some (Inr (c, es)) \<and> live c \<and> \<not> nc_close c"
  shows "\<exists>s' pre post. mg_mgr_handle_conn ra ph fin sp (fd_flags sp s) s = Some (Inr (Some s', pre @ es @ post))
    \<and> quiet_evs ev_of pre \<and> quiet_evs ev_of post \<and> (io_conn s' = c \<or> io_conn s' = c\<lparr>nc_buf := recv_text c\<rparr>)
    \<and> io_finish s' = list_ex fin es \<and> io_sock s' = io_sock s \<and> io_err s' = 0 \<and> moved ra s s' \<and> (takes sp \<longrightarrow> progress s s')"
proof -
  have l: "live (io_conn s)" "\<not> nc_close (io_conn s)" "\<not> io_finish s" "io_sock s \<noteq> None" "io_err s = 0"
    using o by (simp_all add: open_io_def)
  have wr: "wants_read s" using o by (simp add: open_io_def wants_read_def MG_TCP_IO_SIZE_def)
  have flags: "fd_flags sp s = (sp_read sp, wants_write s \<and> sp_write sp, wants_write s \<and> sp_except sp)"
    using l(4) wr by (auto simp: fd_flags_def)
  have poll: "mg_if_poll ph fin s = Some (Inr (Some s, [ev_of PPoll]))"
    using l call_quiet by (simp add: mg_if_poll_def)
  define any where "any \<longleftrightarrow> sp_read sp \<or> (wants_write s \<and> sp_write sp) \<or> (wants_write s \<and> sp_except sp)"
  define s2 where "s2 = (if io_connecting s \<and> any then s\<lparr>io_connecting := False\<rparr> else s)"
  define e2 where "e2 = (if io_connecting s \<and> any then [ev_of (PConnect 0)] else [])"
  have conn: "connect_stage ph fin sp any s = Some (Inr (Some s2, e2))"
  proof (cases "io_connecting s \<and> any")
    case True
    then show ?thesis using sp(1) l(1) call_quiet [of "s\<lparr>io_connecting := False\<rparr>" "PConnect 0"]
      by (simp add: s2_def e2_def connect_stage_def calm_def mg_if_connect_cb_def)
  next
    case False
    then show ?thesis using l(5) unfolding s2_def e2_def connect_stage_def same_io_def if_not_P [OF False] by auto
  qed
  have s2: "io_conn s2 = io_conn s" "io_send s2 = io_send s" "io_taken s2 = io_taken s" "open_io live s2" "any \<Longrightarrow> \<not> io_connecting s2"
    "io_sock s2 = io_sock s" "io_err s2 = io_err s" "io_finish s2 = io_finish s"
    using o unfolding s2_def open_io_def by (simp_all split: if_splits)
  have e2: "quiet_evs ev_of e2" by (simp add: e2_def)
  define s3 where "s3 = (if sp_read sp then s2\<lparr>io_conn := c\<lparr>nc_buf := recv_text c\<rparr>, io_finish := list_ex fin es\<rparr> else s2)"
  have none: "c = io_conn s \<and> es = []" if "\<not> sp_read sp" using rcv that by (simp add: arrived_def)
  have recv: "(if sp_read sp then mg_do_recv ph fin sp s2 else same_io s2) = Some (Inr (Some s3, es))"
  proof (cases "sp_read sp")
    case True
    have "mg_do_recv ph fin sp s2 = Some (Inr (Some (s2\<lparr>io_conn := c\<lparr>nc_buf := recv_text c\<rparr>, io_finish := list_ex fin es\<rparr>), es))"
      by (rule recv_calm [OF s2(4) s2(5) sp(1) True]) (use True rcv s2(1) in \<open>auto simp: any_def split: if_splits\<close>)
    then show ?thesis using True by (simp add: s3_def)
  qed (use none in \<open>simp add: s3_def same_io_def\<close>)
  have s3: "io_conn s3 = c \<or> io_conn s3 = c\<lparr>nc_buf := recv_text c\<rparr>" "io_finish s3 = list_ex fin es" "io_send s3 = io_send s"
    "io_connecting s3 = io_connecting s2" "io_sock s3 = io_sock s" "io_err s3 = 0" "live (io_conn s3)" "\<not> nc_close (io_conn s3)"
    using none s2 rcv l live_trim by (auto simp: s3_def split: if_splits)
  let ?w = "wants_write s \<and> sp_write sp"
  have "\<exists>s' e4. (if ?w then mg_if_can_send_cb ra ph fin sp s3 else same_io s3) = Some (Inr (Some s', e4))
    \<and> quiet_evs ev_of e4 \<and> io_conn s' = io_conn s3 \<and> io_finish s' = io_finish s3 \<and> io_sock s' = io_sock s3 \<and> io_err s' = io_err s3
    \<and> (takes sp \<longrightarrow> progress s3 s')"
  proof (cases ?w)
    case True
    then have "\<not> io_connecting s3" using s2(5) s3(4) by (simp add: any_def)
    then show ?thesis using True send_calm [OF s3(7,8) _ _ sp, of ra] heap s3(3) by auto
  next
    case False
    then have "mbuf_data (io_send s3) = []" if "takes sp"
      using that heap s3(3) by (auto simp: takes_def wants_write_def mbuf_data_def)
    then show ?thesis using False by (intro exI [of _ s3] exI [of _ "[]"]) (auto simp: same_io_def progress_def)
  qed
  then obtain s' e4 where s': "(if ?w then mg_if_can_send_cb ra ph fin sp s3 else same_io s3) = Some (Inr (Some s', e4))"
    "quiet_evs ev_of e4" "io_conn s' = io_conn s3" "io_finish s' = io_finish s3" "io_sock s' = io_sock s3" "io_err s' = io_err s3"
    "takes sp \<longrightarrow> progress s s'" using s3(3) by (auto simp: progress_def)
  have run: "mg_mgr_handle_conn ra ph fin sp (fd_flags sp s) s = Some (Inr (Some s', [ev_of PPoll] @ e2 @ es @ e4))"
    unfolding mg_mgr_handle_conn_def flags Let_def split_conv poll
    by (intro then_io_Some) (use conn [unfolded any_def] recv s' in \<open>auto intro!: then_io_Some\<close>)
  have m: "moved ra s s'" by (rule handle_moved [OF run heap sp(2)])
  show ?thesis
    by (rule exI [of _ s'], rule exI [of _ "[ev_of PPoll] @ e2"], rule exI [of _ e4]) (use m run e2 s' s3 in simp)
qed

end

section \<open>The client of the library\<close>

text \<open>\<open>ev_handler\<close> of \<open>chaos_crest.c\<close> finishes the connection when the reply is there.\<close>

fun crest_finishes :: "http_ev \<Rightarrow> bool" where
  "crest_finishes (HReply t hm) \<longleftrightarrow> True"
| "crest_finishes _ \<longleftrightarrow> False"

fun client_ev :: "proto_ev \<Rightarrow> http_ev" where
  "client_ev (PConnect err) = HConnect err"
| "client_ev (PRecv seg) = HRecv (length seg)"
| "client_ev (PSend n) = HSend n"
| "client_ev PPoll = HPoll"
| "client_ev PClose = HClose"

lemma http_proto_quiet: "\<not> nc_ws c \<Longrightarrow> quiet e \<Longrightarrow> http_proto ws crest_deletes e c = Some (Inr (c, [client_ev e]))"
  by (cases e) (auto simp: mg_call_def crest_deletes_def)

interpretation http_client: net_client "http_proto ws crest_deletes" crest_finishes "\<lambda>c. \<not> nc_ws c" client_ev for ws :: proto
proof unfold_locales
  show "http_proto ws crest_deletes e c = Some (Inr (c, [client_ev e]))" if "\<not> nc_ws c" "quiet e" for c e
    using that by (rule http_proto_quiet)
  show "\<not> crest_finishes (client_ev e)" if "quiet e" for e using that by (cases e) auto
qed simp

end
