(* ===== verification/MgConnect.thy ===== *)
theory MgConnect
  imports MgIo MgUri MgBase64
begin

text \<open>
  Connecting in mongoose: \<open>mg_parse_address\<close> with the hosts file, \<open>mg_connect_opt\<close>, and
  \<open>mg_connect_http\<close>, which takes the URL apart and writes the request into the send buffer. The
  hosts file, the sockets, the allocator and the start of a DNS query are parameters.
\<close>

section \<open>Reading numbers and names\<close>

text \<open>\<open>%u\<close>: glibc reads an \<open>unsigned long\<close>, which a sign negates, and converts it to \<open>unsigned\<close>.\<close>

definition scan_u :: "string \<Rightarrow> u32 scan" where
  "scan_u s0 =
     (let s = dropWhile c_isspace s0 in
      if s = [] then InputEnd
      else let t = (if hd s = CHR ''-'' \<or> hd s = CHR ''+'' then tl s else s);
               ds = takeWhile c_isdigit t; n = read_nat ds
           in if ds = [] then Mismatch
              else Matched (if n \<ge> 2 ^ 64 then - 1 else if hd s = CHR ''-'' then - of_nat n else of_nat n)
                     (dropWhile c_isdigit t))"

text \<open>
  \<open>n\<close> numbers with dots between them: those that were assigned, whether the input ended before
  the first one, and the rest.
\<close>

fun scan_dotted :: "nat \<Rightarrow> string \<Rightarrow> u32 list \<times> bool \<times> string" where
  "scan_dotted 0 s = ([], False, s)"
| "scan_dotted (Suc n) s =
     (case scan_u s of
        InputEnd \<Rightarrow> ([], True, s)
      | Mismatch \<Rightarrow> ([], False, s)
      | Matched w r \<Rightarrow>
          if n = 0 then ([w], False, r)
          else (case scan_lit ''.'' r of
                  Matched _ r' \<Rightarrow> (let (ws, e, r'') = scan_dotted n r' in (w # ws, False, r''))
                | _ \<Rightarrow> ([w], False, r)))"

text \<open>\<open>a << 24 | b << 16 | c << 8 | d\<close>\<close>

fun ip_word :: "u32 list \<Rightarrow> u32" where
  "ip_word (a # b # c # d # _) = push_bit 24 a OR push_bit 16 b OR push_bit 8 c OR d"
| "ip_word _ = 0"

text \<open>\<open>"%u.%u.%u.%u:%u%n"\<close>, \<open>"%[^ :]:%u%n"\<close>, and \<open>":%u%n"\<close> or \<open>"%u%n"\<close>, with the length that was read.\<close>

definition scan_port :: "string \<Rightarrow> string \<Rightarrow> string \<Rightarrow> (u32 \<times> nat) option" where
  "scan_port s lit r =
     (case scan_lit lit r of
        Matched _ r' \<Rightarrow> (case scan_u r' of Matched port r'' \<Rightarrow> Some (port, length s - length r'') | _ \<Rightarrow> None)
      | _ \<Rightarrow> None)"

definition scan_ip_port :: "string \<Rightarrow> (u32 \<times> u32 \<times> nat) option" where
  "scan_ip_port s =
     (let (ws, e, r) = scan_dotted 4 s
      in if length ws = 4 then map_option (\<lambda>(port, len). (ip_word ws, port, len)) (scan_port s '':'' r) else None)"

definition scan_host_port :: "string \<Rightarrow> (string \<times> u32 \<times> nat) option" where
  "scan_host_port s =
     (let h = takeWhile (\<lambda>c. c \<notin> set '' :'') s
      in if h = [] then None else map_option (\<lambda>(port, len). (h, port, len)) (scan_port s '':'' (drop (length h) s)))"

section \<open>The hosts file\<close>

text \<open>
  \<open>line\<close>, the numbers \<open>a\<close> to \<open>d\<close> and \<open>len\<close> keep what earlier lines left in them. A line is what
  \<open>fgets\<close> returns.
\<close>

record hosts_st =
  hs_line :: string
  hs_ip :: "u32 list"
  hs_len :: nat

definition fgets_line :: "string \<Rightarrow> string \<Rightarrow> string" where
  "fgets_line l buf = put_at 0 (l @ [NUL]) buf"

lemma scan_s_shorter: "scan_s s = Matched w r \<Longrightarrow> length r < length s"
proof -
  assume a: "scan_s s = Matched w r"
  let ?t = "dropWhile c_isspace s"
  have t: "?t \<noteq> []" "r = dropWhile (\<lambda>c. \<not> c_isspace c) ?t" using a by (auto simp: scan_s_def Let_def split: if_splits)
  then have "\<not> c_isspace (hd ?t)" using hd_dropWhile by blast
  then have "length r < length ?t" using t by (cases ?t) (auto simp: le_imp_less_Suc length_dropWhile_le)
  then show ?thesis using length_dropWhile_le [of c_isspace s] by linarith
qed

text \<open>
  The loop over the aliases from \<open>p\<close> on: whether the name was found, and \<open>len\<close>. \<open>alias\<close> has 256
  characters.
\<close>

function alias_loop :: "string \<Rightarrow> string \<Rightarrow> nat \<Rightarrow> nat \<Rightarrow> (bool \<times> nat) res" where
  "alias_loop name buf p len =
     (let s = cstr (drop p buf) in
      guard_res (NUL \<in> set (drop p buf)) OutOfBounds
        (case scan_s s of
           Matched w r \<Rightarrow>
             guard_res (length w < 256) OutOfBounds
               (let n = length s - length r
                in if w = name then Inr (True, n) else alias_loop name buf (p + n) n)
         | _ \<Rightarrow> Inr (False, len)))"
  by pat_completeness auto

termination
proof (relation "measure (\<lambda>(name, buf, p, len). length buf - p)", goal_cases)
  case (2 name buf p len s w r n)
  have "length r < length s" using 2(2) by (rule scan_s_shorter)
  moreover have "length s \<le> length buf - p" unfolding 2(1) using length_cstr_le [of "drop p buf"] by simp
  ultimately show ?case using 2 by simp
qed simp

declare alias_loop.simps [simp del]

fun hosts_loop :: "string \<Rightarrow> string list \<Rightarrow> hosts_st \<Rightarrow> u32 option res" where
  "hosts_loop name [] st = Inr None"
| "hosts_loop name (l # ls) st =
     (let buf = fgets_line l (hs_line st) in
      if take 1 l = ''#'' then hosts_loop name ls (st\<lparr>hs_line := buf\<rparr>)
      else
        let (ws, e, r) = scan_dotted 4 l;
            st1 = \<lparr>hs_line = buf, hs_ip = ws @ drop (length ws) (hs_ip st),
                   hs_len = (if length ws = 4 then length l - length r else hs_len st)\<rparr>
        in if ws = [] \<and> \<not> e then hosts_loop name ls st1
           else rbind (alias_loop name buf (hs_len st1) (hs_len st1)) (\<lambda>(found, len).
             if found then Inr (Some (ip_word (hs_ip st1))) else hosts_loop name ls (st1\<lparr>hs_len := len\<rparr>)))"

text \<open>\<open>hosts\<close> is \<open>None\<close> when the file cannot be opened; \<open>len\<close> starts with 0.\<close>

definition mg_resolve_from_hosts_file :: "string list option \<Rightarrow> hosts_st \<Rightarrow> string \<Rightarrow> u32 option res" where
  "mg_resolve_from_hosts_file hosts junk name =
     (case hosts of None \<Rightarrow> Inr None | Some ls \<Rightarrow> hosts_loop name ls (junk\<lparr>hs_len := 0\<rparr>))"

section \<open>Addresses\<close>

definition MG_MAX_HOST_LEN :: nat where "MG_MAX_HOST_LEN = 200"

text \<open>The result, the address, the port in 16 bits, whether it is for UDP, and the host that needs a DNS lookup.\<close>

record address =
  ad_rc :: int
  ad_ip :: u32
  ad_port :: u16
  ad_udp :: bool
  ad_host :: string

definition end_of_address :: "string \<Rightarrow> u32 \<Rightarrow> nat \<Rightarrow> int" where
  "end_of_address s port len =
     (let ch = (if len < length s then s ! len else NUL)
      in if port < 0xffff \<and> (ch = NUL \<or> ch = CHR '','' \<or> c_isspace ch) then int len else - 1)"

definition mg_parse_address :: "string list option \<Rightarrow> hosts_st \<Rightarrow> nat \<Rightarrow> string \<Rightarrow> address res" where
  "mg_parse_address hosts junk host_len str =
     (let udp = (take 6 str = ''udp://'');
          s = (if udp \<or> take 6 str = ''tcp://'' then drop 6 str else str);
          result = (\<lambda>rc ip port host. \<lparr>ad_rc = rc, ad_ip = ip, ad_port = ucast (port :: u32), ad_udp = udp, ad_host = host\<rparr>)
      in case scan_ip_port s of
           Some (ip, port, len) \<Rightarrow> Inr (result (end_of_address s port len) ip port [])
         | None \<Rightarrow>
             (case if length s < host_len then scan_host_port s else None of
                Some (host, port, len) \<Rightarrow>
                  rbind (mg_resolve_from_hosts_file hosts junk host) (\<lambda>r. Inr (case r of
                      Some ip \<Rightarrow> result (end_of_address s port len) ip port host
                    | None \<Rightarrow> result (if mg_ncasecmp host ''localhost'' 9 \<noteq> 0 then 0 else - 1) 0 port host))
              | None \<Rightarrow>
                  (case (case scan_port s '':'' s of None \<Rightarrow> scan_port s [] s | p \<Rightarrow> p) of
                     Some (port, len) \<Rightarrow> Inr (result (end_of_address s port len) 0 port [])
                   | None \<Rightarrow> Inr (result (- 1) 0 0 []))))"

section \<open>Connecting\<close>

text \<open>
  What the system has for a connection: memory for the connection, the address text and the
  request text, the allocator of the buffers, the hosts file, what the start of a DNS query
  returns, a descriptor or an error number from \<open>socket\<close>, and the result of \<open>connect\<close>.
\<close>

record conn_env =
  ce_conn_mem :: bool
  ce_addr_mem :: bool
  ce_text_mem :: bool
  ce_ra :: reallocator
  ce_hosts :: "string list option"
  ce_junk :: hosts_st
  ce_resolve :: "string \<Rightarrow> int"
  ce_socket :: "int + nat"
  ce_connect :: "u32 \<Rightarrow> u16 \<Rightarrow> unit sys"

text \<open>\<open>mg_create_connection\<close>: all fields are zero but the limit of the receive buffer.\<close>

definition mg_create_connection :: "conn_env \<Rightarrow> io option" where
  "mg_create_connection env =
     (if ce_conn_mem env then
        Some \<lparr>io_conn = \<lparr>nc_buf = [], nc_len = 0, nc_limit = size_max, nc_delete = False, nc_close = False,
                nc_ws = False, nc_body = 0, nc_rcvd = 0\<rparr>,
              io_sock = None, io_sa = (0, 0), io_err = 0, io_connecting = False, io_resolving = False,
              io_finish = False, io_send = mbuf_init (ce_ra env) 0, io_taken = []\<rparr>
      else None)"

definition mg_socket_if_connect_tcp :: "conn_env \<Rightarrow> io \<Rightarrow> io" where
  "mg_socket_if_connect_tcp env s =
     (case ce_socket env of
        Inl e \<Rightarrow> s\<lparr>io_err := if e \<noteq> 0 then e else 1\<rparr>
      | Inr fd \<Rightarrow> s\<lparr>io_sock := Some fd,
                   io_err := (case ce_connect env (fst (io_sa s)) (snd (io_sa s)) of SysErr e \<Rightarrow> e | _ \<Rightarrow> 0)\<rparr>)"

text \<open>\<open>mg_do_connect\<close> for TCP; adding the connection to the list of the manager is left to the caller.\<close>

definition mg_do_connect :: "conn_env \<Rightarrow> io \<Rightarrow> io" where
  "mg_do_connect env s = mg_socket_if_connect_tcp env (s\<lparr>io_connecting := True\<rparr>)"

text \<open>\<open>mg_connect_http_base\<close> makes addresses for TCP only. A connection that is being resolved is not in the list.\<close>

definition mg_connect_opt :: "conn_env \<Rightarrow> string \<Rightarrow> io option res" where
  "mg_connect_opt env addr =
     (case mg_create_connection env of
        None \<Rightarrow> Inr None
      | Some nc \<Rightarrow>
          rbind (mg_parse_address (ce_hosts env) (ce_junk env) MG_MAX_HOST_LEN addr) (\<lambda>ad.
            let nc1 = nc\<lparr>io_sa := (ad_ip ad, ad_port ad)\<rparr> in
            Inr (if ad_rc ad < 0 then None
                 else if ad_rc ad = 0 then
                   (if ce_resolve env (ad_host ad) \<noteq> 0 then None else Some (nc1\<lparr>io_resolving := True\<rparr>))
                 else Some (mg_do_connect env nc1))))"

section \<open>The request\<close>

fun c_strncmp :: "string \<Rightarrow> string \<Rightarrow> nat \<Rightarrow> int" where
  "c_strncmp s1 s2 0 = 0"
| "c_strncmp s1 s2 (Suc n) =
     (let diff = int (char_code (head_char s1)) - int (char_code (head_char s2))
      in if diff = 0 \<and> head_char s1 \<noteq> NUL then c_strncmp (tl s1) (tl s2) n else diff)"

text \<open>The difference of the lengths is a \<open>size_t\<close> that becomes an \<open>int\<close>.\<close>

definition mg_vcmp :: "string \<Rightarrow> string \<Rightarrow> int" where
  "mg_vcmp s1 s2 =
     (let r = c_strncmp s1 s2 (min (length s1) (length s2))
      in if r = 0 then c_int (int (length s1) - int (length s2)) else r)"

text \<open>
  The connection, and path, user and host of the URL. The build has no TLS, so a \<open>https\<close> URL gives
  nothing; the address text is longer than the two characters of the buffer for it.
\<close>

definition mg_connect_http_base :: "conn_env \<Rightarrow> string \<Rightarrow> (io option \<times> mg_str \<times> mg_str \<times> mg_str) res" where
  "mg_connect_http_base env url =
     (case mg_parse_uri url NUL of
        None \<Rightarrow> Inr (None, ms_null, ms_null, ms_null)
      | Some r \<Rightarrow>
          let path = (if ms_len (us_query r) > 0
                      then (us_path r)\<lparr>ms_len := ms_len (us_path r) + (ms_len (us_query r) + 1)\<rparr> else us_path r);
              scheme = slice url (us_scheme r);
              plain = (ms_len (us_scheme r) = 0 \<or> mg_vcmp scheme ''http'' = 0);
              port = (if us_port r = 0 then 80 else us_port r);
              addr = ''tcp://'' @ slice url (us_host r) @ '':'' @ show_nat (unat port)
          in if plain \<and> ce_addr_mem env
             then rbind (mg_connect_opt env addr) (\<lambda>nc. Inr (nc, path, us_user_info r, us_host r))
             else Inr (None, path, us_user_info r, us_host r))"

text \<open>\<open>mg_basic_auth_header\<close> without a password: every character of the base64 text is appended alone.\<close>

definition mg_basic_auth_header :: "reallocator \<times> mbuf \<Rightarrow> string \<Rightarrow> (reallocator \<times> mbuf) res" where
  "mg_basic_auth_header m user =
     (let ctx = cs_base64_finish (cs_base64_update cs_base64_init (string_bytes user))
      in append_all mbuf_put m
           ([string_bytes ''Authorization: Basic ''] @ map (\<lambda>c. string_bytes [c]) (cs_out ctx) @ [string_bytes crlf]))"

definition mg_send :: "reallocator \<Rightarrow> u8 list \<Rightarrow> io \<Rightarrow> io res" where
  "mg_send ra bs s = rbind (send_mbuf ra bs (io_send s)) (\<lambda>a. Inr (s\<lparr>io_send := a\<rparr>))"

definition MG_VPRINTF_BUFFER_SIZE :: nat where "MG_VPRINTF_BUFFER_SIZE = 100"

text \<open>
  \<open>mg_vprintf\<close> of a text. A text that \<open>vsnprintf\<close> cannot count in an \<open>int\<close> makes \<open>mg_avprintf\<close> try larger
  and larger buffers until there is no memory, and then write through the null pointer.
\<close>

definition mg_vprintf :: "conn_env \<Rightarrow> string \<Rightarrow> io \<Rightarrow> io res" where
  "mg_vprintf env t s =
     guard_res (length t < 2 ^ 31) NullDeref
       (if length t \<ge> MG_VPRINTF_BUFFER_SIZE \<and> \<not> ce_text_mem env then Inr s
        else if length t > 0 then mg_send (ce_ra env) (string_bytes t) s else Inr s)"

definition bytes_text :: "u8 list \<Rightarrow> string" where
  "bytes_text bs = map (\<lambda>b. char_of (unat b)) bs"

text \<open>
  The text of the request. The precision for the host is \<open>path.p - host.p\<close>, which means nothing when
  one of them has been replaced by a literal; a negative precision is as if there was none.
\<close>

definition host_text :: "string \<Rightarrow> mg_str \<Rightarrow> mg_str \<Rightarrow> string res" where
  "host_text url path host =
     (if ms_len path = 0 \<or> ms_len host = 0 then Inl Uninit
      else let h = ptr host; p = ptr path in Inr (if h \<le> p then take (p - h) (drop h url) else drop h url))"

definition mg_connect_http_opt :: "conn_env \<Rightarrow> string \<Rightarrow> string \<Rightarrow> string \<Rightarrow> io option res" where
  "mg_connect_http_opt env url extra post =
     rbind (mg_connect_http_base env url) (\<lambda>(nc, path, user, host).
       case nc of
         None \<Rightarrow> Inr None
       | Some s \<Rightarrow>
           rbind (if ms_len user > 0 then mg_basic_auth_header (ce_ra env, mbuf_init (ce_ra env) 0) (slice url user)
                  else Inr (ce_ra env, mbuf_init (ce_ra env) 0)) (\<lambda>auth.
           rbind (host_text url path host) (\<lambda>ht.
           rbind (mg_vprintf env
             ((if post = [] then ''GET'' else ''POST'') @ '' '' @ slice url path @ '' HTTP/1.1'' @ crlf
              @ ''Host: '' @ ht @ crlf @ ''Content-Length: '' @ show_nat (length post) @ crlf
              @ bytes_text (mbuf_data (snd auth)) @ extra @ crlf @ post) s) (\<lambda>s1. Inr (Some s1)))))"

text \<open>\<open>mg_connect_http\<close> passes options that are all zero.\<close>

definition mg_connect_http :: "conn_env \<Rightarrow> string \<Rightarrow> string \<Rightarrow> string \<Rightarrow> io option res" where
  "mg_connect_http env url extra post = mg_connect_http_opt env url extra post"

section \<open>Reading addresses\<close>

lemma scan_u_number:
  assumes "n < 2 ^ 64" and "r = [] \<or> \<not> c_isdigit (hd r)"
  shows "scan_u (show_nat n @ r) = Matched (of_nat n) r"
proof -
  obtain d ds where d: "show_nat n = d # ds" by (cases "show_nat n") simp_all
  have dig: "\<And>c. c \<in> set (show_nat n) \<Longrightarrow> c_isdigit c" using show_nat_digits [of n] by (simp add: list_all_iff)
  then have d0: "c_isdigit d" by (simp add: d)
  then have "\<not> c_isspace d" "d \<noteq> CHR ''-''" "d \<noteq> CHR ''+''" by (auto simp: c_isspace_def c_isdigit_def char_code_def)
  moreover have "takeWhile c_isdigit (show_nat n @ r) = show_nat n" "dropWhile c_isdigit (show_nat n @ r) = r"
    using dig assms(2) by (cases r; simp add: takeWhile_append dropWhile_append)+
  ultimately show ?thesis using assms(1) read_show_nat [of n] by (simp add: scan_u_def d Let_def)
qed

lemma digit_sep: "\<not> c_isdigit CHR ''.''" "\<not> c_isdigit CHR '':''" "\<not> c_isdigit CHR '' ''"
  by (simp_all add: c_isdigit_def char_code_def)

definition dotted :: "nat \<Rightarrow> nat \<Rightarrow> nat \<Rightarrow> nat \<Rightarrow> string" where
  "dotted a b c d = show_nat a @ ''.'' @ show_nat b @ ''.'' @ show_nat c @ ''.'' @ show_nat d"

lemma scan_dotted_number:
  "n < 2 ^ 64 \<Longrightarrow> 0 < k \<Longrightarrow> scan_dotted (Suc k) (show_nat n @ CHR ''.'' # r) =
     (let (ws, e, r') = scan_dotted k r in (of_nat n # ws, False, r'))"
  using scan_u_number [of n "CHR ''.'' # r"] digit_sep by simp

lemma scan_dotted_address:
  assumes "a < 2 ^ 32" "b < 2 ^ 32" "c < 2 ^ 32" "d < 2 ^ 32" and "r = [] \<or> \<not> c_isdigit (hd r)"
  shows "scan_dotted 4 (dotted a b c d @ r) = ([of_nat a, of_nat b, of_nat c, of_nat d], False, r)"
proof -
  have four: "(4 :: nat) = Suc (Suc (Suc 1))" by simp
  have less: "a < 2 ^ 64" "b < 2 ^ 64" "c < 2 ^ 64" "d < 2 ^ 64" using assms(1-4) by simp_all
  have "scan_dotted 1 (show_nat d @ r) = ([of_nat d], False, r)"
    using scan_u_number [OF less(4) assms(5)] by simp
  then show ?thesis using less unfolding four by (simp add: dotted_def scan_dotted_number del: scan_dotted.simps)
qed

lemma scan_port_number:
  assumes "p < 2 ^ 32" and "s = pre @ CHR '':'' # show_nat p @ r" and "r = [] \<or> \<not> c_isdigit (hd r)"
  shows "scan_port s '':'' (CHR '':'' # show_nat p @ r) = Some (of_nat p, length s - length r)"
  using scan_u_number [OF _ assms(3), of p] assms(1) by (simp add: scan_port_def)

lemma end_of_address_number:
  "p < 2 ^ 32 \<Longrightarrow> end_of_address s (of_nat p) (length s) = (if p < 65535 then int (length s) else - 1)"
  by (simp add: end_of_address_def word_less_nat_alt unat_of_nat take_bit_nat_eq_self)

definition ip_of :: "nat \<Rightarrow> nat \<Rightarrow> nat \<Rightarrow> nat \<Rightarrow> u32" where
  "ip_of a b c d = ip_word [of_nat a, of_nat b, of_nat c, of_nat d]"

lemma parse_dotted:
  assumes "a < 2 ^ 32" "b < 2 ^ 32" "c < 2 ^ 32" "d < 2 ^ 32" "p < 2 ^ 32"
  defines "s \<equiv> dotted a b c d @ '':'' @ show_nat p"
  shows "mg_parse_address hosts junk n (''tcp://'' @ s) =
    Inr \<lparr>ad_rc = (if p < 65535 then int (length s) else - 1), ad_ip = ip_of a b c d, ad_port = of_nat p, ad_udp = False, ad_host = []\<rparr>"
proof -
  have "scan_dotted 4 s = ([of_nat a, of_nat b, of_nat c, of_nat d], False, '':'' @ show_nat p)"
    unfolding s_def by (rule scan_dotted_address) (use assms(1-4) digit_sep in simp_all)
  moreover have "scan_port s '':'' (CHR '':'' # show_nat p @ []) = Some (of_nat p, length s - length ([] :: string))"
    by (rule scan_port_number [OF assms(5), of s "dotted a b c d"]) (simp_all add: s_def)
  ultimately have "scan_ip_port s = Some (ip_of a b c d, of_nat p, length s)" by (simp add: scan_ip_port_def ip_of_def)
  then show ?thesis
    using end_of_address_number [OF assms(5), of s] assms(5)
    by (simp add: mg_parse_address_def unsigned_of_nat take_bit_nat_eq_self)
qed

text \<open>The four bytes of an address do not overlap.\<close>

lemma byte_or: "x < 256 \<Longrightarrow> push_bit 8 (of_nat y) OR of_nat x = (of_nat (y * 256 + x) :: u32)"
proof -
  assume x: "x < 256"
  have t: "(of_nat x :: u32) = take_bit 8 (of_nat x)" using x by (simp add: take_bit_of_nat take_bit_nat_eq_self)
  have "push_bit 8 (of_nat y) OR take_bit 8 (of_nat x) = push_bit 8 (of_nat y) + take_bit 8 (of_nat x :: u32)"
    by (rule disjunctive_add [symmetric]) (auto simp: bit_simps)
  then have "push_bit 8 (of_nat y) OR of_nat x = push_bit 8 (of_nat y) + (of_nat x :: u32)" unfolding t [symmetric] .
  then show ?thesis by (simp add: push_bit_eq_mult)
qed

lemma ip_of_bytes:
  assumes "b < 256" "c < 256" "d < 256"
  shows "ip_of a b c d = of_nat (((a * 256 + b) * 256 + c) * 256 + d)"
proof -
  have "ip_of a b c d = push_bit 8 (push_bit 8 (push_bit 8 (of_nat a) OR of_nat b) OR of_nat c) OR of_nat d"
    by (simp add: ip_of_def push_bit_or or.assoc)
  then show ?thesis using assms by (simp only: byte_or)
qed

section \<open>Names in the hosts file\<close>

definition host_name :: "string \<Rightarrow> bool" where
  "host_name h \<longleftrightarrow> h \<noteq> [] \<and> length h < 256 \<and> list_all (\<lambda>c. \<not> c_isspace c \<and> c \<noteq> NUL \<and> c \<noteq> CHR '':'') h
     \<and> \<not> c_isdigit (hd h) \<and> hd h \<noteq> CHR ''-'' \<and> hd h \<noteq> CHR ''+''"

lemma space_LF: "c_isspace CHR '' ''" "c_isspace LF"
  by (simp_all add: c_isspace_def char_code_def)

text \<open>
  What the lines of the file say: a comment, or an address with names behind white space. A line is
  one that \<open>fgets\<close> reads in one piece, a name one that fits into \<open>alias\<close>.
\<close>

datatype hosts_entry = Remark string | Names "nat \<times> nat \<times> nat \<times> nat" "(string \<times> string) list"

definition names_text :: "(string \<times> string) list \<Rightarrow> string" where
  "names_text ns = concat (map (\<lambda>(sep, n). sep @ n) ns) @ [LF]"

fun entry_text :: "hosts_entry \<Rightarrow> string" where
  "entry_text (Remark t) = ''#'' @ t @ [LF]"
| "entry_text (Names (a, b, c, d) ns) = dotted a b c d @ names_text ns"

definition name_ok :: "string \<times> string \<Rightarrow> bool" where
  "name_ok = (\<lambda>(sep, n). sep \<noteq> [] \<and> list_all (\<lambda>c. c_isspace c \<and> c \<noteq> LF) sep
     \<and> n \<noteq> [] \<and> length n < 256 \<and> list_all (\<lambda>c. \<not> c_isspace c \<and> c \<noteq> NUL) n)"

fun entry_ok :: "hosts_entry \<Rightarrow> bool" where
  "entry_ok (Remark t) = (length (entry_text (Remark t)) < 1024 \<and> LF \<notin> set t)"
| "entry_ok (Names (a, b, c, d) ns) = (length (entry_text (Names (a, b, c, d) ns)) < 1024 \<and> list_all name_ok ns
     \<and> a < 256 \<and> b < 256 \<and> c < 256 \<and> d < 256)"

text \<open>The address of the first entry that gives one to the name.\<close>

fun name_lookup :: "string \<Rightarrow> hosts_entry list \<Rightarrow> (nat \<times> nat \<times> nat \<times> nat) option" where
  "name_lookup h [] = None"
| "name_lookup h (Remark t # es) = name_lookup h es"
| "name_lookup h (Names ip ns # es) = (if h \<in> snd ` set ns then Some ip else name_lookup h es)"

lemma names_text_simps [simp]: "names_text [] = [LF]" "names_text ((sep, n) # ns) = sep @ n @ names_text ns"
  by (simp_all add: names_text_def)

lemma names_text_start: "list_all name_ok ns \<Longrightarrow> names_text ns \<noteq> [] \<and> c_isspace (hd (names_text ns))"
proof (cases ns)
  case (Cons q ns')
  obtain sep n where q: "q = (sep, n)" by (cases q)
  assume "list_all name_ok ns"
  then obtain x xs where "sep = x # xs" "c_isspace x" unfolding Cons q by (cases sep) (simp_all add: name_ok_def)
  then show ?thesis by (simp add: Cons q)
qed (simp add: space_LF)

lemma space_not_NUL: "c_isspace c \<Longrightarrow> c \<noteq> NUL"
  by (auto simp: c_isspace_def char_code_def)

lemma names_no_nul: "list_all name_ok ns \<Longrightarrow> no_nul (names_text ns)"
proof (induction ns)
  case (Cons q ns)
  obtain sep n where q: "q = (sep, n)" by (cases q)
  have "NUL \<notin> set sep" "NUL \<notin> set n"
    using Cons.prems space_not_NUL [of NUL] by (auto simp: q name_ok_def list_all_iff)
  moreover have "no_nul (names_text ns)" using Cons by simp
  ultimately show ?case by (auto simp: q no_nul_def list_all_iff)
qed (simp add: no_nul_def)

lemma scan_name:
  assumes "name_ok (sep, n)" and "r \<noteq> []" "c_isspace (hd r)"
  shows "scan_s (sep @ n @ r) = Matched n r"
proof -
  obtain x xs where n: "n = x # xs" "\<not> c_isspace x" "\<And>c. c \<in> set xs \<Longrightarrow> \<not> c_isspace c"
    using assms(1) by (cases n) (auto simp: name_ok_def list_all_iff)
  have "dropWhile c_isspace (sep @ n @ r) = n @ r"
    using assms(1) n(2) unfolding n(1) by (subst dropWhile_append2) (auto simp: name_ok_def list_all_iff)
  moreover have "takeWhile (\<lambda>c. \<not> c_isspace c) (n @ r) = n" "dropWhile (\<lambda>c. \<not> c_isspace c) (n @ r) = r"
    using n assms(2,3) by (cases r; auto simp: takeWhile_append dropWhile_append)+
  ultimately show ?thesis by (simp add: scan_s_def Let_def n(1))
qed

text \<open>The loop over the aliases finds exactly the names of the line.\<close>

lemma alias_names:
  assumes "list_all name_ok ns"
  shows "\<exists>n. alias_loop h (pre @ names_text ns @ NUL # post) (length pre) len = Inr (h \<in> snd ` set ns, n)"
  using assms
proof (induction ns arbitrary: pre len)
  case Nil
  have "scan_s (cstr (LF # NUL # post)) = InputEnd \<or> scan_s (cstr (LF # NUL # post)) = Mismatch"
    using space_LF by (simp add: cstr_def scan_s_def Let_def)
  then show ?case by (subst alias_loop.simps) auto
next
  case (Cons q ns)
  obtain sep n where q: "q = (sep, n)" by (cases q)
  have ok: "name_ok (sep, n)" "list_all name_ok ns" using Cons.prems by (simp_all add: q)
  let ?buf = "pre @ names_text (q # ns) @ NUL # post"
  have "cstr (drop (length pre) ?buf) = sep @ n @ names_text ns"
    using cstr_append_NUL [of "names_text (q # ns)" post] names_no_nul [OF Cons.prems] by (simp add: q)
  moreover have "scan_s (sep @ n @ names_text ns) = Matched n (names_text ns)"
    using scan_name [OF ok(1)] names_text_start [OF ok(2)] by blast
  moreover have "length n < 256" using ok(1) by (simp add: name_ok_def)
  ultimately have l: "alias_loop h ?buf (length pre) len
      = (if n = h then Inr (True, length (sep @ n)) else alias_loop h ?buf (length (pre @ sep @ n)) (length (sep @ n)))"
    by (subst alias_loop.simps) (simp add: add.assoc Let_def)
  show ?case
  proof (cases "n = h")
    case False
    have "?buf = (pre @ sep @ n) @ names_text ns @ NUL # post" by (simp add: q)
    with Cons.IH [OF ok(2), of "pre @ sep @ n" "length (sep @ n)"] obtain m
      where "alias_loop h ?buf (length (pre @ sep @ n)) (length (sep @ n)) = Inr (h \<in> snd ` set ns, m)" by metis
    then show ?thesis unfolding l using False by (auto simp: q)
  qed (use l in \<open>auto simp: q\<close>)
qed

lemma hosts_line:
  assumes "entry_ok (Names (a, b, c, d) ns)"
  shows "\<exists>st'. hosts_loop h (entry_text (Names (a, b, c, d) ns) # ls) st
    = (if h \<in> snd ` set ns then Inr (Some (ip_of a b c d)) else hosts_loop h ls st')"
proof -
  let ?l = "dotted a b c d @ names_text ns"
  have ok: "list_all name_ok ns" using assms by simp
  note start = names_text_start [OF ok]
  have "\<not> c_isdigit (hd (names_text ns))" using start by (auto simp: c_isspace_def c_isdigit_def char_code_def)
  then have sc: "scan_dotted 4 ?l = ([of_nat a, of_nat b, of_nat c, of_nat d], False, names_text ns)"
    by (intro scan_dotted_address) (use assms in simp_all)
  obtain x xs where x: "show_nat a = x # xs" by (cases "show_nat a") simp_all
  then have "x \<noteq> CHR ''#''" using show_nat_digits [of a] by (auto simp: c_isdigit_def char_code_def)
  then have nc: "take 1 ?l \<noteq> ''#''" using x by (simp add: dotted_def)
  have buf: "fgets_line ?l (hs_line st) = dotted a b c d @ names_text ns @ NUL # drop (length ?l + 1) (hs_line st)"
    by (simp add: fgets_line_def put_at_def)
  obtain n where n: "alias_loop h (fgets_line ?l (hs_line st)) (length (dotted a b c d)) (length (dotted a b c d))
      = Inr (h \<in> snd ` set ns, n)"
    using alias_names [OF ok] unfolding buf by blast
  show ?thesis unfolding entry_text.simps hosts_loop.simps(2) if_not_P [OF nc] Let_def sc split_conv
    using n by (auto simp: ip_of_def)
qed

lemma hosts_entries:
  assumes "list_all entry_ok es" and "name_lookup h es \<noteq> None \<or> rest = []"
  shows "hosts_loop h (map entry_text es @ rest) st = Inr (map_option (\<lambda>(a, b, c, d). ip_of a b c d) (name_lookup h es))"
  using assms
proof (induction es arbitrary: st)
  case (Cons e es)
  show ?case
  proof (cases e)
    case (Remark t)
    then show ?thesis using Cons by (simp add: Let_def)
  next
    case (Names ip ns)
    obtain a b c d where ip: "ip = (a, b, c, d)" by (cases ip)
    have "entry_ok (Names (a, b, c, d) ns)" using Cons.prems(1) by (simp add: Names ip)
    from hosts_line [OF this, of h "map entry_text es @ rest" st] show ?thesis
      using Cons by (auto simp: Names ip simp del: entry_text.simps hosts_loop.simps split: if_splits)
  qed
qed simp

lemma parse_name:
  assumes "host_name h" and "p < 2 ^ 32" and "length (h @ '':'' @ show_nat p) < n"
  defines "s \<equiv> h @ '':'' @ show_nat p"
  shows "mg_parse_address hosts junk n (''tcp://'' @ s) =
    rbind (mg_resolve_from_hosts_file hosts junk h) (\<lambda>r. Inr (case r of
      Some ip \<Rightarrow> \<lparr>ad_rc = (if p < 65535 then int (length s) else - 1), ad_ip = ip, ad_port = of_nat p, ad_udp = False, ad_host = h\<rparr>
    | None \<Rightarrow> \<lparr>ad_rc = (if mg_ncasecmp h ''localhost'' 9 \<noteq> 0 then 0 else - 1), ad_ip = 0, ad_port = of_nat p, ad_udp = False, ad_host = h\<rparr>))"
proof -
  have h: "h \<noteq> []" "\<not> c_isspace (hd h)" "\<not> c_isdigit (hd h)" "hd h \<noteq> CHR ''-''" "hd h \<noteq> CHR ''+''"
    "\<And>c. c \<in> set h \<Longrightarrow> c \<noteq> CHR '' '' \<and> c \<noteq> CHR '':''"
    using assms(1) space_LF by (auto simp: host_name_def list_all_iff)
  have "scan_u s = Mismatch" using h(1-5) by (cases h) (simp_all add: s_def scan_u_def Let_def)
  then have ip: "scan_ip_port s = None" by (simp add: scan_ip_port_def numeral_eq_Suc)
  have tw: "takeWhile (\<lambda>c. c \<notin> set '' :'') s = h" using h(6) by (auto simp: s_def takeWhile_append)
  have "scan_port s '':'' (CHR '':'' # show_nat p @ []) = Some (of_nat p, length s - length ([] :: string))"
    by (rule scan_port_number [OF assms(2), of s h]) (simp_all add: s_def)
  then have "scan_host_port s = Some (h, of_nat p, length s)" using h(1) tw by (simp add: scan_host_port_def s_def)
  moreover have "ucast (of_nat p :: u32) = (of_nat p :: u16)" using assms(2) by (simp add: unsigned_of_nat take_bit_nat_eq_self)
  ultimately show ?thesis
    using end_of_address_number [OF assms(2), of s] ip assms(3)
    by (simp add: mg_parse_address_def s_def)
      (cases "mg_resolve_from_hosts_file hosts junk h"; simp split: option.splits)
qed

section \<open>Properties of addresses\<close>

definition ip_value :: "nat \<times> nat \<times> nat \<times> nat \<Rightarrow> nat" where
  "ip_value = (\<lambda>(a, b, c, d). ((a * 256 + b) * 256 + c) * 256 + d)"

lemma ip_of_value: "a < 256 \<Longrightarrow> b < 256 \<Longrightarrow> c < 256 \<Longrightarrow> d < 256 \<Longrightarrow> ip_of a b c d = of_nat (ip_value (a, b, c, d))"
  using ip_of_bytes by (simp add: ip_value_def)

lemma name_lookup_value:
  "list_all entry_ok es \<Longrightarrow> map_option (\<lambda>(a, b, c, d). ip_of a b c d) (name_lookup h es) = map_option (\<lambda>ip. of_nat (ip_value ip)) (name_lookup h es)"
  by (induction h es rule: name_lookup.induct) (auto simp: ip_of_value)

text \<open>
  C35. A dotted address of four bytes is the number that it denotes. A name is looked for in the
  hosts file, in lines that are comments or give such an address any number of names behind
  white space: the first line that has it among its names gives the address; a name in no line
  is left to DNS, as when there is no hosts file, unless it begins with localhost, which is an error.
  When an address is found the result is the length of the text for ports below 65535, and an
  error above, so that port 65535 cannot be reached. (What comes behind the line that has the name does not matter.)
\<close>

theorem address_resolved:
  assumes "a < 256" "b < 256" "c < 256" "d < 256" and "p < 2 ^ 32" and "host_name h" and "length (h @ '':'' @ show_nat p) < n"
    and "list_all entry_ok es" and "name_lookup h es \<noteq> None \<or> rest = []"
  defines "dns \<equiv> \<lparr>ad_rc = (if mg_ncasecmp h ''localhost'' 9 \<noteq> 0 then 0 else - 1), ad_ip = 0, ad_port = of_nat p, ad_udp = False, ad_host = h\<rparr>"
  shows "mg_parse_address hosts junk n (''tcp://'' @ dotted a b c d @ '':'' @ show_nat p) =
      Inr \<lparr>ad_rc = (if p < 65535 then int (length (dotted a b c d @ '':'' @ show_nat p)) else - 1),
           ad_ip = of_nat (((a * 256 + b) * 256 + c) * 256 + d), ad_port = of_nat p, ad_udp = False, ad_host = []\<rparr>
    \<and> mg_parse_address (Some (map entry_text es @ rest)) junk n (''tcp://'' @ h @ '':'' @ show_nat p) =
      Inr (case name_lookup h es of
             Some ip \<Rightarrow> \<lparr>ad_rc = (if p < 65535 then int (length (h @ '':'' @ show_nat p)) else - 1),
               ad_ip = of_nat (ip_value ip), ad_port = of_nat p, ad_udp = False, ad_host = h\<rparr>
           | None \<Rightarrow> dns)
    \<and> mg_parse_address None junk n (''tcp://'' @ h @ '':'' @ show_nat p) = Inr dns"
proof -
  have less: "a < 2 ^ 32" "b < 2 ^ 32" "c < 2 ^ 32" "d < 2 ^ 32" using assms(1-4) by simp_all
  have found: "mg_resolve_from_hosts_file (Some (map entry_text es @ rest)) junk h
      = Inr (map_option (\<lambda>ip. of_nat (ip_value ip)) (name_lookup h es))"
    and none: "mg_resolve_from_hosts_file None junk h = Inr None"
    using hosts_entries [OF assms(8,9)] name_lookup_value [OF assms(8)] by (simp_all add: mg_resolve_from_hosts_file_def)
  note name = parse_name [OF assms(6,5,7)]
  show ?thesis
    using parse_dotted [OF less assms(5), of hosts junk n] ip_of_bytes [OF assms(2-4), of a] name [of _ junk] found none
    by (cases "name_lookup h es") (simp_all add: dns_def)
qed

theorem address_resolved_witness:
  "mg_parse_address (Some [''# names'' @ [LF], ''10.0.0.9 box'' @ [LF], ''127.0.0.1 localhost  home.lan db'' @ [LF], [LF]])
       \<lparr>hs_line = [], hs_ip = [], hs_len = 7\<rparr> 200 ''tcp://home.lan:8081'' =
     Inr \<lparr>ad_rc = 13, ad_ip = 0x7F000001, ad_port = 8081, ad_udp = False, ad_host = ''home.lan''\<rparr>"
proof -
  let ?es = "[Remark '' names'', Names (10, 0, 0, 9) [('' '', ''box'')],
    Names (127, 0, 0, 1) [('' '', ''localhost''), (''  '', ''home.lan''), ('' '', ''db'')]]"
  have h: "host_name ''home.lan''" by code_simp
  have n: "show_nat 8081 = ''8081''" "dotted 127 0 0 1 = ''127.0.0.1''" "dotted 10 0 0 9 = ''10.0.0.9''"
    by (simp_all add: show_nat.simps digit_chars dotted_def)
  have nl: "length (''home.lan'' @ '':'' @ show_nat 8081) < 200" by (simp add: n)
  have less: "(127 :: nat) < 256" "(0 :: nat) < 256" "(1 :: nat) < 256" "(8081 :: nat) < 2 ^ 32" by simp_all
  have ok: "list_all entry_ok ?es"
    by (simp add: n [simplified] name_ok_def c_isspace_def char_code_def names_text_def)
  have lk: "name_lookup ''home.lan'' ?es = Some (127, 0, 0, 1)" by simp
  have lk': "name_lookup ''home.lan'' ?es \<noteq> None \<or> [[LF]] = []" unfolding lk by simp
  note r = conjunct1 [OF conjunct2 [OF address_resolved [OF less(1,2,2,3,4) h nl ok lk']]]
  show ?thesis
    using r [of "\<lparr>hs_line = [], hs_ip = [], hs_len = 7\<rparr>"] unfolding lk
    by (simp add: n names_text_def ip_value_def del: One_nat_def)
qed

text \<open>
  A line without numbers is searched for aliases at the place where the last one was found, with
  the address of the line before: the end of an alias gets the address of the whole.
\<close>

lemma hosts_stale:
  "mg_resolve_from_hosts_file (Some [''10.0.0.1 backup-other-db'' @ [LF], [LF]])
     \<lparr>hs_line = replicate 32 NUL, hs_ip = [0, 0, 0, 0], hs_len = 0\<rparr> ''other-db'' = Inr (Some 0x0A000001)"
proof -
  let ?l = "''10.0.0.1 backup-other-db'' @ [LF]" and ?st = "\<lparr>hs_line = replicate 32 NUL, hs_ip = [0, 0, 0, 0], hs_len = 0\<rparr>"
  let ?b1 = "fgets_line ?l (replicate 32 NUL)" and ?name = "''other-db''"
  have sc: "scan_dotted 4 ?l = ([10, 0, 0, 1], False, '' backup-other-db'' @ [LF])"
    using scan_dotted_address [of 10 0 0 1 "'' backup-other-db'' @ [LF]"] digit_sep
    by (simp add: show_nat.simps digit_chars dotted_def)
  have blank: "scan_dotted 4 [LF] = ([], True, [LF])"
    using scan_dotted.simps(2) [of 3 "[LF]"] space_LF by (simp add: scan_u_def)
  have names: "scan_s ('' backup-other-db'' @ [LF]) = Matched ''backup-other-db'' [LF]" "scan_s [LF] = InputEnd"
    "scan_s (''other-db'' @ [LF]) = Matched ''other-db'' [LF]" by code_simp+
  have "alias_loop ?name ?b1 24 16 = Inr (False, 16)"
    using names(2) by (subst alias_loop.simps) (simp add: fgets_line_def put_at_def cstr_def)
  then have "alias_loop ?name ?b1 8 8 = Inr (False, 16)"
    using names(1) by (subst alias_loop.simps) (simp add: fgets_line_def put_at_def cstr_def numeral_eq_Suc)
  moreover have "alias_loop ?name (fgets_line [LF] ?b1) 16 16 = Inr (True, 8)"
    using names(3) by (subst alias_loop.simps) (simp add: fgets_line_def put_at_def cstr_def numeral_eq_Suc)
  ultimately show ?thesis using sc blank
    by (simp add: mg_resolve_from_hosts_file_def Let_def numeral_eq_Suc del: scan_dotted.simps)
qed

section \<open>URLs of requests\<close>

text \<open>With the scheme http and perhaps a user, or beginning with the host.\<close>

definition http_url :: "bool \<Rightarrow> string \<Rightarrow> string \<Rightarrow> u32 \<Rightarrow> string \<Rightarrow> string \<Rightarrow> string" where
  "http_url sch user host port path query =
     (if sch then uri_text ''http'' user host port path query [] else host @ port_text port @ uri_tail path query [])"

definition url_ok :: "bool \<Rightarrow> string \<Rightarrow> string \<Rightarrow> string \<Rightarrow> string \<Rightarrow> bool" where
  "url_ok sch user host path query \<longleftrightarrow> path \<noteq> [] \<and> tail_ok path query [] \<and> user_ok user \<and> plain_host host \<and> (sch \<or> user = [])"

definition addr_text :: "string \<Rightarrow> u32 \<Rightarrow> string" where
  "addr_text host port = ''tcp://'' @ host @ '':'' @ show_nat (unat (if port = 0 then 80 else port))"

lemma vcmp_http: "mg_vcmp ''http'' ''http'' = 0"
  by code_simp

lemma url_parsed:
  assumes ok: "url_ok sch user host path query" and u: "u = http_url sch user host port path query"
  shows "\<exists>r pre. mg_parse_uri u NUL = Some r \<and> (ms_len (us_scheme r) = 0 \<or> mg_vcmp (slice u (us_scheme r)) ''http'' = 0)
     \<and> us_port r = port \<and> slice u (us_user_info r) = user \<and> ms_len (us_user_info r) = length user
     \<and> u = pre @ host @ port_text port @ uri_tail path query [] \<and> us_host r = ms_at (length pre) (length host)
     \<and> tail_read u path query [] r"
proof (cases sch)
  case True
  have "scheme_ok ''http''" "host_ok host" using ok by (auto simp: scheme_ok_def host_ok_def url_ok_def plain_host_def list_all_iff)
  moreover have "u = uri_text ''http'' user host port path query []" using u True by (simp add: http_url_def)
  ultimately obtain r where r: "mg_parse_uri u NUL = Some r" "slice u (us_scheme r) = ''http''" "slice u (us_user_info r) = user"
    "us_port r = port" "tail_read u path query [] r" "us_host r = ms_at (length (''http'' @ ''://'' @ user_text user)) (length host)"
    "ms_len (us_user_info r) = length user"
    using uri_parsed [of "''http''" user host path query "[]" u port NUL] ok unfolding url_ok_def by blast
  then show ?thesis using u True vcmp_http
    by (intro exI [of _ r] exI [of _ "''http'' @ ''://'' @ user_text user"]) (simp add: http_url_def uri_text_def)
next
  case False
  then have u1: "u = host @ port_text port @ uri_tail path query []" using u by (simp add: http_url_def)
  obtain r where "mg_parse_uri u NUL = Some r" "us_scheme r = ms_null" "us_user_info r = ms_null"
    "us_host r = ms_at 0 (length host)" "us_port r = port" "tail_read u path query [] r"
    using uri_parsed_plain [OF _ _ u1, of NUL] ok unfolding url_ok_def by blast
  then show ?thesis using u1 ok False
    by (intro exI [of _ r] exI [of _ "[]"]) (simp add: ms_null_def slice_def url_ok_def)
qed

text \<open>The path with its query, the host with its port.\<close>

lemma base_request:
  assumes ok: "url_ok sch user host path query" and u: "u = http_url sch user host port path query" and "ce_addr_mem env"
  shows "\<exists>ps us hs. mg_connect_http_base env u = rbind (mg_connect_opt env (addr_text host port)) (\<lambda>nc. Inr (nc, ps, us, hs))
     \<and> slice u ps = uri_tail path query [] \<and> slice u us = user \<and> ms_len us = length user
     \<and> host_text u ps hs = Inr (host @ port_text port)"
proof -
  let ?t = "uri_tail path query []"
  obtain r pre where r: "mg_parse_uri u NUL = Some r" "ms_len (us_scheme r) = 0 \<or> mg_vcmp (slice u (us_scheme r)) ''http'' = 0"
    "us_port r = port" "slice u (us_user_info r) = user" "ms_len (us_user_info r) = length user"
    "u = pre @ host @ port_text port @ ?t" "us_host r = ms_at (length pre) (length host)" "tail_read u path query [] r"
    using url_parsed [OF ok u] by blast
  let ?k = "length (pre @ host @ port_text port)"
  have ne: "path \<noteq> []" "host \<noteq> []" using ok by (simp_all add: url_ok_def plain_host_def)
  have q: "us_path r = ms_at ?k (length path)" "ms_len (us_query r) = length query" using r(6,8) ne(1) by (simp_all add: tail_read_def)
  have ps: "(if ms_len (us_query r) > 0 then (us_path r)\<lparr>ms_len := ms_len (us_path r) + (ms_len (us_query r) + 1)\<rparr> else us_path r)
      = ms_at ?k (length ?t)"
    by (simp add: q uri_tail_def tail_pieces_def ms_at_def)
  have hs: "slice u (us_host r) = host" using slice_split [OF r(6)] r(7) by simp
  have base: "mg_connect_http_base env u = rbind (mg_connect_opt env (addr_text host port)) (\<lambda>nc. Inr (nc, ms_at ?k (length ?t), us_user_info r, us_host r))"
    unfolding mg_connect_http_base_def r(1) option.case Let_def ps
    using r(2,3) assms(3) by (simp add: hs addr_text_def)
  have "u = (pre @ host @ port_text port) @ ?t @ []" using r(6) by simp
  from slice_split [OF this] have st: "slice u (ms_at ?k (length ?t)) = ?t" .
  have "?t \<noteq> []" using ne(1) by (simp add: uri_tail_def)
  then have "host_text u (ms_at ?k (length ?t)) (us_host r) = Inr (host @ port_text port)"
    using r(6,7) ne(2) by (simp add: host_text_def ptr_def Let_def)
  then show ?thesis using base st r(4,5) by blast
qed

section \<open>The request that is written\<close>

definition auth_text :: "string \<Rightarrow> string" where
  "auth_text user = (if user \<noteq> [] then ''Authorization: Basic '' @ b64_spec (string_bytes user) @ crlf else [])"

definition request_text :: "string \<Rightarrow> string \<Rightarrow> string \<Rightarrow> string \<Rightarrow> string \<Rightarrow> string" where
  "request_text user hostport target extra post =
     (if post = [] then ''GET'' else ''POST'') @ '' '' @ target @ '' HTTP/1.1'' @ crlf
     @ ''Host: '' @ hostport @ crlf @ ''Content-Length: '' @ show_nat (length post) @ crlf @ auth_text user @ extra @ crlf @ post"

lemma bytes_string [simp]: "bytes_text (string_bytes s) = s"
  by (simp add: bytes_text_def string_bytes_def char_of_unat [unfolded fun_eq_iff] comp_def)

lemma auth_written:
  assumes "ample ra" and "length (auth_text user) < 2 ^ 62" and "user \<noteq> []"
  shows "\<exists>m. mg_basic_auth_header (ra, mbuf_init ra 0) user = Inr m \<and> mbuf_data (snd m) = string_bytes (auth_text user)"
proof -
  let ?out = "cs_out (cs_base64_finish (cs_base64_update cs_base64_init (string_bytes user)))"
  let ?ps = "[string_bytes ''Authorization: Basic ''] @ map (\<lambda>c. string_bytes [c]) ?out @ [string_bytes crlf]"
  have "?out = b64_spec (string_bytes user)" using cs_stream_spec [of "[]" "string_bytes user"] by (simp add: cs_base64_init_def)
  moreover have "concat (map (\<lambda>c. string_bytes [c]) s) = string_bytes s" for s by (induction s) (simp_all add: string_bytes_def)
  ultimately have c: "concat ?ps = string_bytes (auth_text user)" using assms(3) by (simp add: auth_text_def) (simp add: string_bytes_def)
  then have "length (concat ?ps) < 2 ^ 62" using assms(2) by (simp only: string_bytes_simps)
  from ample_append_all [OF assms(1) this] show ?thesis unfolding c mg_basic_auth_header_def Let_def by fastforce
qed

lemma send_written:
  assumes "ample ra" and "io_send s = mbuf_init ra 0" and "length bs < 2 ^ 31"
  shows "\<exists>a. mg_send ra bs s = Inr (s\<lparr>io_send := a\<rparr>) \<and> mbuf_data a = bs \<and> heap_ok (ra, a)"
proof -
  have m: "ample_heap (ra, mbuf_init ra 0)" "mbuf_data (mbuf_init ra 0) = []"
    using assms(1) by (simp_all add: ample_heap_def heap_ok_def mbuf_ok_def mbuf_init_def mbuf_resize_def ample_def mbuf_data_def)
  obtain a where "send_mbuf ra bs (mbuf_init ra 0) = Inr a" "ample_heap (ra, a)" "mbuf_data a = bs"
    using send_ample [OF m(1) _ assms(3)] assms(3) m(2) by auto
  then show ?thesis using assms(2) by (auto simp: mg_send_def ample_heap_def)
qed

text \<open>A connection on which \<open>connect\<close> has been called, and nothing has happened yet.\<close>

definition started :: "conn_env \<Rightarrow> nat \<Rightarrow> io \<Rightarrow> bool" where
  "started env fd s \<longleftrightarrow> io_sock s = Some fd \<and> io_connecting s \<and> \<not> io_resolving s \<and> \<not> io_finish s \<and> io_err s = 0 \<and> io_taken s = []
     \<and> idle (io_conn s) \<and> \<not> nc_close (io_conn s) \<and> \<not> nc_ws (io_conn s) \<and> nc_limit (io_conn s) = size_max
     \<and> heap_ok (ce_ra env, io_send s)"

lemma connect_started:
  assumes "ce_conn_mem env" and "mg_parse_address (ce_hosts env) (ce_junk env) MG_MAX_HOST_LEN addr = Inr ad" and "0 < ad_rc ad"
    and "ce_socket env = Inr fd" and "\<And>e. ce_connect env (ad_ip ad) (ad_port ad) \<noteq> SysErr e" and "ample (ce_ra env)"
  shows "\<exists>s. mg_connect_opt env addr = Inr (Some s) \<and> started env fd s \<and> io_sa s = (ad_ip ad, ad_port ad) \<and> io_send s = mbuf_init (ce_ra env) 0"
proof -
  have "heap_ok (ce_ra env, mbuf_init (ce_ra env) 0)"
    using assms(6) by (simp add: heap_ok_def ample_def mbuf_ok_def mbuf_init_def mbuf_resize_def)
  then show ?thesis using assms(1-5)
    by (auto simp: mg_connect_opt_def mg_create_connection_def mg_do_connect_def mg_socket_if_connect_tcp_def started_def idle_def
        split: sys.splits)
qed

lemma http_started:
  fixes extra post :: string
  assumes "url_ok sch user host path query" and "ample (ce_ra env)" and "ce_conn_mem env" and "ce_addr_mem env"
    and "mg_parse_address (ce_hosts env) (ce_junk env) MG_MAX_HOST_LEN (addr_text host port) = Inr ad" and "0 < ad_rc ad"
    and "ce_socket env = Inr fd" and "\<And>e. ce_connect env (ad_ip ad) (ad_port ad) \<noteq> SysErr e"
  defines "t \<equiv> request_text user (host @ port_text port) (uri_tail path query []) extra post"
  assumes "length t < 2 ^ 31"
  shows "\<exists>s. mg_connect_http env (http_url sch user host port path query) extra post = Inr (Some s) \<and> started env fd s
       \<and> io_sa s = (ad_ip ad, ad_port ad) \<and> stream s = (if ce_text_mem env \<or> length t < 100 then string_bytes t else [])"
proof -
  let ?u = "http_url sch user host port path query"
  obtain ps us hs where b: "mg_connect_http_base env ?u = rbind (mg_connect_opt env (addr_text host port)) (\<lambda>nc. Inr (nc, ps, us, hs))"
    "slice ?u ps = uri_tail path query []" "slice ?u us = user" "ms_len us = length user" "host_text ?u ps hs = Inr (host @ port_text port)"
    using base_request [OF assms(1) refl assms(4)] by blast
  obtain s where s: "mg_connect_opt env (addr_text host port) = Inr (Some s)" "started env fd s" "io_sa s = (ad_ip ad, ad_port ad)"
    "io_send s = mbuf_init (ce_ra env) 0" using connect_started [OF assms(3,5,6,7,8,2)] by blast
  have big: "length (auth_text user) < 2 ^ 62" using assms(10) by (simp add: t_def request_text_def)
  obtain m where m: "(if ms_len us > 0 then mg_basic_auth_header (ce_ra env, mbuf_init (ce_ra env) 0) (slice ?u us)
      else Inr (ce_ra env, mbuf_init (ce_ra env) 0)) = Inr m" "bytes_text (mbuf_data (snd m)) = auth_text user"
  proof (cases "user = []")
    case True
    have "mbuf_data (mbuf_init (ce_ra env) 0) = []" by (simp add: mbuf_data_def mbuf_init_def mbuf_resize_def)
    then show ?thesis using True b(4) that [of "(ce_ra env, mbuf_init (ce_ra env) 0)"] by (simp add: auth_text_def bytes_text_def)
  next
    case False
    then show ?thesis using auth_written [OF assms(2) big] b(3,4) that by fastforce
  qed
  have run: "mg_connect_http env ?u extra post = rbind (mg_vprintf env t s) (\<lambda>s1. Inr (Some s1))"
    unfolding mg_connect_http_def mg_connect_http_opt_def b(1) s(1) rbind_Inr split_conv option.case m(1) b(2,5) m(2)
    by (simp add: t_def request_text_def)
  have ne: "0 < length t" by (simp add: t_def request_text_def)
  show ?thesis
  proof (cases "ce_text_mem env \<or> length t < 100")
    case True
    obtain a where a: "mg_send (ce_ra env) (string_bytes t) s = Inr (s\<lparr>io_send := a\<rparr>)" "mbuf_data a = string_bytes t" "heap_ok (ce_ra env, a)"
      using send_written [OF assms(2) s(4), of "string_bytes t"] assms(10) by auto
    have "mg_vprintf env t s = Inr (s\<lparr>io_send := a\<rparr>)"
      using True ne assms(10) a(1) by (auto simp: mg_vprintf_def MG_VPRINTF_BUFFER_SIZE_def)
    then show ?thesis using run s(2,3) a(2,3) True by (simp add: started_def stream_def)
  next
    case False
    have "stream s = []" using s(2,4) by (simp add: started_def stream_def mbuf_data_def mbuf_init_def mbuf_resize_def)
    moreover have "mg_vprintf env t s = Inr s" using False assms(10) by (simp add: mg_vprintf_def MG_VPRINTF_BUFFER_SIZE_def)
    ultimately show ?thesis using run s(2,3) False by simp
  qed
qed

text \<open>
  C33. For a URL with a path, whose host resolves to an address, \<open>mg_connect_http\<close> starts to connect
  to this address and writes exactly this request: the method, the path with its query, the host
  as it is in the URL, the length of the data, the user in base64, the extra headers, the data.
  When there is no memory for a text of 100 characters or more, the connection is made all the
  same and the request is lost. A URL with the scheme https gives no connection.
\<close>

theorem request_written:
  fixes extra post :: string
  assumes "url_ok sch user host path query" and "ample (ce_ra env)" and "ce_conn_mem env" and "ce_addr_mem env"
    and "mg_parse_address (ce_hosts env) (ce_junk env) MG_MAX_HOST_LEN (addr_text host port) = Inr ad" and "0 < ad_rc ad"
    and "ce_socket env = Inr fd" and "\<And>e. ce_connect env (ad_ip ad) (ad_port ad) \<noteq> SysErr e"
  defines "t \<equiv> request_text user (host @ port_text port) (uri_tail path query []) extra post"
  assumes "length t < 2 ^ 31"
  shows "(\<exists>s. mg_connect_http env (http_url sch user host port path query) extra post = Inr (Some s) \<and> started env fd s
       \<and> io_sa s = (ad_ip ad, ad_port ad) \<and> stream s = (if ce_text_mem env \<or> length t < 100 then string_bytes t else []))
    \<and> mg_connect_http env (''https'' @ drop 4 (uri_text ''http'' user host port path query [])) extra post = Inr None"
proof
  show "\<exists>s. mg_connect_http env (http_url sch user host port path query) extra post = Inr (Some s) \<and> started env fd s
       \<and> io_sa s = (ad_ip ad, ad_port ad) \<and> stream s = (if ce_text_mem env \<or> length t < 100 then string_bytes t else [])"
    unfolding t_def by (rule http_started [OF assms(1-8) assms(10) [unfolded t_def]])
next
  let ?u = "''https'' @ drop 4 (uri_text ''http'' user host port path query [])"
  have u: "?u = uri_text ''https'' user host port path query []" by (simp add: uri_text_def)
  have ok: "scheme_ok ''https''" "user_ok user" "host_ok host" "tail_ok path query []"
    using assms(1) by (auto simp: scheme_ok_def host_ok_def url_ok_def plain_host_def list_all_iff)
  obtain r where r: "mg_parse_uri ?u NUL = Some r" "slice ?u (us_scheme r) = ''https''" "us_scheme r = ms_at 0 (length ''https'')"
    using uri_parsed [OF ok u, of NUL] by blast
  have "mg_vcmp ''https'' ''http'' \<noteq> 0" by code_simp
  moreover have "ms_len (us_scheme r) \<noteq> 0" using r(3) by simp
  ultimately have "\<not> (ms_len (us_scheme r) = 0 \<or> mg_vcmp (slice ?u (us_scheme r)) ''http'' = 0)"
    unfolding r(2) by blast
  then show "mg_connect_http env ?u extra post = Inr None"
    by (simp only: mg_connect_http_def mg_connect_http_opt_def mg_connect_http_base_def r(1) option.case Let_def
        simp_thms if_False rbind_Inr split_conv)
qed

definition ex_env :: conn_env where
  "ex_env = \<lparr>ce_conn_mem = True, ce_addr_mem = True, ce_text_mem = True,
     ce_ra = (\<lambda>n. if n < 2 ^ 62 then Some (4096, \<lambda>i. 0) else None), ce_hosts = None,
     ce_junk = \<lparr>hs_line = [], hs_ip = [], hs_len = 0\<rparr>, ce_resolve = (\<lambda>h. 0), ce_socket = Inr 3, ce_connect = (\<lambda>ip port. SysAgain)\<rparr>"

lemma ex_ample: "ample (ce_ra ex_env)"
  by (auto simp: ex_env_def ample_def ra_ok_def size_max_def)

lemma ex_numbers: "show_nat 127 = ''127''" "show_nat 0 = ''0''" "show_nat 1 = ''1''" "show_nat 8081 = ''8081''" "show_nat (Suc (Suc 0)) = ''2''"
  by (simp_all add: show_nat.simps digit_chars numeral_2_eq_2 [symmetric] del: One_nat_def)

lemma ex_address:
  "mg_parse_address (ce_hosts ex_env) (ce_junk ex_env) MG_MAX_HOST_LEN (addr_text ''127.0.0.1'' 8081) =
     Inr \<lparr>ad_rc = 14, ad_ip = ip_of 127 0 0 1, ad_port = 8081, ad_udp = False, ad_host = []\<rparr>"
proof -
  have n: "dotted 127 0 0 1 = ''127.0.0.1''" by (simp add: dotted_def ex_numbers del: One_nat_def)
  have less: "(127 :: nat) < 2 ^ 32" "(0 :: nat) < 2 ^ 32" "(1 :: nat) < 2 ^ 32" "(8081 :: nat) < 2 ^ 32" by simp_all
  show ?thesis using parse_dotted [OF less(1,2,2,3,4)] by (simp add: n addr_text_def ex_numbers del: One_nat_def)
qed

theorem request_written_witness:
  "\<exists>s. mg_connect_http ex_env ''127.0.0.1:8081/x?y'' [] ''{}'' = Inr (Some s) \<and> io_sock s = Some 3
     \<and> stream s = string_bytes (''POST /x?y HTTP/1.1'' @ crlf @ ''Host: 127.0.0.1:8081'' @ crlf @ ''Content-Length: 2'' @ crlf @ crlf @ ''{}'')"
proof -
  have url: "url_ok False [] ''127.0.0.1'' ''/x'' ''y''" by (simp add: url_ok_def tail_ok_def user_ok_def plain_host_def)
  have t: "request_text [] (''127.0.0.1'' @ port_text 8081) (uri_tail ''/x'' ''y'' []) [] ''{}'' =
      ''POST /x?y HTTP/1.1'' @ crlf @ ''Host: 127.0.0.1:8081'' @ crlf @ ''Content-Length: 2'' @ crlf @ crlf @ ''{}''"
    by (simp add: request_text_def port_text_def uri_tail_def tail_pieces_def auth_text_def ex_numbers)
  have "http_url False [] ''127.0.0.1'' 8081 ''/x'' ''y'' = ''127.0.0.1:8081/x?y''"
    by (simp add: http_url_def port_text_def uri_tail_def tail_pieces_def ex_numbers)
  moreover have env: "ce_conn_mem ex_env" "ce_addr_mem ex_env" "ce_text_mem ex_env" "ce_socket ex_env = Inr 3"
    "\<And>ip p e. ce_connect ex_env ip p \<noteq> SysErr e"
    by (simp_all add: ex_env_def)
  moreover have len: "length (request_text [] (''127.0.0.1'' @ port_text 8081) (uri_tail ''/x'' ''y'' []) [] ''{}'') < 2 ^ 31"
    unfolding t by (simp add: crlf_def)
  moreover have "\<exists>s. mg_connect_http ex_env (http_url False [] ''127.0.0.1'' 8081 ''/x'' ''y'') [] ''{}'' = Inr (Some s) \<and> io_sock s = Some 3
     \<and> stream s = string_bytes (request_text [] (''127.0.0.1'' @ port_text 8081) (uri_tail ''/x'' ''y'' []) [] ''{}'')"
    using conjunct1 [OF request_written [OF url ex_ample env(1,2) ex_address _ env(4,5) len]] env(3) unfolding started_def by simp blast
  ultimately show ?thesis unfolding t by simp
qed

end
