(* ===== verification/MgNet.thy ===== *)
theory MgNet
  imports MgConnect
begin

text \<open>
  A post over a socket: \<open>http_post\<close> on \<open>mg_connect_http\<close> and the polls of the socket interface. The
  events that \<open>CrestHttp\<close> takes as a parameter are computed here from what the system
  does with the socket in each poll. The manager may still hold the connections of earlier
  posts, as long as they have nothing left to send.
\<close>

section \<open>Polls of one connection\<close>

lemma one_poll:
  assumes "mg_mgr_handle_conn ra ph fin (sps fd) (fd_flags (sps fd) s) s = Some (Inr (Some s', es))" and "io_sock s = Some fd"
  shows "mg_socket_if_poll ra ph fin sps [s] = Some (Inr ([s'], es))"
  using assms by (simp add: sock_of_def)

lemma polls_snoc:
  "mgr_polls ra ph fin spss ss = Some (Inr (ss1, ess)) \<Longrightarrow> mg_socket_if_poll ra ph fin sps ss1 = Some (Inr (ss2, es)) \<Longrightarrow>
    mgr_polls ra ph fin (spss @ [sps]) ss = Some (Inr (ss2, ess @ [es]))"
  by (induction spss arbitrary: ss ess) (auto split: option.splits sum.splits prod.splits)

text \<open>What the socket has delivered in the first polls.\<close>

definition arrived_upto :: "(nat \<Rightarrow> nat \<Rightarrow> sock_poll) \<Rightarrow> nat \<Rightarrow> nat \<Rightarrow> string" where
  "arrived_upto sps fd k = concat (map (\<lambda>i. arrived (sps i fd)) [0..<k])"

lemma arrived_upto_simps [simp]:
  "arrived_upto sps fd 0 = []" "arrived_upto sps fd (Suc k) = arrived_upto sps fd k @ arrived (sps k fd)"
  by (simp_all add: arrived_upto_def)

lemma arrived_upto_prefix: "j \<le> k \<Longrightarrow> \<exists>r. arrived_upto sps fd k = arrived_upto sps fd j @ r"
  by (induction k) (auto simp: le_Suc_eq)

lemma quiet_idle: "quiet_evs client_ev es \<Longrightarrow> list_all idle_event (map user_ev es)"
proof -
  have "idle_event (user_ev (client_ev e))" if "quiet e" for e using that by (cases e) auto
  then show "quiet_evs client_ev es \<Longrightarrow> list_all idle_event (map user_ev es)" by (auto simp: quiet_evs_def list_all_iff)
qed

section \<open>A connection that waits for a reply\<close>

lemma arriving_len: "arriving H pl m c \<Longrightarrow> nc_len c \<le> m"
proof (cases pl)
  case (Chunked cs z)
  assume "arriving H pl m c"
  then show ?thesis using Chunked chunks_data_le by (force split: if_splits)
qed simp

lemma recv_text_trim [simp]: "recv_text (c\<lparr>nc_buf := recv_text c\<rparr>) = recv_text c"
  by (simp add: recv_text_def)

lemma arriving_cong:
  assumes "nc_rcvd c' = nc_rcvd c" "nc_len c' = nc_len c" "nc_body c' = nc_body c" "recv_text c' = recv_text c"
  shows "arriving H pl m c' = arriving H pl m c"
  by (cases pl) (simp_all only: arriving.simps assms)

lemma arriving_trim: "arriving H pl m c \<Longrightarrow> arriving H pl m (c\<lparr>nc_buf := recv_text c\<rparr>)"
  using arriving_cong [of "c\<lparr>nc_buf := recv_text c\<rparr>" c H pl m] by simp

text \<open>It has received \<open>m\<close> characters of the reply; \<open>req\<close> are the bytes of the request, sent or not.\<close>

definition waiting :: "reallocator \<Rightarrow> nat \<Rightarrow> u8 list \<Rightarrow> string \<Rightarrow> payload \<Rightarrow> nat \<Rightarrow> io \<Rightarrow> bool" where
  "waiting ra fd req H pl m s \<longleftrightarrow> arriving H pl m (io_conn s) \<and> \<not> nc_ws (io_conn s) \<and> \<not> nc_close (io_conn s)
     \<and> nc_limit (io_conn s) = size_max \<and> \<not> io_finish s \<and> io_err s = 0 \<and> io_sock s = Some fd \<and> heap_ok (ra, io_send s) \<and> stream s = req"

lemma started_waiting: "started env fd s \<Longrightarrow> waiting (ce_ra env) fd (stream s) (response_head proto code msg hs) pl 0 s"
  by (simp add: started_def waiting_def arriving_start)

text \<open>
  The connection of an earlier post: \<open>ev_handler\<close> has set \<open>MG_F_SEND_AND_CLOSE\<close>, and the request is out. It
  is closed in the next poll.
\<close>

definition spent :: "io \<Rightarrow> bool" where
  "spent s \<longleftrightarrow> io_finish s \<and> mb_len (io_send s) = 0 \<and> idle (io_conn s) \<and> \<not> nc_ws (io_conn s)"

lemma close_idle: "nc_len c = 0 \<Longrightarrow> snd (http_close crest_deletes c) = [HClose]"
  by (simp add: http_close_def Let_def mg_call_def split: prod.splits)

lemma spent_closed:
  "spent s \<Longrightarrow> mg_mgr_handle_conn ra (http_proto ws crest_deletes) crest_finishes sp flags s = Some (Inr (None, [HClose]))"
  using close_idle [of "(io_conn s)\<lparr>nc_close := True\<rparr>"]
  by (cases flags; cases "http_close crest_deletes ((io_conn s)\<lparr>nc_close := True\<rparr>)")
    (auto simp: mg_mgr_handle_conn_def mg_if_poll_def mg_close_conn_def call_proto_def close_now_def spent_def idle_def)

lemma spent_polled:
  "list_all spent old \<Longrightarrow> mg_socket_if_poll ra (http_proto ws crest_deletes) crest_finishes sps old
    = Some (Inr ([], replicate (length old) HClose))"
  by (induction old) (simp_all add: spent_closed del: http_proto.simps)

abbreviation client_poll :: "reallocator \<Rightarrow> proto \<Rightarrow> (nat \<Rightarrow> sock_poll) \<Rightarrow> io list \<Rightarrow> (io list \<times> http_ev list) res option" where
  "client_poll ra ws \<equiv> mg_socket_if_poll ra (http_proto ws crest_deletes) crest_finishes"

abbreviation client_polls :: "reallocator \<Rightarrow> proto \<Rightarrow> (nat \<Rightarrow> sock_poll) list \<Rightarrow> io list \<Rightarrow> (io list \<times> http_ev list list) res option" where
  "client_polls ra ws \<equiv> mgr_polls ra (http_proto ws crest_deletes) crest_finishes"

lemma waiting_open:
  assumes "waiting ra fd req H pl m s" and "m < 2 ^ 31"
  shows "open_io (\<lambda>c. \<not> nc_ws c) s"
  using assms arriving_len [of H pl m "io_conn s"]
  by (auto simp: waiting_def open_io_def size_max_def MG_TCP_IO_SIZE_def)

text \<open>One poll: the connection goes on waiting, or the reply is delivered.\<close>

lemma poll_step:
  assumes p: "plain_reply proto code msg hs" and a: "announced hs pl"
  defines "H \<equiv> response_head proto code msg hs"
  assumes big: "length (H @ wire pl) < 2 ^ 31" and w: "waiting ra fd req H pl m s" and m: "m < length (H @ wire pl)"
    and seg: "arrived (sps fd) = take (length (arrived (sps fd))) (drop m (H @ wire pl))" and sp: "calm (sps fd)" "honest (sps fd)"
  shows "if m + length (arrived (sps fd)) < length (H @ wire pl)
    then \<exists>s' es. client_poll ra ws sps [s] = Some (Inr ([s'], es)) \<and> list_all idle_event (map user_ev es)
      \<and> waiting ra fd req H pl (m + length (arrived (sps fd))) s' \<and> (takes (sps fd) \<longrightarrow> progress s s')
    else \<exists>s' pre t hm post. client_poll ra ws sps [s] = Some (Inr ([s'], pre @ HReply t hm # post))
      \<and> list_all idle_event (map user_ev pre) \<and> list_all idle_event (map user_ev post)
      \<and> hm_resp_code hm = int code \<and> slice t (hm_body hm) = payload_data pl \<and> (mbuf_data (io_send s') = [] \<longrightarrow> spent s')"
proof -
  let ?seg = "arrived (sps fd)" and ?m = "m + length (arrived (sps fd))" and ?W = "H @ wire pl"
  have s: "arriving H pl m (io_conn s)" "\<not> nc_ws (io_conn s)" "\<not> nc_close (io_conn s)" "nc_limit (io_conn s) = size_max"
    "io_sock s = Some fd" "heap_ok (ra, io_send s)" "stream s = req" using w by (simp_all add: waiting_def)
  have o: "open_io (\<lambda>c. \<not> nc_ws c) s" by (rule waiting_open [OF w]) (use m big in simp)
  note run = http_client.handle_calm [OF o sp s(6), where ws = ws]
  have "length ?seg \<le> length (drop m ?W)" using arg_cong [OF seg, of length] unfolding length_take by linarith
  then have le: "?m \<le> length ?W" using m by simp
  have lim: "nc_limit (io_conn s) = 0 \<or> length ?W < nc_limit (io_conn s)" using s(4) big by (simp add: size_max_def)
  note step = recv_step [OF p a keeps_crest, folded H_def, OF s(1) seg le big lim]
  consider (silent) "?seg = []" | (part) "?seg \<noteq> []" "?m < length ?W" | (all) "?seg \<noteq> []" "\<not> ?m < length ?W" by blast
  then show ?thesis
  proof cases
    case silent
    then have "if ?seg = [] then io_conn s = io_conn s \<and> ([] :: http_ev list) = []
      else http_proto ws crest_deletes (PRecv ?seg) (io_conn s) = Some (Inr (io_conn s, [])) \<and> \<not> nc_ws (io_conn s) \<and> \<not> nc_close (io_conn s)"
      by simp
    from run [OF this] obtain s' pre post where r: "mg_mgr_handle_conn ra (http_proto ws crest_deletes) crest_finishes (sps fd) (fd_flags (sps fd) s) s
        = Some (Inr (Some s', pre @ [] @ post))" "quiet_evs client_ev pre" "quiet_evs client_ev post"
      "io_conn s' = io_conn s \<or> io_conn s' = (io_conn s)\<lparr>nc_buf := recv_text (io_conn s)\<rparr>" "\<not> io_finish s'" "io_sock s' = io_sock s"
      "io_err s' = 0" "moved ra s s'" "takes (sps fd) \<longrightarrow> progress s s'"
      by auto
    have "waiting ra fd req H pl m s'" using r(4-8) s arriving_trim [OF s(1)] by (auto simp: waiting_def moved_def)
    then show ?thesis using one_poll [of ra _ _ sps fd s, OF r(1) s(5)] r(2,3,9) silent m quiet_idle [of "pre @ post"] by auto
  next
    case part
    obtain c1 es where c1: "http_recv crest_deletes ?seg (io_conn s) = Some (Inr (c1, es))" "no_reply es" "arriving H pl ?m c1"
      "\<not> nc_close c1" "\<not> nc_ws c1" "nc_limit c1 = size_max" using step part(2) s by (auto simp: step_ok_def)
    have nf: "\<not> list_ex crest_finishes es" using c1(2) by (auto simp: list_ex_iff no_reply_def elim: crest_finishes.elims)
    obtain s' pre post where r: "mg_mgr_handle_conn ra (http_proto ws crest_deletes) crest_finishes (sps fd) (fd_flags (sps fd) s) s
        = Some (Inr (Some s', pre @ es @ post))" "quiet_evs client_ev pre" "quiet_evs client_ev post"
      "io_conn s' = c1 \<or> io_conn s' = c1\<lparr>nc_buf := recv_text c1\<rparr>" "\<not> io_finish s'" "io_sock s' = io_sock s"
      "io_err s' = 0" "moved ra s s'" "takes (sps fd) \<longrightarrow> progress s s'"
      using run [of c1 es] part(1) c1 s(2) nf by auto
    have "waiting ra fd req H pl ?m s'" using r(4-8) s c1 arriving_trim [OF c1(3)] by (auto simp: waiting_def moved_def)
    moreover have "list_all idle_event (map user_ev (pre @ es @ post))"
      using quiet_idle [OF r(2)] quiet_idle [OF r(3)] no_reply_idle [OF c1(2)] by simp
    ultimately show ?thesis using one_poll [of ra _ _ sps fd s, OF r(1) s(5)] r(9) part(2) by auto
  next
    case all
    obtain c1 es t hm where c1: "http_recv crest_deletes ?seg (io_conn s) = Some (Inr (c1, [HRecv (length ?seg)] @ es @ [HReply t hm]))"
      "no_reply es" "hm_resp_code hm = int code" "slice t (hm_body hm) = payload_data pl" "\<not> nc_close c1" "\<not> nc_ws c1" "idle c1"
      using step all(2) s by (auto simp: replies_def idle_def)
    obtain s' pre post where r: "mg_mgr_handle_conn ra (http_proto ws crest_deletes) crest_finishes (sps fd) (fd_flags (sps fd) s) s
        = Some (Inr (Some s', pre @ ([HRecv (length ?seg)] @ es @ [HReply t hm]) @ post))" "quiet_evs client_ev pre" "quiet_evs client_ev post"
      "io_conn s' = c1 \<or> io_conn s' = c1\<lparr>nc_buf := recv_text c1\<rparr>" "io_finish s'" "moved ra s s'"
      using run [of c1 "[HRecv (length ?seg)] @ es @ [HReply t hm]"] all(1) c1 s(2) by auto
    have "list_all idle_event (map user_ev (pre @ [HRecv (length ?seg)] @ es))"
      using quiet_idle [OF r(2)] no_reply_idle [OF c1(2)] by simp
    moreover have "client_poll ra ws sps [s] = Some (Inr ([s'], (pre @ [HRecv (length ?seg)] @ es) @ HReply t hm # post))"
      using one_poll [of ra _ _ sps fd s, OF r(1) s(5)] by simp
    moreover have "spent s'" if "mbuf_data (io_send s') = []"
    proof -
      have "mbuf_ok (io_send s')" using r(6) by (simp add: moved_def heap_ok_def)
      then have "mb_len (io_send s') = length (mbuf_data (io_send s'))" by simp
      then show ?thesis using that r(4,5) c1(6,7) by (auto simp: spent_def idle_def)
    qed
    ultimately show ?thesis using quiet_idle [OF r(3)] c1(3,4) unfolding if_not_P [OF all(2)] by blast
  qed
qed

section \<open>Polls until the reply\<close>

declare http_proto.simps [simp del] mg_socket_if_poll.simps [simp del]

lemma polls_wait:
  assumes p: "plain_reply proto code msg hs" and a: "announced hs pl"
  defines "H \<equiv> response_head proto code msg hs"
  assumes big: "length (H @ wire pl) < 2 ^ 31" and w: "waiting ra fd req H pl 0 s"
    and sp: "\<And>k. calm (sps k fd)" "\<And>k. honest (sps k fd)"
  shows "H @ wire pl = arrived_upto sps fd k @ r \<Longrightarrow> r \<noteq> [] \<Longrightarrow>
    \<exists>s' ess. client_polls ra ws (map sps [0..<k]) [s] = Some (Inr ([s'], ess)) \<and> length ess = k
      \<and> (\<forall>es \<in> set ess. list_all idle_event (map user_ev es)) \<and> waiting ra fd req H pl (length (arrived_upto sps fd k)) s'
      \<and> ((\<forall>i < k. takes (sps i fd)) \<longrightarrow> length (mbuf_data (io_send s')) \<le> length req - k)"
proof (induction k arbitrary: r)
  case 0
  have "length (mbuf_data (io_send s)) \<le> length req" using w by (auto simp: waiting_def stream_def)
  then show ?case using w by simp
next
  case (Suc k)
  let ?m = "length (arrived_upto sps fd k)" and ?seg = "arrived (sps k fd)"
  have W: "H @ wire pl = arrived_upto sps fd k @ (?seg @ r)" using Suc.prems(1) by simp
  obtain s1 ess where s1: "client_polls ra ws (map sps [0..<k]) [s] = Some (Inr ([s1], ess))" "length ess = k"
    "\<forall>es \<in> set ess. list_all idle_event (map user_ev es)" "waiting ra fd req H pl ?m s1"
    "(\<forall>i < k. takes (sps i fd)) \<longrightarrow> length (mbuf_data (io_send s1)) \<le> length req - k"
    using Suc.IH [OF W] Suc.prems(2) by blast
  have m: "?m < length (H @ wire pl)" "?m + length ?seg < length (H @ wire pl)" unfolding W using Suc.prems(2) by simp_all
  have seg: "?seg = take (length ?seg) (drop ?m (H @ wire pl))" unfolding W by simp
  obtain s2 es where s2: "client_poll ra ws (sps k) [s1] = Some (Inr ([s2], es))" "list_all idle_event (map user_ev es)"
    "waiting ra fd req H pl (?m + length ?seg) s2" "takes (sps k fd) \<longrightarrow> progress s1 s2"
    using poll_step [OF p a, folded H_def, where sps = "sps k" and fd = fd and ws = ws, OF big s1(4) m(1) seg sp] m(2) by simp blast
  have "client_polls ra ws (map sps [0..<Suc k]) [s] = Some (Inr ([s2], ess @ [es]))"
    using polls_snoc [OF s1(1) s2(1)] by simp
  moreover have "length (mbuf_data (io_send s2)) \<le> length req - Suc k" if "\<forall>i < Suc k. takes (sps i fd)"
    using that s1(5) s2(4) by (auto simp: progress_def)
  ultimately show ?case using s1(2,3) s2(2,3) by (intro exI [of _ s2] exI [of _ "ess @ [es]"]) auto
qed

lemma polls_reply:
  assumes p: "plain_reply proto code msg hs" and a: "announced hs pl"
  defines "H \<equiv> response_head proto code msg hs"
  assumes big: "length (H @ wire pl) < 2 ^ 31" and w: "waiting ra fd req H pl 0 s"
    and sp: "\<And>k. calm (sps k fd)" "\<And>k. honest (sps k fd)" and W: "arrived_upto sps fd N = H @ wire pl"
  shows "\<exists>j s' ess pre t hm post. client_polls ra ws (map sps [0..<Suc j]) [s] = Some (Inr ([s'], ess @ [pre @ HReply t hm # post]))
      \<and> (\<forall>k < j. \<exists>s' ess. client_polls ra ws (map sps [0..<Suc k]) [s] = Some (Inr ([s'], ess)) \<and> ess \<noteq> []
            \<and> (\<forall>es \<in> set ess. list_all idle_event (map user_ev es)))
      \<and> list_all idle_event (map user_ev pre) \<and> list_all idle_event (map user_ev post)
      \<and> hm_resp_code hm = int code \<and> slice t (hm_body hm) = payload_data pl \<and> (mbuf_data (io_send s') = [] \<longrightarrow> spent s')"
proof -
  let ?P = "\<lambda>k. length (arrived_upto sps fd k) = length (H @ wire pl)"
  have "\<not> ?P 0" "?P N" using W by (simp_all add: H_def response_head_def crlf_def)
  then obtain j where j: "j < N" "\<forall>i \<le> j. \<not> ?P i" "?P (Suc j)" using ex_least_nat_less [of ?P N] by blast
  have rest: "\<exists>r. H @ wire pl = arrived_upto sps fd i @ r \<and> r \<noteq> []" if i: "i \<le> j" for i
  proof -
    obtain r where "H @ wire pl = arrived_upto sps fd i @ r" using arrived_upto_prefix [of i N sps fd] le_trans [OF i less_imp_le [OF j(1)]] W by metis
    then show ?thesis using j(2) i by (cases r) force+
  qed
  note waits = polls_wait [OF p a, folded H_def, where sps = sps and fd = fd and ws = ws, OF big w sp]
  have idle: "\<exists>s' ess. client_polls ra ws (map sps [0..<Suc k]) [s] = Some (Inr ([s'], ess)) \<and> ess \<noteq> []
      \<and> (\<forall>es \<in> set ess. list_all idle_event (map user_ev es))" if k: "k < j" for k
  proof -
    from k rest [of "Suc k"] obtain r where "H @ wire pl = arrived_upto sps fd (Suc k) @ r" "r \<noteq> []" by auto
    from waits [OF this] show ?thesis by fastforce
  qed
  obtain r where r: "H @ wire pl = arrived_upto sps fd j @ r" "r \<noteq> []" using rest [of j] by blast
  let ?m = "length (arrived_upto sps fd j)"
  obtain s1 ess where s1: "client_polls ra ws (map sps [0..<j]) [s] = Some (Inr ([s1], ess))" "waiting ra fd req H pl ?m s1"
    using waits [OF r] by blast
  obtain r2 where "H @ wire pl = arrived_upto sps fd (Suc j) @ r2" using arrived_upto_prefix [of "Suc j" N sps fd] Suc_leI [OF j(1)] W by metis
  then have Wj: "H @ wire pl = arrived_upto sps fd j @ arrived (sps j fd)" using j(3) by simp
  then have m: "?m < length (H @ wire pl)" "?m + length (arrived (sps j fd)) = length (H @ wire pl)"
    using r by (metis append_eq_append_conv length_greater_0_conv length_append less_add_same_cancel1, metis length_append)
  have seg: "arrived (sps j fd) = take (length (arrived (sps j fd))) (drop ?m (H @ wire pl))" unfolding Wj by simp
  obtain s' pre t hm post where s': "client_poll ra ws (sps j) [s1] = Some (Inr ([s'], pre @ HReply t hm # post))"
    "list_all idle_event (map user_ev pre)" "list_all idle_event (map user_ev post)"
    "hm_resp_code hm = int code" "slice t (hm_body hm) = payload_data pl" "mbuf_data (io_send s') = [] \<longrightarrow> spent s'"
    using poll_step [OF p a, folded H_def, where sps = "sps j" and fd = fd and ws = ws, OF big s1(2) m(1) seg sp] m(2) by simp blast
  have "client_polls ra ws (map sps [0..<Suc j]) [s] = Some (Inr ([s'], ess @ [pre @ HReply t hm # post]))"
    using polls_snoc [OF s1(1) s'(1)] by simp
  then show ?thesis using idle s'(2-6) by blast
qed

text \<open>The connections of earlier posts only add the events of their closing to the first poll.\<close>

lemma polls_with_spent:
  assumes "list_all spent old" and "client_polls ra ws (p # ps) [s] = Some (Inr (ss, es # ess))"
  shows "client_polls ra ws (p # ps) (s # old) = Some (Inr (ss, (es @ replicate (length old) HClose) # ess))"
proof -
  obtain ss1 where h: "client_poll ra ws p [s] = Some (Inr (ss1, es))" "client_polls ra ws ps ss1 = Some (Inr (ss, ess))"
    using assms(2) by (auto split: option.splits sum.splits prod.splits)
  have "client_poll ra ws p (s # old) = Some (Inr (ss1, es @ replicate (length old) HClose))"
    using h(1) spent_polled [OF assms(1), of ra ws p]
    by (auto simp: mg_socket_if_poll.simps split: option.splits sum.splits prod.splits)
  then show ?thesis using h(2) by simp
qed

section \<open>Posts over sockets\<close>

text \<open>The websocket handler of the examples does nothing.\<close>

definition ws_none :: proto where
  "ws_none e c = Some (Inr (c, []))"

text \<open>
  The network below \<open>http_post\<close>: the connection is started with \<open>mg_connect_http\<close>, and \<open>mg_mgr_poll\<close>
  is called again and again; without a connection no event of it comes. \<open>old\<close> are the connections that
  the manager holds already; the new one is put before them. \<open>sps k fd\<close> is what the system
  does with the socket \<open>fd\<close> in the poll \<open>k\<close>.
\<close>

definition content_type :: string where
  "content_type = ''Content-Type:application/json'' @ crlf"

definition socket_net :: "conn_env \<Rightarrow> proto \<Rightarrow> io list \<Rightarrow> (nat \<Rightarrow> nat \<Rightarrow> sock_poll) \<Rightarrow> string \<Rightarrow> string \<Rightarrow> nat \<Rightarrow> ev list" where
  "socket_net env ws old sps url trx k =
     (case mg_connect_http env url content_type trx of
        Inl _ \<Rightarrow> []
      | Inr nc \<Rightarrow>
          (case client_polls (ce_ra env) ws (map sps [0..<Suc k]) (case nc of None \<Rightarrow> old | Some s \<Rightarrow> s # old) of
             Some (Inr (_, ess)) \<Rightarrow> map user_ev (last ess)
           | _ \<Rightarrow> []))"

text \<open>There is memory, the host has an address, and the system gives a socket whose \<open>connect\<close> does not fail at once.\<close>

definition connects :: "conn_env \<Rightarrow> string \<Rightarrow> u32 \<Rightarrow> nat \<Rightarrow> bool" where
  "connects env host port fd \<longleftrightarrow> ample (ce_ra env) \<and> ce_conn_mem env \<and> ce_addr_mem env \<and> ce_text_mem env \<and> ce_socket env = Inr fd
     \<and> (\<exists>ad. mg_parse_address (ce_hosts env) (ce_junk env) MG_MAX_HOST_LEN (addr_text host port) = Inr ad \<and> 0 < ad_rc ad
          \<and> (\<forall>e. ce_connect env (ad_ip ad) (ad_port ad) \<noteq> SysErr e))"

lemma connects_started:
  fixes extra post :: string
  assumes "url_ok sch user host path query" and "connects env host port fd"
  defines "t \<equiv> request_text user (host @ port_text port) (uri_tail path query []) extra post"
  assumes "length t < 2 ^ 31"
  shows "\<exists>s. mg_connect_http env (http_url sch user host port path query) extra post = Inr (Some s)
    \<and> started env fd s \<and> stream s = string_bytes t"
proof -
  obtain ad where ad: "mg_parse_address (ce_hosts env) (ce_junk env) MG_MAX_HOST_LEN (addr_text host port) = Inr ad" "0 < ad_rc ad"
    "\<And>e. ce_connect env (ad_ip ad) (ad_port ad) \<noteq> SysErr e" using assms(2) by (auto simp: connects_def)
  have env: "ample (ce_ra env)" "ce_conn_mem env" "ce_addr_mem env" "ce_text_mem env" "ce_socket env = Inr fd"
    using assms(2) by (simp_all add: connects_def)
  show ?thesis
    using http_started [OF assms(1) env(1-3) ad(1,2) env(5) ad(3) assms(4) [unfolded t_def]] env(4) unfolding t_def by auto
qed

text \<open>
  C34. The request gets out: while the server has not answered and the socket takes at least a byte
  in every poll, after as many polls as the request has bytes the socket has taken exactly the
  request, whatever the sizes of the pieces were.
\<close>

theorem request_sent:
  fixes extra post :: string
  assumes "url_ok sch user host path query" and "connects env host port fd"
  defines "t \<equiv> request_text user (host @ port_text port) (uri_tail path query []) extra post"
  assumes "length t < 2 ^ 31" and "length t \<le> n"
    and "\<And>k. calm (sps k fd)" and "\<And>k. honest (sps k fd)" and "\<And>k. takes (sps k fd)" and "arrived_upto sps fd n = []"
  shows "\<exists>s s' ess. mg_connect_http env (http_url sch user host port path query) extra post = Inr (Some s)
    \<and> client_polls (ce_ra env) ws (map sps [0..<n]) [s] = Some (Inr ([s'], ess))
    \<and> io_taken s' = string_bytes t \<and> mbuf_data (io_send s') = []"
proof -
  obtain s where s: "mg_connect_http env (http_url sch user host port path query) extra post = Inr (Some s)"
    "started env fd s" "stream s = string_bytes t" using connects_started [OF assms(1,2) assms(4) [unfolded t_def]] t_def by blast
  note pl = sized_sample
  have big: "length (response_head ''HTTP/1.1'' 200 ''OK'' [(''Content-Length'', ''5'')] @ wire (Sized ''hello'')) < 2 ^ 31"
    by (simp add: response_head_def crlf_def sample_code)
  have ne: "response_head ''HTTP/1.1'' 200 ''OK'' [(''Content-Length'', ''5'')] @ wire (Sized ''hello'') \<noteq> []" by simp
  obtain s' ess where s': "client_polls (ce_ra env) ws (map sps [0..<n]) [s] = Some (Inr ([s'], ess))"
    "stream s' = string_bytes t" "length (mbuf_data (io_send s')) \<le> length (string_bytes t) - n"
    using polls_wait [OF pl, where sps = sps and fd = fd and ws = ws and k = n, OF big started_waiting [OF s(2)] assms(6,7)] ne assms(8,9) s(3) by (auto simp: waiting_def)
  have "mbuf_data (io_send s') = []" using s'(3) assms(5) by simp
  then show ?thesis using s(1) s'(1,2) by (auto simp: stream_def)
qed

text \<open>A server that sends the given pieces, and a socket that takes at most 40 bytes at once.\<close>

definition ex_polls :: "(nat \<Rightarrow> string) \<Rightarrow> nat \<Rightarrow> nat \<Rightarrow> sock_poll" where
  "ex_polls segs k fd = \<lparr>sp_read = True, sp_write = True, sp_except = False,
     sp_recv = (\<lambda>n. if segs k = [] then SysAgain else SysOk (take n (segs k))),
     sp_send = (\<lambda>b. SysOk (min 40 (length b))), sp_soerr = SysOk 0\<rparr>"

lemma ex_polls_ok: "calm (ex_polls segs k fd)" "honest (ex_polls segs k fd)" "takes (ex_polls segs k fd)"
  "length (segs k) \<le> 1460 \<Longrightarrow> arrived (ex_polls segs k fd) = segs k"
  by (auto simp: ex_polls_def calm_def honest_def takes_def arrived_def so_error_def MG_TCP_IO_SIZE_def)

lemma ex_connects: "connects ex_env ''127.0.0.1'' 8081 3"
proof -
  have "0 < ad_rc \<lparr>ad_rc = 14, ad_ip = ip_of 127 0 0 1, ad_port = 8081, ad_udp = False, ad_host = []\<rparr>" by simp
  moreover have "ce_connect ex_env ip p \<noteq> SysErr e" for ip p e by (simp add: ex_env_def)
  ultimately show ?thesis
    unfolding connects_def using ex_ample ex_address by (auto simp: ex_env_def)
qed

theorem request_sent_witness:
  "\<exists>s s' ess. mg_connect_http ex_env ''127.0.0.1:8081/x?y'' [] ''{}'' = Inr (Some s)
     \<and> client_polls (ce_ra ex_env) ws_none (map (ex_polls (\<lambda>_. [])) [0..<200]) [s] = Some (Inr ([s'], ess))
     \<and> io_taken s' = string_bytes (''POST /x?y HTTP/1.1'' @ crlf @ ''Host: 127.0.0.1:8081'' @ crlf @ ''Content-Length: 2'' @ crlf @ crlf @ ''{}'')"
proof -
  have url: "url_ok False [] ''127.0.0.1'' ''/x'' ''y''" by (simp add: url_ok_def tail_ok_def user_ok_def plain_host_def)
  have t: "request_text [] (''127.0.0.1'' @ port_text 8081) (uri_tail ''/x'' ''y'' []) [] ''{}'' =
      ''POST /x?y HTTP/1.1'' @ crlf @ ''Host: 127.0.0.1:8081'' @ crlf @ ''Content-Length: 2'' @ crlf @ crlf @ ''{}''"
    by (simp add: request_text_def port_text_def uri_tail_def tail_pieces_def auth_text_def ex_numbers)
  have u: "http_url False [] ''127.0.0.1'' 8081 ''/x'' ''y'' = ''127.0.0.1:8081/x?y''"
    by (simp add: http_url_def port_text_def uri_tail_def tail_pieces_def ex_numbers)
  have len: "length (request_text [] (''127.0.0.1'' @ port_text 8081) (uri_tail ''/x'' ''y'' []) [] ''{}'') < 2 ^ 31"
    "length (request_text [] (''127.0.0.1'' @ port_text 8081) (uri_tail ''/x'' ''y'' []) [] ''{}'') \<le> 200"
    unfolding t by (simp_all add: crlf_def)
  have none: "arrived_upto (ex_polls (\<lambda>_. [])) 3 200 = []" by (simp add: arrived_upto_def ex_polls_ok)
  show ?thesis
    using request_sent [OF url ex_connects len ex_polls_ok(1-3) none, of ws_none] unfolding t u by blast
qed

text \<open>
  C12. A post over a socket: \<open>http_post\<close> on a handle whose URL leads to a host that resolves to an
  address starts the connection and writes the request; when no call of the system fails and
  the server sends a reply of less than 2^31 characters, with a sized or a chunked body, in
  whatever pieces and polls it arrives, the call returns 0 for the code 200 and the code otherwise,
  and the receive buffer of the caller starts with as much of the body as fits. The connections
  of earlier posts that the manager still holds do not disturb this when their requests are out; they are
  gone afterwards, and the new connection is in their state when its own request is out.
\<close>

theorem post_over_socket:
  assumes "h_wan_url h = Some url" and "url @ api = http_url sch user host port path query" and "length (url @ api) < 256"
    and "url_ok sch user host path query" and "connects env host port fd"
    and "length (request_text user (host @ port_text port) (uri_tail path query []) content_type trx) < 2 ^ 31"
    and "buf \<noteq> []" and "length buf < 2 ^ 31"
    and "plain_reply proto code msg hs" and "announced hs pl"
    and "length (response_head proto code msg hs @ wire pl) < 2 ^ 31"
    and "\<And>k. calm (sps k fd)" and "\<And>k. honest (sps k fd)"
    and "arrived_upto sps fd n = response_head proto code msg hs @ wire pl" and "list_all spent old"
    and "w_net w (length (w_posts w)) = socket_net env ws old sps (sn_store 256 (url @ api)) trx"
  shows "http_post w h api trx (Some buf) (int (length buf)) = posted w url api trx buf code (payload_data pl)
    \<and> (\<exists>s j s' ess. mg_connect_http env (url @ api) content_type trx = Inr (Some s)
         \<and> client_polls (ce_ra env) ws (map sps [0..<Suc j]) (s # old) = Some (Inr ([s'], ess))
         \<and> (mbuf_data (io_send s') = [] \<longrightarrow> spent s'))"
proof -
  obtain s where s: "mg_connect_http env (url @ api) content_type trx = Inr (Some s)" "started env fd s"
    using connects_started [OF assms(4-6)] assms(2) by auto
  obtain j s' ess pre t hm post where r:
    "client_polls (ce_ra env) ws (map sps [0..<Suc j]) [s] = Some (Inr ([s'], ess @ [pre @ HReply t hm # post]))"
    "\<forall>k < j. \<exists>s' ess. client_polls (ce_ra env) ws (map sps [0..<Suc k]) [s] = Some (Inr ([s'], ess)) \<and> ess \<noteq> []
      \<and> (\<forall>es \<in> set ess. list_all idle_event (map user_ev es))"
    "list_all idle_event (map user_ev pre)" "list_all idle_event (map user_ev post)"
    "hm_resp_code hm = int code" "slice t (hm_body hm) = payload_data pl" "mbuf_data (io_send s') = [] \<longrightarrow> spent s'"
    using polls_reply [OF assms(9-11) started_waiting [OF s(2)] assms(12-14), of ws] by blast
  have up: "map sps [0..<Suc k] = sps 0 # map sps [1..<Suc k]" for k by (simp add: upt_conv_Cons del: upt_Suc)
  let ?closes = "replicate (length old) HClose"
  have runs: "client_polls (ce_ra env) ws (map sps [0..<Suc k]) (s # old) = Some (Inr (ss, (es @ ?closes) # es'))"
    if "client_polls (ce_ra env) ws (map sps [0..<Suc k]) [s] = Some (Inr (ss, es # es'))" for k ss es es'
    using polls_with_spent [OF assms(15)] that unfolding up by blast
  have net: "w_net w (length (w_posts w)) k = (case client_polls (ce_ra env) ws (map sps [0..<Suc k]) (s # old) of
      Some (Inr (_, ess)) \<Rightarrow> map user_ev (last ess) | _ \<Rightarrow> [])" for k
    using assms(3,16) s(1) by (simp add: socket_net_def)
  have closes: "list_all idle_event (map user_ev ?closes)" by (simp add: list_all_iff)
  have idle: "list_all idle_event (w_net w (length (w_posts w)) k)" if k: "k < j" for k
  proof -
    obtain s1 es ess where e: "client_polls (ce_ra env) ws (map sps [0..<Suc k]) [s] = Some (Inr ([s1], es # ess))"
      "\<forall>x \<in> set (es # ess). list_all idle_event (map user_ev x)" using r(2) k by (metis list.exhaust)
    then have "list_all idle_event (map user_ev (last ((es @ ?closes) # ess)))" using closes by (cases ess) auto
    then show ?thesis unfolding net runs [OF e(1)] by simp
  qed
  have code: "int code \<noteq> 0" using assms(9) by (simp add: plain_reply_def good_reply_def)
  obtain ess2 post2 where j: "client_polls (ce_ra env) ws (map sps [0..<Suc j]) (s # old) =
      Some (Inr ([s'], ess2 @ [pre @ HReply t hm # post2]))" "list_all idle_event (map user_ev post2)"
  proof (cases ess)
    case Nil
    then show ?thesis using that [of "[]" "post @ ?closes"] runs [of j "[s']" "pre @ HReply t hm # post" "[]"] r(1,4) closes by simp
  next
    case (Cons es ess')
    then show ?thesis
      using that [of "(es @ ?closes) # ess'" post] runs [of j "[s']" es "ess' @ [pre @ HReply t hm # post]"] r(1,4) by simp
  qed
  have "w_net w (length (w_posts w)) j = map user_ev pre @ EvReply (int code) (bytes_of (payload_data pl)) # map user_ev post2"
    unfolding net j(1) using r(5,6) by (simp add: bytes_of_def)
  from http_post_reply_aux [OF assms(1,7,8) code idle this r(3) j(2)]
  show ?thesis using s(1) j(1) r(7) by (auto simp: posted_def bytes_of_def simp del: upt_Suc)
qed

definition ex_old :: io where
  "ex_old = \<lparr>io_conn = sample_conn, io_sock = Some 4, io_sa = (0, 0), io_err = 0, io_connecting = False, io_resolving = False,
     io_finish = True, io_send = mbuf_init (ce_ra ex_env) 0, io_taken = []\<rparr>"

theorem post_over_socket_witness:
  "let segs = (\<lambda>k. if k = 2 then take 30 sample_text else if k = 4 then drop 30 sample_text else []);
       w = ex_world (socket_net ex_env ws_none [ex_old] (ex_polls segs) ''127.0.0.1:8081/x'' ''{}'');
       h = ex_handle\<lparr>h_wan_url := Some ''127.0.0.1:8081''\<rparr>
   in http_post w h ''/x'' ''{}'' (Some (replicate 20 7)) 20 = posted w ''127.0.0.1:8081'' ''/x'' ''{}'' (replicate 20 7) 200 ''hello0123456789''"
proof -
  define segs where "segs = (\<lambda>k. if k = (2 :: nat) then take 30 sample_text else if k = 4 then drop 30 sample_text else [])"
  define w where "w = ex_world (socket_net ex_env ws_none [ex_old] (ex_polls segs) ''127.0.0.1:8081/x'' ''{}'')"
  define h where "h = ex_handle\<lparr>h_wan_url := Some ''127.0.0.1:8081''\<rparr>"
  have url: "h_wan_url h = Some ''127.0.0.1:8081''" "''127.0.0.1:8081'' @ ''/x'' = http_url False [] ''127.0.0.1'' 8081 ''/x'' []"
    "length (''127.0.0.1:8081'' @ ''/x'') < 256" "url_ok False [] ''127.0.0.1'' ''/x'' []"
    by (simp_all add: h_def http_url_def port_text_def uri_tail_def tail_pieces_def ex_numbers url_ok_def tail_ok_def user_ok_def plain_host_def)
  have t: "length (request_text [] (''127.0.0.1'' @ port_text 8081) (uri_tail ''/x'' [] []) content_type ''{}'') < 2 ^ 31"
    by (simp add: request_text_def port_text_def uri_tail_def tail_pieces_def auth_text_def ex_numbers content_type_def crlf_def)
  have "length (segs k) \<le> 1460" for k using sample_length by (simp add: segs_def)
  then have arr: "arrived_upto (ex_polls segs) 3 5 = sample_text"
    by (simp add: arrived_upto_def ex_polls_ok segs_def upt_rec)
  have W: "sample_text = response_head ''HTTP/1.1'' 200 ''OK'' sample_headers @ wire sample_payload" by (simp add: sample_text_def)
  have buf: "replicate 20 (7 :: u8) \<noteq> []" "length (replicate 20 (7 :: u8)) < 2 ^ 31" by simp_all
  have old: "list_all spent [ex_old]"
    by (simp add: spent_def ex_old_def mbuf_init_def mbuf_resize_def idle_def sample_conn_def)
  have big: "length sample_text < 2 ^ 31" using sample_length by simp
  have net: "w_net w (length (w_posts w)) = socket_net ex_env ws_none [ex_old] (ex_polls segs) (sn_store 256 (''127.0.0.1:8081'' @ ''/x'')) ''{}''"
    by (simp add: w_def ex_world_def)
  have "http_post w h ''/x'' ''{}'' (Some (replicate 20 7)) (int (length (replicate 20 (7 :: u8))))
      = posted w ''127.0.0.1:8081'' ''/x'' ''{}'' (replicate 20 7) 200 (payload_data sample_payload)"
    by (rule post_over_socket [OF url ex_connects t buf sample_plain sample_announced big [unfolded W] ex_polls_ok(1,2)
          arr [unfolded W] old net, THEN conjunct1])
  then show ?thesis by (simp add: Let_def segs_def w_def h_def)
qed

end
