(* ===== verification/Spec2Isabelle.thy ===== *)
theory Spec2Isabelle
  imports MgBase64 CrestApi CrestBson HetRound PrintEvent MgUri ProvaDma HttpThreads MgHash MgNet
begin

text \<open>
  Verification development of chaos-common-crest, a C library that publishes the data sets of
  control units to a !CHAOS metadata server over HTTP, together with the programs for a TDC
  board that use it. This theory imports all the others; each of them models one part of the
  program and holds the properties of that part.

  The program. A client opens a handle (\<open>chaos_crest_open\<close>), adds control units, each a table
  of named and typed attributes (\<open>chaos_crest_add_cu\<close>), writes values into the attributes
  (\<open>chaos_crest_update\<close>), registers the units and pushes their data sets as JSON objects
  (\<open>chaos_crest_register\<close>, \<open>chaos_crest_push\<close>), and closes the handle. Values of binary
  attributes go through a base64 codec (\<open>encode.c\<close>, \<open>decode.c\<close>). Requests are sent through the
  bundled mongoose library (\<open>mongoose.c\<close>) in the build that the makefiles select, or through
  \<open>http_lib.c\<close> in the other one. \<open>het/src\<close> holds a driver for the TDC board, an acquisition
  program that drives board and library together, a decoder of event words and two programs
  that try out the DMA engine.

  Theories and sources.
  \<^item> \<open>Prelude\<close>: machine integers, the faults of a C execution, the error monad \<open>rbind\<close>, C strings,
    \<open>snprintf\<close> into a buffer, printing and reading decimal numbers. \<open>CFormat\<close>: format strings
    against argument lists.
  \<^item> \<open>B64\<close>: \<open>b64.h\<close>, \<open>encode.c\<close>, \<open>decode.c\<close>; the interface \<open>base64_codec\<close>. \<open>MgBase64\<close>: the streaming
    and the one-shot coder of mongoose, a second instance of that interface.
  \<^item> \<open>CrestDs\<close>, \<open>CrestUpdate\<close>, \<open>CrestHttp\<close>, \<open>CrestPush\<close>, \<open>CrestApi\<close>, \<open>CrestBson\<close>: \<open>chaos_crest.c\<close>.
    The records \<open>ds\<close>, \<open>cu\<close> and \<open>handle\<close> are \<open>ds_t\<close>, \<open>cu_t\<close> and \<open>_chaos_crest_handle_t\<close>; a pointer that
    may be null is an option, an array is a list of as many slots as were allocated. \<open>CrestApi\<close>
    puts the operations together as the sequences of calls a client can make.
  \<^item> \<open>HttpLib\<close>: \<open>http_lib.c\<close>, the reading of responses byte by byte and the writing of requests.
    \<open>HttpThreads\<close>: the client and the receiver thread on one handle, as a step relation.
  \<^item> \<open>MgMbuf\<close>, \<open>MgHttp\<close>, \<open>MgUri\<close>: the growable buffers of mongoose, its parser of HTTP messages,
    its parser and writer of URIs. The interface \<open>byte_buffer\<close> is what clients of a buffer rely
    on; \<open>MgUri\<close> uses it through the interpretation \<open>room\<close>.
  \<^item> \<open>MgChunk\<close>, \<open>MgConn\<close>, \<open>MgPost\<close>: the chunked encoding of bodies (\<open>mg_send_http_chunk\<close>,
    \<open>mg_http_parse_chunk\<close>, the loop of \<open>mg_handle_chunked\<close>); the protocol handler
    \<open>mg_http_handler\<close> of a client connection, with the receive buffer as its state (\<open>conn\<close>) and the
    events of the user handler as its output; \<open>http_post\<close> on top of it, so that the events which
    \<open>CrestHttp\<close> takes as a parameter are computed from the bytes of the server.
  \<^item> \<open>MgIo\<close>, \<open>MgConnect\<close>, \<open>MgNet\<close>: what a poll of the socket interface does to the TCP connections
    of a client (\<open>mg_socket_if_poll\<close>, \<open>mg_mgr_handle_conn\<close>, receiving, sending from the send buffer,
    closing), with the results of the system calls as parameters and the contract of the protocol
    handler as the interface \<open>net_client\<close>; addresses, the hosts file and the request that
    \<open>mg_connect_http\<close> writes; \<open>http_post\<close> on top of both, from the URL to the reply.
  \<^item> \<open>MgHash\<close>: MD5, SHA-1 and HMAC-SHA1 of mongoose, with their streaming interface; the laws
    of a digest that is fed in pieces are the interface \<open>stream_digest\<close>.
  \<^item> \<open>HetDriver\<close>, \<open>HetAcquire\<close>, \<open>HetRound\<close>: \<open>het/src/hetDriver.c\<close> and \<open>het/src/hetAcquire.c\<close>; the
    board is a record of functions (\<open>bus\<close>). \<open>HetRound\<close> is the main loop over driver and library.
    \<open>PrintEvent\<close>: \<open>het/src/PrintEvent_1290A.c\<close>. \<open>ProvaDma\<close>: \<open>het/src/provadma.c\<close> and
    \<open>het/src/provadmalib.c\<close>.

  How the code is read. An operation of the code is a definition of the same name that takes
  the state and returns the new one. The result type \<open>fault + 'a\<close> tells a return (\<open>Inr\<close>, error
  codes included) from undefined behaviour or a failed assertion (\<open>Inl\<close>); where a call may
  never return, the result is an option and \<open>None\<close> is not returning. Integers of the code are
  words of their width, or integers with the wrap-around written out. Allocators, clocks, the
  network, the board, descriptors, and the contents of uninitialised variables are parameters,
  so the theorems hold for all of them, or under the hypotheses they name.

  What the properties show. For the codecs: every outcome, the round trip, the agreement of
  both coders. For the library: what adding a unit allocates and how it fails, what an update
  writes and when it refuses, that closing frees each object once, what a request carries and
  when it never ends, that the object pushed is the one of the current values, the invariant of
  all call sequences. For \<open>http_lib.c\<close>: a well-formed response is read as sent, and the outcomes
  when it is not; under which orders of the steps of its two threads an answer arrives, is lost,
  or the handle is freed too early. For mongoose: the buffer behaves as a list under any allocator, a response is
  parsed into what was written, path normalisation resolves dots, assembling and parsing URIs
  are inverse; what was sent in chunks is put together again; however a reply is cut into segments,
  its code and its body reach the caller of \<open>http_post\<close>, and so does a reply that the server has cut
  off; the request is written to the address of the host, the socket takes all of it in order, and
  the post of the library over such a socket returns what the server sent; the digests of a message do not depend on the pieces it is fed in. For the board: the register writes of every initialisation, the polling and the
  trigger loops with their bounds, the events found in a block, the options that reach the
  board, one round of the main loop published as one object, the fields of event words, the
  transfers of the DMA programs. Where the code does something else than it means to, the
  property states what it does.

  Termination and fuel. All loops are total functions with their measures, except those that
  may wait for ever: \<open>post_loop\<close> (polling until an answer), \<open>recv_again\<close> (a message without
  length that stays in the receive buffer) and the main loop of the
  acquisition program, which are \<open>partial_function (option)\<close> or run over a given number of
  rounds; that they return, or do not, is part of the statements about them. The polls of a manager
  are run for a given number of times; a request of \<open>n\<close> bytes is sent after \<open>n\<close> polls in which the
  socket takes something.

  Not modelled. Log files and progress messages; the functions inside \<open>#ifndef MOONGOOSE\<close> that
  the build leaves out; the form-data helpers of \<open>http_lib.c\<close>, which nothing calls;
  the rest of mongoose (timers, the DNS query for a host that the hosts file does not name, listening
  and UDP connections, TLS, MQTT, CoAP, WebSocket, the HTTP server with its files, CGI
  and SSI, SNTP, SOCKS and the ports to other systems), which is third-party code that a post to a
  known address does not run; the test
  programs, the C# and LabVIEW bindings and the prebuilt binaries. The functions of the VME
  libraries are not in the repository and appear as parameters.
\<close>

end
